(* ===== verification/Go_Prelude.thy ===== *)
theory Go_Prelude
  imports Main "HOL-Library.Word" "HOL-Library.Char_ord" "HOL-Library.List_Lexorder"
begin

text \<open>
  The vocabulary every component of the indexer is written in: Go's integers, byte
  sequences, errors and panics, and the few facts on lists and maps that more than one
  component needs.

  Go's 64-bit \<^verbatim>\<open>int\<close> is an Isabelle \<open>int\<close> in the range of a signed 64-bit word, with
  the wrap-around \<open>go_int\<close> written at every operation that can leave that range; Go's
  \<^verbatim>\<open>uint64\<close> is a \<open>64 word\<close>. A Go \<^verbatim>\<open>string\<close> and a \<^verbatim>\<open>[]byte\<close> are both sequences of
  bytes, and so is Isabelle's \<open>string\<close>: the conversions between them are the identity.
\<close>

section \<open>Integers\<close>

type_synonym bytes = string

type_synonym uint64 = "64 word"

definition go_int :: "int \<Rightarrow> int" where
  "go_int n = signed_take_bit 63 n"

definition int_of_uint64 :: "uint64 \<Rightarrow> int" where
  "int_of_uint64 w = sint w"

definition uint64_of_int :: "int \<Rightarrow> uint64" where
  "uint64_of_int n = word_of_int n"

definition max_int :: int where
  "max_int = 9223372036854775807"

definition min_int :: int where
  "min_int = - 9223372036854775808"

abbreviation is_int64 :: "int \<Rightarrow> bool" where
  "is_int64 n \<equiv> min_int \<le> n \<and> n \<le> max_int"

named_theorems go_arith \<open>conversions and wrap-around of Go's 64-bit integers\<close>

lemma go_int_id [go_arith]: "min_int \<le> n \<Longrightarrow> n \<le> max_int \<Longrightarrow> go_int n = n"
  unfolding go_int_def min_int_def max_int_def
  by (rule signed_take_bit_int_eq_self) simp_all

lemma go_int_range: "min_int \<le> go_int n" "go_int n \<le> max_int"
  unfolding go_int_def min_int_def max_int_def
  using signed_take_bit_int_greater_eq_minus_exp [of 63 n] signed_take_bit_int_less_exp [of 63 n]
  by simp_all

lemma go_int_wraps: "go_int (max_int + 1) = min_int"
  by (simp add: go_int_def max_int_def min_int_def)

lemma int_of_uint64_of_int [go_arith]: "int_of_uint64 (uint64_of_int n) = go_int n"
  by (simp add: int_of_uint64_def uint64_of_int_def go_int_def sint_sbintrunc')

lemma uint64_of_int_of_uint64 [go_arith]: "uint64_of_int (int_of_uint64 w) = w"
  by (simp add: int_of_uint64_def uint64_of_int_def)

lemma int_of_uint64_range: "min_int \<le> int_of_uint64 w" "int_of_uint64 w \<le> max_int"
  using go_int_range [of "int_of_uint64 w"]
  by (metis int_of_uint64_of_int uint64_of_int_of_uint64)+

lemma uint64_add_int [go_arith]:
  "int_of_uint64 (w + uint64_of_int n) = go_int (int_of_uint64 w + n)"
proof -
  have "w + uint64_of_int n = uint64_of_int (int_of_uint64 w + n)"
    by (simp add: uint64_of_int_def int_of_uint64_def)
  then show ?thesis
    by (simp add: int_of_uint64_of_int)
qed

text \<open>Go's integer division truncates towards zero.\<close>

definition go_div :: "int \<Rightarrow> int \<Rightarrow> int" where
  "go_div a b = (if a < 0 then - ((- a) div b) else a div b)"


lemma go_div_2_midpoint:
  assumes "0 \<le> s" "s \<le> e"
  shows "s \<le> go_div (s + e) 2" "go_div (s + e) 2 \<le> e"
  using assms by (simp_all add: go_div_def)

section \<open>Errors, panics and early returns\<close>

text \<open>
  The error values the code compares with \<^verbatim>\<open>==\<close> are package-level sentinels, one
  constructor each. \<open>NewError\<close> is an error made on the spot by \<^verbatim>\<open>errors.New\<close>, and
  \<open>Foreign\<close> an error that a library call returned: all the code ever reads of it is
  its \<^verbatim>\<open>Error()\<close> text and the JSON text \<^verbatim>\<open>json.Marshal\<close> makes of it (\<open>None\<close> when it
  cannot be marshalled).
\<close>

datatype go_error =
    ErrReqTooBig
  | ErrMaxRounds
  | ErrRateLimit
  | ErrClientBlocked
  | ErrClientTimeout
  | ErrMaxRetries
  | NewError string
  | Foreign string "string option"

text \<open>A call returns a value, returns a non-nil error, or panics.\<close>

datatype 'a outcome = Return 'a | Fail go_error | Panic string

definition obind :: "'a outcome \<Rightarrow> ('a \<Rightarrow> 'b outcome) \<Rightarrow> 'b outcome" where
  "obind r f = (case r of Return x \<Rightarrow> f x | Fail e \<Rightarrow> Fail e | Panic m \<Rightarrow> Panic m)"

named_theorems outcome_simps \<open>sequencing of calls that may fail or panic\<close>

lemma obind_simps [simp, outcome_simps]:
  "obind (Return x) f = f x"
  "obind (Fail e) f = Fail e"
  "obind (Panic m) f = Panic m"
  by (simp_all add: obind_def)

lemma obind_eq_Return [outcome_simps]:
  "obind r f = Return y \<longleftrightarrow> (\<exists>x. r = Return x \<and> f x = Return y)"
  by (cases r) simp_all

lemma obind_eq_Fail [outcome_simps]:
  "obind r f = Fail e \<longleftrightarrow> r = Fail e \<or> (\<exists>x. r = Return x \<and> f x = Fail e)"
  by (cases r) simp_all

lemma obind_eq_Panic [outcome_simps]:
  "obind r f = Panic m \<longleftrightarrow> r = Panic m \<or> (\<exists>x. r = Return x \<and> f x = Panic m)"
  by (cases r) simp_all

lemma obind_assoc: "obind (obind r f) g = obind r (\<lambda>x. obind (f x) g)"
  by (cases r) simp_all

lemma obind_cong [fundef_cong]:
  "r = r' \<Longrightarrow> (\<And>x. r' = Return x \<Longrightarrow> f x = g x) \<Longrightarrow> obind r f = obind r' g"
  by (cases r') simp_all

text \<open>A \<^verbatim>\<open>for ... range\<close> loop whose body may return early with an error or panic.\<close>

primrec fold_outcome :: "('s \<Rightarrow> 'a \<Rightarrow> 's outcome) \<Rightarrow> 's \<Rightarrow> 'a list \<Rightarrow> 's outcome" where
  "fold_outcome f s [] = Return s"
| "fold_outcome f s (x # xs) = obind (f s x) (\<lambda>s'. fold_outcome f s' xs)"

lemma fold_outcome_append:
  "fold_outcome f s (xs @ ys) = obind (fold_outcome f s xs) (\<lambda>s'. fold_outcome f s' ys)"
  by (induction xs arbitrary: s) (simp_all add: obind_assoc)

lemma fold_outcome_Return:
  assumes "\<And>s x. x \<in> set xs \<Longrightarrow> f s x = Return (g x s)"
  shows "fold_outcome f s xs = Return (fold g xs s)"
  using assms by (induction xs arbitrary: s) simp_all

lemma fold_outcome_map: "fold_outcome f s (map h xs) = fold_outcome (\<lambda>s x. f s (h x)) s xs"
  by (induction xs arbitrary: s) simp_all

text \<open>Reading through a pointer, which may be nil.\<close>

definition deref :: "'a option \<Rightarrow> 'a outcome" where
  "deref p = (case p of None \<Rightarrow> Panic ''nil pointer dereference'' | Some x \<Rightarrow> Return x)"

lemma deref_simps [simp, outcome_simps]:
  "deref None = Panic ''nil pointer dereference''"
  "deref (Some x) = Return x"
  by (simp_all add: deref_def)

text \<open>An early return of a library call, as a value or as an error.\<close>

definition of_sum :: "go_error + 'a \<Rightarrow> 'a outcome" where
  "of_sum r = (case r of Inl e \<Rightarrow> Fail e | Inr x \<Rightarrow> Return x)"

lemma of_sum_simps [simp, outcome_simps]:
  "of_sum (Inl e) = Fail e"
  "of_sum (Inr x) = Return x"
  by (simp_all add: of_sum_def)

lemma of_sum_eq_Return [outcome_simps]: "of_sum r = Return x \<longleftrightarrow> r = Inr x"
  by (cases r) simp_all

lemma of_sum_eq_Fail [outcome_simps]: "of_sum r = Fail e \<longleftrightarrow> r = Inl e"
  by (cases r) simp_all

lemma of_sum_no_Panic [simp, outcome_simps]: "of_sum r \<noteq> Panic m"
  by (cases r) simp_all

section \<open>Calls with state\<close>

text \<open>A method call on shared state: its outcome and the state after it. A call that fails
  or panics keeps the effects it had until then.\<close>

type_synonym ('s, 'a) call = "'s \<Rightarrow> 'a outcome \<times> 's"

definition call_return :: "'a \<Rightarrow> ('s, 'a) call" where
  "call_return x s = (Return x, s)"

definition call_bind :: "('s, 'a) call \<Rightarrow> ('a \<Rightarrow> ('s, 'b) call) \<Rightarrow> ('s, 'b) call" where
  "call_bind c f s =
     (case c s of
        (Return x, s') \<Rightarrow> f x s'
      | (Fail e, s') \<Rightarrow> (Fail e, s')
      | (Panic m, s') \<Rightarrow> (Panic m, s'))"

definition call_lift :: "'a outcome \<Rightarrow> ('s, 'a) call" where
  "call_lift r s = (r, s)"

lemma call_simps [simp, outcome_simps]:
  "call_return x s = (Return x, s)"
  "call_lift r s = (r, s)"
  by (simp_all add: call_return_def call_lift_def)

lemma call_bind_eq_Return [outcome_simps]:
  "call_bind c f s = (Return y, t) \<longleftrightarrow> (\<exists>x s'. c s = (Return x, s') \<and> f x s' = (Return y, t))"
  by (auto simp: call_bind_def split: prod.splits outcome.splits)

text \<open>Go's remainder takes the sign of the dividend.\<close>

definition go_rem :: "int \<Rightarrow> int \<Rightarrow> int" where
  "go_rem a b = (if a < 0 then - ((- a) mod b) else a mod b)"

end
