(* ===== verification/Bolt_Store.thy ===== *)
theory Bolt_Store
  imports Go_Prelude
begin

text \<open>
  The interface of the embedded database (\<^verbatim>\<open>go.etcd.io/bbolt\<close>) that the persistor uses.
  The database is not part of the repository: its operations are the record \<open>bolt\<close> of
  functions over an unspecified store type, an argument of every persistor operation.
  The locale \<open>bolt_store\<close> states what the bbolt documentation promises of them, in terms
  of the content \<open>view\<close> of a store: a partial map from bucket names to partial maps from
  keys to values. A call may always fail; only the effect of a call that succeeds is
  described.

  The reference store at the end (buckets as association lists) satisfies the contract
  and is the instance on which concrete runs are evaluated.
\<close>

section \<open>Operations\<close>

record 'tx bolt =
  b_update :: "('tx \<Rightarrow> 'tx outcome) \<Rightarrow> 'tx \<Rightarrow> 'tx outcome"
  b_view :: "'tx \<Rightarrow> go_error + 'tx"
  b_bucket :: "'tx \<Rightarrow> bytes \<Rightarrow> bool"
  b_create_bucket :: "bytes \<Rightarrow> 'tx \<Rightarrow> go_error + 'tx"
  b_delete_bucket :: "bytes \<Rightarrow> 'tx \<Rightarrow> go_error + 'tx"
  b_get :: "'tx \<Rightarrow> bytes \<Rightarrow> bytes \<Rightarrow> bytes option"
  b_put :: "bytes \<Rightarrow> bytes \<Rightarrow> bytes \<Rightarrow> 'tx \<Rightarrow> go_error + 'tx"
  b_seek :: "'tx \<Rightarrow> bytes \<Rightarrow> bytes \<Rightarrow> (bytes \<times> bytes) option"
  b_next :: "'tx \<Rightarrow> bytes \<Rightarrow> bytes \<Rightarrow> (bytes \<times> bytes) option"

text \<open>
  \<open>b_update\<close> runs a closure in a read-write transaction and commits what it returns;
  \<open>b_view\<close> is the snapshot a read-only transaction sees. \<open>b_bucket\<close> tells whether
  \<^verbatim>\<open>tx.Bucket(name)\<close> is not nil, \<open>b_create_bucket\<close> is \<^verbatim>\<open>CreateBucketIfNotExists\<close>.
  \<open>b_seek\<close> and \<open>b_next\<close> are the cursor moves \<^verbatim>\<open>Seek\<close> and \<^verbatim>\<open>Next\<close> of a bucket, the
  latter from the key the cursor is at.
\<close>

type_synonym content = "bytes \<rightharpoonup> (bytes \<rightharpoonup> bytes)"

definition least_entry :: "(bytes \<rightharpoonup> bytes) \<Rightarrow> (bytes \<Rightarrow> bool) \<Rightarrow> (bytes \<times> bytes) option \<Rightarrow> bool" where
  "least_entry m P r \<longleftrightarrow>
     (case r of
        None \<Rightarrow> \<forall>k \<in> dom m. \<not> P k
      | Some (k, v) \<Rightarrow> m k = Some v \<and> P k \<and> (\<forall>k' \<in> dom m. P k' \<longrightarrow> k \<le> k'))"

lemma least_entry_unique:
  assumes "least_entry m P r" "least_entry m P r'"
  shows "r = r'"
  using assms
  by (auto simp: least_entry_def split: option.splits prod.splits)
    (metis domI option.inject order_antisym)+

section \<open>The contract\<close>

locale bolt_store =
  fixes B :: "'tx bolt"
    and view :: "'tx \<Rightarrow> content"
  assumes update_Return: "b_update B f db = Return db' \<Longrightarrow>
      \<exists>tx tx'. view tx = view db \<and> f tx = Return tx' \<and> view db' = view tx'"
    and update_Panic: "b_update B f db = Panic msg \<Longrightarrow> \<exists>tx. view tx = view db \<and> f tx = Panic msg"
    and view_ok: "b_view B db = Inr tx \<Longrightarrow> view tx = view db"
    and bucket_ok: "b_bucket B tx n \<longleftrightarrow> view tx n \<noteq> None"
    and create_ok: "b_create_bucket B n tx = Inr tx' \<Longrightarrow>
      view tx' = (view tx)(n \<mapsto> (case view tx n of None \<Rightarrow> Map.empty | Some m \<Rightarrow> m))"
    and delete_ok: "b_delete_bucket B n tx = Inr tx' \<Longrightarrow> view tx' = (view tx)(n := None)"
    and get_ok: "view tx n = Some m \<Longrightarrow> b_get B tx n k = m k"
    and put_ok: "view tx n = Some m \<Longrightarrow> b_put B n k v tx = Inr tx' \<Longrightarrow>
      view tx' = (view tx)(n \<mapsto> m(k \<mapsto> v))"
    and seek_ok: "view tx n = Some m \<Longrightarrow> least_entry m (\<lambda>k'. k \<le> k') (b_seek B tx n k)"
    and next_ok: "view tx n = Some m \<Longrightarrow> least_entry m (\<lambda>k'. k < k') (b_next B tx n k)"
begin

lemma seek_eqI:
  "view tx n = Some m \<Longrightarrow> least_entry m (\<lambda>k'. k \<le> k') r \<Longrightarrow> b_seek B tx n k = r"
  using seek_ok least_entry_unique by blast

lemma next_eqI:
  "view tx n = Some m \<Longrightarrow> least_entry m (\<lambda>k'. k < k') r \<Longrightarrow> b_next B tx n k = r"
  using next_ok least_entry_unique by blast

lemma update_invariant:
  assumes "b_update B f db = Return db'"
    and "\<And>tx tx'. view tx = view db \<Longrightarrow> f tx = Return tx' \<Longrightarrow> P (view tx')"
  shows "P (view db')"
  using update_Return [OF assms(1)] assms(2) by metis

lemma update_no_Panic:
  assumes "\<And>tx. view tx = view db \<Longrightarrow> f tx \<noteq> Panic msg"
  shows "b_update B f db \<noteq> Panic msg"
  using assms update_Panic by metis

end

section \<open>A reference store\<close>

type_synonym ref_db = "(bytes \<times> (bytes \<times> bytes) list) list"

definition ref_view :: "ref_db \<Rightarrow> content" where
  "ref_view db n = map_option map_of (map_of db n)"

definition ref_least :: "ref_db \<Rightarrow> bytes \<Rightarrow> (bytes \<Rightarrow> bool) \<Rightarrow> (bytes \<times> bytes) option" where
  "ref_least db n P =
     (case map_of db n of
        None \<Rightarrow> None
      | Some l \<Rightarrow>
          (case sort (filter P (map fst l)) of
             [] \<Rightarrow> None
           | k # _ \<Rightarrow> map_option (\<lambda>v. (k, v)) (map_of l k)))"

definition ref_bolt :: "ref_db bolt" where
  "ref_bolt =
     \<lparr>b_update = (\<lambda>f db. f db),
      b_view = Inr,
      b_bucket = (\<lambda>db n. map_of db n \<noteq> None),
      b_create_bucket = (\<lambda>n db. Inr (case map_of db n of None \<Rightarrow> (n, []) # db | Some _ \<Rightarrow> db)),
      b_delete_bucket = (\<lambda>n db. Inr (filter (\<lambda>(n', _). n' \<noteq> n) db)),
      b_get = (\<lambda>db n k. case map_of db n of None \<Rightarrow> None | Some l \<Rightarrow> map_of l k),
      b_put = (\<lambda>n k v db. case map_of db n of
                 None \<Rightarrow> Inl (Foreign ''bucket not found'' None)
               | Some l \<Rightarrow> Inr ((n, (k, v) # l) # db)),
      b_seek = (\<lambda>db n k. ref_least db n (\<lambda>k'. k \<le> k')),
      b_next = (\<lambda>db n k. ref_least db n (\<lambda>k'. k < k'))\<rparr>"

lemma ref_least_ok:
  assumes "ref_view db n = Some m"
  shows "least_entry m P (ref_least db n P)"
proof -
  from assms obtain l where l: "map_of db n = Some l" "m = map_of l"
    by (auto simp: ref_view_def)
  show ?thesis
  proof (cases "sort (filter P (map fst l))")
    case Nil
    then have "filter P (map fst l) = []" by (metis length_0_conv length_sort)
    then have "\<forall>k \<in> fst ` set l. \<not> P k" by (auto simp: filter_empty_conv)
    with l Nil show ?thesis by (simp add: ref_least_def least_entry_def dom_map_of_conv_image_fst)
  next
    case (Cons k ks)
    then have "set (filter P (map fst l)) = insert k (set ks)" "sorted (k # ks)"
      by (metis set_sort list.simps(15)) (metis Cons sorted_sort)
    then have k: "k \<in> fst ` set l" "P k" and min: "\<forall>k' \<in> fst ` set l. P k' \<longrightarrow> k \<le> k'"
      by auto
    from k(1) obtain v where "map_of l k = Some v"
      by (metis domD dom_map_of_conv_image_fst)
    with l k min Cons show ?thesis
      by (simp add: ref_least_def least_entry_def dom_map_of_conv_image_fst)
  qed
qed

lemma map_of_filter_neq:
  "map_of (filter (\<lambda>(n', _). n' \<noteq> n) db) = (map_of db)(n := None)"
  by (induction db) (auto simp: fun_eq_iff)

interpretation ref: bolt_store ref_bolt ref_view
proof
  fix tx tx' :: ref_db and n
  show "b_delete_bucket ref_bolt n tx = Inr tx' \<Longrightarrow> ref_view tx' = (ref_view tx)(n := None)"
    by (auto simp: ref_bolt_def ref_view_def fun_eq_iff map_of_filter_neq)
qed (auto simp: ref_bolt_def ref_view_def fun_eq_iff split: option.splits intro: ref_least_ok)

end
