(* ===== verification/Chain_Types.thy ===== *)
theory Chain_Types
  imports Go_Prelude
begin

text \<open>
  The shared data of the indexer (\<^verbatim>\<open>types/types.go\<close>): the event record in its stored
  form, the register handed to the persistor, the item handed to the synchronizer, the
  run mode, and the big-endian integer keys of the database. The lemmas show that the
  8-byte keys decode to the integer they encode and that their byte order is the order
  of the non-negative integers, which is what the database cursor relies on.
\<close>

section \<open>Records\<close>

record indexed_data =
  l1_info_root :: bytes
  block_time :: uint64
  block_parent_hash :: bytes

record indexed_data_json =
  json_index :: int
  json_l1_info_root :: string
  json_block_time :: int
  json_block_parent_hash :: string

record response =
  resp_data :: "indexed_data_json list"
  resp_next_page :: string

record register =
  reg_key :: int
  reg_data :: indexed_data

record sync_struct =
  item_start :: int
  item_end :: int
  item_data :: "int \<rightharpoonup> indexed_data list"

type_synonym mode = string

definition mode_range :: mode where "mode_range = ''range''"

definition mode_full :: mode where "mode_full = ''full''"

text \<open>The two hashes of a record are \<^verbatim>\<open>[32]byte\<close> arrays.\<close>

definition indexed_data_wf :: "indexed_data \<Rightarrow> bool" where
  "indexed_data_wf d \<longleftrightarrow> length (l1_info_root d) = 32 \<and> length (block_parent_hash d) = 32"

section \<open>Big-endian integers\<close>

fun be_bytes :: "nat \<Rightarrow> nat \<Rightarrow> bytes" where
  "be_bytes 0 n = []"
| "be_bytes (Suc k) n = be_bytes k (n div 256) @ [char_of n]"

definition be_value :: "bytes \<Rightarrow> nat" where
  "be_value bs = foldl (\<lambda>a c. 256 * a + of_char c) 0 bs"

definition IntToBytes :: "int \<Rightarrow> bytes" where
  "IntToBytes n = be_bytes 8 (unat (uint64_of_int n))"

text \<open>\<^verbatim>\<open>binary.BigEndian.Uint64\<close> reads the first eight bytes and panics on a shorter slice.\<close>

definition BytesToInt :: "bytes \<Rightarrow> int outcome" where
  "BytesToInt b =
     (if length b < 8 then Panic ''index out of range''
      else Return (int_of_uint64 (word_of_nat (be_value (take 8 b)))))"

text \<open>\<open>hex\<close> stands for \<^verbatim>\<open>hexutil.Encode\<close> of go-ethereum.\<close>

definition ToJSON :: "(bytes \<Rightarrow> string) \<Rightarrow> indexed_data \<Rightarrow> bytes \<Rightarrow> indexed_data_json outcome" where
  "ToJSON hex d key =
     obind (BytesToInt key) (\<lambda>index.
       Return \<lparr>json_index = index,
               json_l1_info_root = hex (l1_info_root d),
               json_block_time = int_of_uint64 (block_time d),
               json_block_parent_hash = hex (block_parent_hash d)\<rparr>)"

section \<open>Facts about the keys\<close>

lemma length_be_bytes [simp]: "length (be_bytes k n) = k"
  by (induction k arbitrary: n) simp_all

lemma be_value_Nil [simp]: "be_value [] = 0"
  by (simp add: be_value_def)

lemma be_value_snoc [simp]: "be_value (bs @ [c]) = 256 * be_value bs + of_char c"
  by (simp add: be_value_def)

lemma of_char_less_256 [simp]: "(of_char c :: nat) < 256"
proof -
  have "(of_char c :: nat) = of_char c mod 256" by simp
  also have "\<dots> < 256" by simp
  finally show ?thesis .
qed

lemma of_char_le_255 [simp]: "\<not> 255 < (of_char c :: nat)"
  using of_char_less_256 [of c] by linarith

lemma be_value_be_bytes: "be_value (be_bytes k n) = n mod 256 ^ k"
proof (induction k arbitrary: n)
  case 0
  then show ?case by simp
next
  case (Suc k)
  have "n mod 256 ^ Suc k = 256 * (n div 256 mod 256 ^ k) + n mod 256"
    by (simp add: mod_mult2_eq)
  with Suc show ?case by simp
qed

lemma be_value_Cons: "be_value (c # bs) = of_char c * 256 ^ length bs + be_value bs"
  by (induction bs rule: rev_induct) (simp_all add: be_value_def flip: append_Cons)

lemma be_value_less: "be_value bs < 256 ^ length bs"
proof (induction bs rule: rev_induct)
  case (snoc c bs)
  have c: "(of_char c :: nat) < 256" by simp
  define p where "p = (256 :: nat) ^ length bs"
  from snoc have "be_value bs < p" by (simp add: p_def)
  with c have "256 * be_value bs + of_char c < 256 * p" by linarith
  then show ?case by (simp add: p_def)
qed simp

lemma be_value_less_iff:
  "length xs = length ys \<Longrightarrow> xs < ys \<longleftrightarrow> be_value xs < be_value ys"
proof (induction xs ys rule: list_induct2)
  case (Cons x xs y ys)
  have bx: "be_value xs < 256 ^ length ys" and bdy: "be_value ys < 256 ^ length ys"
    using be_value_less [of xs] be_value_less [of ys] Cons.hyps by simp_all
  have step: "(u :: nat) * 256 ^ n + p < v * 256 ^ n + q" if "u < v" "p < 256 ^ n" for u v n p q
  proof -
    from that have "u * 256 ^ n + p < Suc u * 256 ^ n" by simp
    also have "\<dots> \<le> v * 256 ^ n" using \<open>u < v\<close> by (intro mult_le_mono1) simp
    finally show ?thesis by simp
  qed
  consider "x < y" | "x = y" | "y < x" by (rule linorder_cases)
  then show ?case
  proof cases
    case 1
    then show ?thesis
      using step [of "of_char x" "of_char y" "be_value xs" "length ys" "be_value ys"] bx Cons.hyps
      by (simp add: be_value_Cons less_char_def)
  next
    case 2
    then show ?thesis using Cons by (simp add: be_value_Cons)
  next
    case 3
    then show ?thesis
      using step [of "of_char y" "of_char x" "be_value ys" "length ys" "be_value xs"] bdy Cons.hyps
      by (auto simp add: be_value_Cons less_char_def)
  qed
qed simp

lemma length_IntToBytes [simp]: "length (IntToBytes n) = 8"
  by (simp add: IntToBytes_def)

lemma be_value_IntToBytes: "be_value (IntToBytes n) = unat (uint64_of_int n)"
  using unsigned_less [of "uint64_of_int n", where 'a = nat]
  by (simp add: IntToBytes_def be_value_be_bytes)

lemma BytesToInt_IntToBytes_go_int: "BytesToInt (IntToBytes n) = Return (go_int n)"
  by (simp add: BytesToInt_def be_value_IntToBytes go_arith)

lemma unat_uint64_of_nonneg:
  "0 \<le> n \<Longrightarrow> n \<le> max_int \<Longrightarrow> unat (uint64_of_int n) = nat n"
  by (simp add: uint64_of_int_def max_int_def unat_eq_nat_uint uint_word_of_int_eq take_bit_int_eq_self)

lemma IntToBytes_less_iff:
  assumes "0 \<le> n" "n \<le> max_int" "0 \<le> k" "k \<le> max_int"
  shows "IntToBytes n < IntToBytes k \<longleftrightarrow> n < k"
  using assms
  by (auto simp: be_value_less_iff be_value_IntToBytes unat_uint64_of_nonneg)

lemma IntToBytes_le_iff:
  assumes "0 \<le> n" "n \<le> max_int" "0 \<le> k" "k \<le> max_int"
  shows "IntToBytes n \<le> IntToBytes k \<longleftrightarrow> n \<le> k"
  using IntToBytes_less_iff [OF assms(3,4) assms(1,2)] by (simp add: not_less [symmetric])

lemma IntToBytes_inj:
  assumes "0 \<le> n" "n \<le> max_int" "0 \<le> k" "k \<le> max_int" "IntToBytes n = IntToBytes k"
  shows "n = k"
  using assms IntToBytes_less_iff [of n k] IntToBytes_less_iff [of k n] by simp

end
