(* ===== verification/Gob_Codec.thy ===== *)
theory Gob_Codec
  imports Chain_Types
begin

text \<open>
  \<^verbatim>\<open>Serialize\<close> and \<^verbatim>\<open>Deserialize\<close> of \<^verbatim>\<open>types/types.go\<close>: one gob stream per stored
  record, written by a fresh encoder and read by a fresh decoder of Go's
  \<^verbatim>\<open>encoding/gob\<close>. The wire format is written out as that package documents it: unsigned
  integers of minimal length, signed integers folded into unsigned ones, arrays as a
  count and their elements, structs as field deltas with zero-valued scalar fields left
  out, and length-prefixed messages. A stream opens with the descriptors of the types it
  uses; their bodies and the type ids that gob hands out at run time are fixed for a
  process and appear as the table \<open>gob_types\<close>. The main lemma: a serialized record
  deserializes to itself.
\<close>

section \<open>Unsigned and signed integers\<close>

fun min_bytes :: "nat \<Rightarrow> bytes" where
  "min_bytes n = (if n = 0 then [] else min_bytes (n div 256) @ [char_of n])"

declare min_bytes.simps [simp del]

definition gob_uint :: "nat \<Rightarrow> bytes" where
  "gob_uint n =
     (if n < 128 then [char_of n]
      else char_of (256 - length (min_bytes n)) # min_bytes n)"

definition gob_read_uint :: "bytes \<Rightarrow> (nat \<times> bytes) option" where
  "gob_read_uint bs =
     (case bs of
        [] \<Rightarrow> None
      | c # rest \<Rightarrow>
          (let b = (of_char c :: nat); n = 256 - b in
           if b < 128 then Some (b, rest)
           else if 8 < n \<or> length rest < n then None
           else Some (be_value (take n rest), drop n rest)))"

definition gob_int :: "int \<Rightarrow> bytes" where
  "gob_int i = gob_uint (nat (if i < 0 then 2 * (- i - 1) + 1 else 2 * i))"

definition gob_read_int :: "bytes \<Rightarrow> (int \<times> bytes) option" where
  "gob_read_int bs =
     map_option (\<lambda>(u, rest). (if odd u then - int (u div 2) - 1 else int (u div 2), rest))
       (gob_read_uint bs)"

lemma min_bytes_0 [simp]: "min_bytes 0 = []"
  by (simp add: min_bytes.simps)

lemma min_bytes_pos: "0 < n \<Longrightarrow> min_bytes n = min_bytes (n div 256) @ [char_of n]"
  by (subst min_bytes.simps) simp

lemma be_value_min_bytes [simp]: "be_value (min_bytes n) = n"
proof (induction n rule: min_bytes.induct)
  case (1 n)
  show ?case
  proof (cases "n = 0")
    case False
    with 1 have "be_value (min_bytes n) = 256 * (n div 256) + n mod 256"
      by (simp add: min_bytes_pos)
    then show ?thesis by simp
  qed simp
qed

lemma length_min_bytes: "n < 256 ^ k \<Longrightarrow> length (min_bytes n) \<le> k"
proof (induction k arbitrary: n)
  case (Suc k)
  show ?case
  proof (cases "n = 0")
    case False
    from Suc.prems have "n div 256 < 256 ^ k"
      by (simp add: div_less_iff_less_mult mult.commute)
    with Suc.IH False show ?thesis by (simp add: min_bytes_pos)
  qed simp
qed simp

lemma length_min_bytes_pos: "0 < n \<Longrightarrow> 0 < length (min_bytes n)"
  by (simp add: min_bytes_pos)

lemma gob_read_uint_gob_uint:
  assumes "n < 2 ^ 64"
  shows "gob_read_uint (gob_uint n @ rest) = Some (n, rest)"
proof (cases "n < 128")
  case True
  then show ?thesis by (simp add: gob_uint_def gob_read_uint_def)
next
  case False
  define l where "l = length (min_bytes n)"
  have "n < 256 ^ 8" using assms by simp
  then have l: "l \<le> 8" "0 < l"
    using length_min_bytes [of n 8] length_min_bytes_pos [of n] False by (simp_all add: l_def)
  then have "(of_char (char_of (256 - l)) :: nat) = 256 - l" by simp
  with False l show ?thesis
    by (simp add: gob_uint_def gob_read_uint_def Let_def flip: l_def)
qed

lemma gob_read_int_gob_int:
  assumes "- (2 ^ 63) \<le> i" "i < 2 ^ 63"
  shows "gob_read_int (gob_int i @ rest) = Some (i, rest)"
proof -
  define u where "u = nat (if i < 0 then 2 * (- i - 1) + 1 else 2 * i)"
  have "u < 2 ^ 64" using assms by (auto simp: u_def nat_less_iff)
  then have "gob_read_int (gob_int i @ rest) = Some (if odd u then - int (u div 2) - 1 else int (u div 2), rest)"
    by (simp add: gob_read_int_def gob_int_def gob_read_uint_gob_uint flip: u_def)
  moreover have "(if odd u then - int (u div 2) - 1 else int (u div 2)) = i"
  proof (cases "i < 0")
    case True
    then have "u = 2 * nat (- i - 1) + 1" by (simp add: u_def nat_add_distrib nat_mult_distrib)
    with True show ?thesis by simp
  next
    case False
    then have "u = 2 * nat i" by (simp add: u_def nat_mult_distrib)
    with False show ?thesis by simp
  qed
  ultimately show ?thesis by simp
qed

lemma gob_uint_nonempty: "0 < length (gob_uint n)"
  by (simp add: gob_uint_def)

lemma gob_read_uint_shorter: "gob_read_uint bs = Some (n, rest) \<Longrightarrow> length rest < length bs"
  by (auto simp: gob_read_uint_def Let_def split: list.splits if_splits)


section \<open>Arrays and the record\<close>

definition gob_array :: "bytes \<Rightarrow> bytes" where
  "gob_array bs = gob_uint (length bs) @ concat (map (\<lambda>c. gob_uint (of_char c)) bs)"

fun gob_read_elems :: "nat \<Rightarrow> bytes \<Rightarrow> (bytes \<times> bytes) option" where
  "gob_read_elems 0 bs = Some ([], bs)"
| "gob_read_elems (Suc k) bs =
     (case gob_read_uint bs of
        None \<Rightarrow> None
      | Some (v, rest) \<Rightarrow>
          if 255 < v then None
          else map_option (\<lambda>(cs, rest'). (char_of v # cs, rest')) (gob_read_elems k rest))"

definition gob_read_array :: "nat \<Rightarrow> bytes \<Rightarrow> (bytes \<times> bytes) option" where
  "gob_read_array k bs =
     (case gob_read_uint bs of
        None \<Rightarrow> None
      | Some (n, rest) \<Rightarrow> if n \<noteq> k then None else gob_read_elems k rest)"

definition gob_struct :: "indexed_data \<Rightarrow> bytes" where
  "gob_struct d =
     gob_uint 1 @ gob_array (l1_info_root d) @
     (if block_time d = 0 then gob_uint 2
      else gob_uint 1 @ gob_uint (unat (block_time d)) @ gob_uint 1) @
     gob_array (block_parent_hash d) @
     gob_uint 0"

definition zero_data :: indexed_data where
  "zero_data = \<lparr>l1_info_root = replicate 32 (CHR 0x00), block_time = 0,
                block_parent_hash = replicate 32 (CHR 0x00)\<rparr>"

text \<open>One field of the record, by its position in the struct.\<close>

fun gob_read_field :: "nat \<Rightarrow> bytes \<Rightarrow> indexed_data \<Rightarrow> (indexed_data \<times> bytes) option" where
  "gob_read_field f bs d =
     (if f = 0 then map_option (\<lambda>(h, rest). (d\<lparr>l1_info_root := h\<rparr>, rest)) (gob_read_array 32 bs)
      else if f = 1 then map_option (\<lambda>(t, rest). (d\<lparr>block_time := word_of_nat t\<rparr>, rest)) (gob_read_uint bs)
      else if f = 2 then map_option (\<lambda>(h, rest). (d\<lparr>block_parent_hash := h\<rparr>, rest)) (gob_read_array 32 bs)
      else None)"

text \<open>\<open>next\<close> is the position after the last field read; a zero delta ends the struct.\<close>

function gob_read_fields :: "nat \<Rightarrow> bytes \<Rightarrow> indexed_data \<Rightarrow> (indexed_data \<times> bytes) option" where
  "gob_read_fields next bs d =
     (case gob_read_uint bs of
        None \<Rightarrow> None
      | Some (delta, rest) \<Rightarrow>
          if delta = 0 then Some (d, rest)
          else if 3 < next + delta then None
          else (case gob_read_field (next + delta - 1) rest d of
                  None \<Rightarrow> None
                | Some (d', rest') \<Rightarrow> gob_read_fields (next + delta) rest' d'))"
  by pat_completeness auto
termination
  by (relation "measure (\<lambda>(next, _, _). 4 - next)") auto

declare gob_read_fields.simps [simp del]

lemma gob_read_elems_concat:
  "gob_read_elems (length bs) (concat (map (\<lambda>c. gob_uint (of_char c)) bs) @ rest) = Some (bs, rest)"
proof (induction bs)
  case (Cons c bs)
  have c: "(of_char c :: nat) < 256" by simp
  then have "(of_char c :: nat) < 2 ^ 64" by (rule order.strict_trans) simp
  then have "gob_read_uint (gob_uint (of_char c) @ more) = Some (of_char c, more)" for more
    by (rule gob_read_uint_gob_uint)
  with Cons c show ?case by simp
qed simp

lemma gob_read_array_gob_array:
  assumes "length bs = 32"
  shows "gob_read_array 32 (gob_array bs @ rest) = Some (bs, rest)"
  using gob_read_elems_concat [of bs rest] assms
  by (simp add: gob_read_array_def gob_array_def gob_read_uint_gob_uint)

lemma gob_read_fields_gob_struct:
  assumes "indexed_data_wf d"
  shows "gob_read_fields 0 (gob_struct d @ rest) zero_data = Some (d, rest)"
proof -
  have "unat (block_time d) < 2 ^ 64"
    using unsigned_less [of "block_time d", where 'a = nat] by simp
  with assms show ?thesis
    by (simp add: gob_read_fields.simps gob_struct_def gob_read_uint_gob_uint
        gob_read_array_gob_array indexed_data_wf_def zero_data_def)
qed

section \<open>Messages and the stream\<close>

record gob_types =
  gob_value_id :: nat
  gob_descriptors :: "(nat \<times> bytes) list"

definition gob_types_wf :: "gob_types \<Rightarrow> bool" where
  "gob_types_wf G \<longleftrightarrow>
     gob_value_id G \<in> fst ` set (gob_descriptors G) \<and>
     (\<forall>(i, body) \<in> set (gob_descriptors G). 0 < i \<and> i < 2 ^ 31 \<and> length body < 2 ^ 31)"

definition gob_message :: "bytes \<Rightarrow> bytes" where
  "gob_message body = gob_uint (length body) @ body"

definition Serialize :: "gob_types \<Rightarrow> indexed_data \<Rightarrow> bytes" where
  "Serialize G d =
     concat (map (\<lambda>(i, body). gob_message (gob_int (- int i) @ body)) (gob_descriptors G)) @
     gob_message (gob_int (int (gob_value_id G)) @ gob_struct d)"

definition gob_read_message :: "bytes \<Rightarrow> (int \<times> bytes \<times> bytes) option" where
  "gob_read_message bs =
     (case gob_read_uint bs of
        None \<Rightarrow> None
      | Some (n, rest) \<Rightarrow>
          if length rest < n then None
          else map_option (\<lambda>(i, body). (i, body, drop n rest)) (gob_read_int (take n rest)))"

lemma gob_read_message_shorter:
  "gob_read_message bs = Some (i, body, rest) \<Longrightarrow> length rest < length bs"
  by (auto simp: gob_read_message_def dest!: gob_read_uint_shorter split: option.splits if_splits)

text \<open>Descriptors (negative ids) are read and remembered until the value arrives.\<close>

function gob_decode :: "gob_types \<Rightarrow> nat set \<Rightarrow> bytes \<Rightarrow> indexed_data option" where
  "gob_decode G known bs =
     (case gob_read_message bs of
        None \<Rightarrow> None
      | Some (i, body, rest) \<Rightarrow>
          if i < 0 then gob_decode G (insert (nat (- i)) known) rest
          else if nat i \<in> known \<and> nat i = gob_value_id G
               then map_option fst (gob_read_fields 0 body zero_data)
               else None)"
  by pat_completeness auto
termination
  by (relation "measure (\<lambda>(_, _, bs). length bs)") (auto dest: gob_read_message_shorter)

declare gob_decode.simps [simp del]

definition Deserialize :: "gob_types \<Rightarrow> bytes \<Rightarrow> go_error + indexed_data" where
  "Deserialize G bs =
     (case gob_decode G {} bs of
        None \<Rightarrow> Inl (Foreign ''gob: bad data'' None)
      | Some d \<Rightarrow> Inr d)"


section \<open>The round trip\<close>

lemma length_gob_uint: "n < 2 ^ 64 \<Longrightarrow> length (gob_uint n) \<le> 9"
  using length_min_bytes [of n 8] by (simp add: gob_uint_def)

lemma length_gob_array:
  assumes "length bs = 32"
  shows "length (gob_array bs) \<le> 300"
proof -
  have "length (concat (map (\<lambda>c. gob_uint (of_char c)) cs)) \<le> 9 * length cs" for cs
  proof (induction cs)
    case (Cons c cs)
    have "(of_char c :: nat) < 256" by simp
    then have "(of_char c :: nat) < 2 ^ 64" by (rule order.strict_trans) simp
    from length_gob_uint [OF this] Cons show ?case by simp
  qed simp
  from this [of bs] length_gob_uint [of 32] assms show ?thesis
    by (simp add: gob_array_def)
qed

lemma length_gob_struct:
  assumes "indexed_data_wf d"
  shows "length (gob_struct d) \<le> 700"
proof -
  have "unat (block_time d) < 2 ^ 64"
    using unsigned_less [of "block_time d", where 'a = nat] by simp
  with assms length_gob_uint [of "unat (block_time d)"] length_gob_uint [of 0]
    length_gob_uint [of 1] length_gob_uint [of 2]
    length_gob_array [of "l1_info_root d"] length_gob_array [of "block_parent_hash d"]
  show ?thesis by (simp add: gob_struct_def indexed_data_wf_def)
qed

lemma gob_read_message_gob_message:
  assumes "\<bar>i\<bar> < 2 ^ 31" "length body < 2 ^ 31"
  shows "gob_read_message (gob_message (gob_int i @ body) @ rest) = Some (i, body, rest)"
proof -
  have "nat (if i < 0 then 2 * (- i - 1) + 1 else 2 * i) < 2 ^ 64"
    using assms(1) by (auto simp: nat_less_iff)
  then have "length (gob_int i) \<le> 9"
    by (simp add: gob_int_def length_gob_uint)
  with assms have "length (gob_int i @ body) < 2 ^ 64" by simp
  moreover have "gob_read_int (gob_int i @ body) = Some (i, body)"
    using assms by (intro gob_read_int_gob_int) auto
  ultimately show ?thesis
    by (simp add: gob_read_message_def gob_message_def gob_read_uint_gob_uint)
qed

lemma gob_decode_descriptors:
  assumes "\<forall>(i, body) \<in> set ds. 0 < i \<and> i < 2 ^ 31 \<and> length body < (2 ^ 31 :: nat)"
  shows "gob_decode G known
           (concat (map (\<lambda>(i, body). gob_message (gob_int (- int i) @ body)) ds) @ rest) =
         gob_decode G (fst ` set ds \<union> known) rest"
  using assms
proof (induction ds arbitrary: known)
  case (Cons a ds)
  obtain i body where a: "a = (i, body)" by (cases a)
  with Cons.prems have i: "0 < i" "\<bar>- int i\<bar> < 2 ^ 31" "length body < 2 ^ 31" by auto
  have "gob_decode G known
      (gob_message (gob_int (- int i) @ body) @ more) = gob_decode G (insert i known) more" for more
    using i by (subst gob_decode.simps) (simp add: gob_read_message_gob_message)
  with Cons a show ?case by simp
qed simp

lemma gob_decode_Serialize:
  assumes "gob_types_wf G" and "indexed_data_wf d"
  shows "Deserialize G (Serialize G d) = Inr d"
proof -
  let ?v = "gob_message (gob_int (int (gob_value_id G)) @ gob_struct d)"
  have known: "gob_value_id G \<in> fst ` set (gob_descriptors G)"
    and ds: "\<forall>(i, body) \<in> set (gob_descriptors G). 0 < i \<and> i < 2 ^ 31 \<and> length body < 2 ^ 31"
    using assms(1) by (simp_all add: gob_types_wf_def)
  then have "\<bar>int (gob_value_id G)\<bar> < 2 ^ 31" by auto
  moreover have "length (gob_struct d) < 2 ^ 31"
    using length_gob_struct [OF assms(2)] by simp
  ultimately have "gob_read_message (?v @ []) = Some (int (gob_value_id G), gob_struct d, [])"
    by (rule gob_read_message_gob_message)
  then have "gob_decode G (fst ` set (gob_descriptors G)) ?v = Some d"
    using known gob_read_fields_gob_struct [OF assms(2), of "[]"]
    by (subst gob_decode.simps) simp
  then show ?thesis
    using gob_decode_descriptors [OF ds, of G "{}" ?v]
    by (simp add: Deserialize_def Serialize_def)
qed

text \<open>C21: decoding the stored bytes of a record gives the record back, whatever type ids
  and descriptors the encoder uses.\<close>

theorem Deserialize_Serialize:
  assumes "gob_types_wf G" and "indexed_data_wf d"
  shows "Deserialize G (Serialize G d) = Inr d"
  by (rule gob_decode_Serialize [OF assms])

theorem Deserialize_Serialize_witness:
  "Deserialize \<lparr>gob_value_id = 65, gob_descriptors = [(65, ''struct''), (66, ''array'')]\<rparr>
     (Serialize \<lparr>gob_value_id = 65, gob_descriptors = [(65, ''struct''), (66, ''array'')]\<rparr>
        (zero_data\<lparr>block_time := 1700000000\<rparr>)) = Inr (zero_data\<lparr>block_time := 1700000000\<rparr>)"
  by (rule Deserialize_Serialize)
    (simp_all add: gob_types_wf_def indexed_data_wf_def zero_data_def)

end
