(* ===== verification/Persistor.thy ===== *)
theory Persistor
  imports Bolt_Store Gob_Codec
begin

text \<open>
  The persistor (\<^verbatim>\<open>persistor/persistor.go\<close>): two buckets of the embedded database, the
  numbered records in one, the last saved block and the run mode in the other. The
  operations take the database operations \<open>B\<close> of \<open>Bolt_Store\<close>, the gob type table
  \<open>G\<close> and the store; an operation that returns an error leaves the store the caller has
  unchanged, since the transaction is rolled back.

  The lemmas describe every successful operation by the content of the two buckets, show
  that none panics once the buckets exist, and give the meaning of a page: the records
  from \<^verbatim>\<open>startIndex\<close> on, at most \<^verbatim>\<open>limit\<close> of them, and the index after the last.
\<close>

section \<open>Operations\<close>

definition dataBucketName :: bytes where "dataBucketName = ''l1_data''"
definition adminBucketName :: bytes where "adminBucketName = ''admin''"
definition lastBlockIndex :: bytes where "lastBlockIndex = ''last-block''"
definition modeIndex :: bytes where "modeIndex = ''mode''"

definition NewPersistor :: "(string \<Rightarrow> go_error + 'tx) \<Rightarrow> string \<Rightarrow> 'tx outcome" where
  "NewPersistor bolt_open dbPath = of_sum (bolt_open dbPath)"

definition delete_if_present :: "'tx bolt \<Rightarrow> bytes \<Rightarrow> 'tx \<Rightarrow> 'tx outcome" where
  "delete_if_present B n tx =
     (if b_bucket B tx n then of_sum (b_delete_bucket B n tx) else Return tx)"

definition reset_for_range :: "'tx bolt \<Rightarrow> 'tx \<Rightarrow> 'tx outcome" where
  "reset_for_range B tx =
     obind (delete_if_present B dataBucketName tx) (delete_if_present B adminBucketName)"

definition reset_for_full :: "'tx bolt \<Rightarrow> 'tx \<Rightarrow> 'tx outcome" where
  "reset_for_full B tx =
     (if b_bucket B tx adminBucketName then
        (let savedMode = (case b_get B tx adminBucketName modeIndex of None \<Rightarrow> [] | Some val \<Rightarrow> val) in
         if savedMode = mode_range then
           obind (of_sum (b_delete_bucket B adminBucketName tx)) (delete_if_present B dataBucketName)
         else Return tx)
      else Return tx)"

definition StartDB :: "'tx bolt \<Rightarrow> mode \<Rightarrow> 'tx \<Rightarrow> 'tx outcome" where
  "StartDB B mode db = b_update B (\<lambda>tx.
     obind (if mode = mode_range then reset_for_range B tx else Return tx) (\<lambda>tx.
     obind (if mode = mode_full then reset_for_full B tx else Return tx) (\<lambda>tx.
     obind (of_sum (b_create_bucket B dataBucketName tx)) (\<lambda>tx.
     obind (of_sum (b_create_bucket B adminBucketName tx)) (\<lambda>tx.
     of_sum (b_put B adminBucketName modeIndex mode tx)))))) db"

definition GetLastBlockIndex :: "'tx bolt \<Rightarrow> 'tx \<Rightarrow> int outcome" where
  "GetLastBlockIndex B db =
     obind (of_sum (b_view B db)) (\<lambda>tx.
       if \<not> b_bucket B tx adminBucketName then Panic ''nil pointer dereference''
       else
         (let val = (case b_get B tx adminBucketName lastBlockIndex of None \<Rightarrow> [] | Some val \<Rightarrow> val) in
          if length val = 0 then Return (- 1) else BytesToInt val))"

text \<open>\<^verbatim>\<open>Put\<close> on the nil bucket that \<^verbatim>\<open>tx.Bucket\<close> returns for a missing name panics.\<close>

definition put_in :: "'tx bolt \<Rightarrow> bytes \<Rightarrow> bytes \<Rightarrow> bytes \<Rightarrow> 'tx \<Rightarrow> 'tx outcome" where
  "put_in B n k v tx =
     (if b_bucket B tx n then of_sum (b_put B n k v tx) else Panic ''nil pointer dereference'')"

definition SaveData :: "'tx bolt \<Rightarrow> gob_types \<Rightarrow> register list \<Rightarrow> int \<Rightarrow> 'tx \<Rightarrow> 'tx outcome" where
  "SaveData B G registers lastBlock db = b_update B (\<lambda>tx.
     obind (fold_outcome (\<lambda>tx register.
              put_in B dataBucketName (IntToBytes (reg_key register)) (Serialize G (reg_data register)) tx)
            tx registers) (\<lambda>tx.
     put_in B adminBucketName lastBlockIndex (IntToBytes lastBlock) tx)) db"

text \<open>The cursor loop: \<open>i\<close> counts the items read, \<open>cur\<close> is the entry the cursor is at.\<close>

function page_loop :: "'tx bolt \<Rightarrow> gob_types \<Rightarrow> (bytes \<Rightarrow> string) \<Rightarrow> 'tx \<Rightarrow> int \<Rightarrow> int \<Rightarrow>
    (bytes \<times> bytes) option \<Rightarrow> indexed_data_json list \<Rightarrow> int \<Rightarrow>
    (indexed_data_json list \<times> int) outcome" where
  "page_loop B G hex tx limit i cur results nextIndex =
     (case cur of
        None \<Rightarrow> Return (results, nextIndex)
      | Some (k, v) \<Rightarrow>
          if i < limit then
            obind (of_sum (Deserialize G v)) (\<lambda>event.
            obind (ToJSON hex event k) (\<lambda>json.
              page_loop B G hex tx limit (i + 1) (b_next B tx dataBucketName k)
                (results @ [json]) (go_int (nextIndex + 1))))
          else Return (results, nextIndex))"
  by pat_completeness auto
termination
  by (relation "measure (\<lambda>(_, _, _, _, limit, i, _). nat (limit - i))") auto

declare page_loop.simps [simp del]

definition GetPaginated :: "'tx bolt \<Rightarrow> gob_types \<Rightarrow> (bytes \<Rightarrow> string) \<Rightarrow> int \<Rightarrow> int \<Rightarrow> 'tx \<Rightarrow>
    (indexed_data_json list \<times> int) outcome" where
  "GetPaginated B G hex startIndex limit db =
     obind (of_sum (b_view B db)) (\<lambda>tx.
       if \<not> b_bucket B tx dataBucketName then Panic ''nil pointer dereference''
       else page_loop B G hex tx limit 0 (b_seek B tx dataBucketName (IntToBytes startIndex)) [] startIndex)"

section \<open>The content of the data bucket\<close>

text \<open>Consecutive registers, as the synchronizer numbers them.\<close>

fun number_from :: "int \<Rightarrow> indexed_data list \<Rightarrow> register list" where
  "number_from k [] = []"
| "number_from k (d # ds) = \<lparr>reg_key = k, reg_data = d\<rparr> # number_from (k + 1) ds"

definition put_registers :: "gob_types \<Rightarrow> register list \<Rightarrow> (bytes \<rightharpoonup> bytes) \<Rightarrow> (bytes \<rightharpoonup> bytes)" where
  "put_registers G rs m =
     fold (\<lambda>r m. m(IntToBytes (reg_key r) \<mapsto> Serialize G (reg_data r))) rs m"

text \<open>The bucket that holds exactly the records \<open>es\<close>, numbered from 0.\<close>

definition stored :: "gob_types \<Rightarrow> indexed_data list \<Rightarrow> (bytes \<rightharpoonup> bytes)" where
  "stored G es = put_registers G (number_from 0 es) Map.empty"

definition json_of :: "(bytes \<Rightarrow> string) \<Rightarrow> int \<Rightarrow> indexed_data \<Rightarrow> indexed_data_json" where
  "json_of hex i d =
     \<lparr>json_index = i, json_l1_info_root = hex (l1_info_root d),
      json_block_time = int_of_uint64 (block_time d),
      json_block_parent_hash = hex (block_parent_hash d)\<rparr>"

text \<open>The page a client is promised: the records from \<open>start\<close> on, numbered.\<close>

definition page_of :: "(bytes \<Rightarrow> string) \<Rightarrow> indexed_data list \<Rightarrow> int \<Rightarrow> int \<Rightarrow> indexed_data_json list" where
  "page_of hex es start limit =
     map (\<lambda>i. json_of hex (int i) (es ! i)) [nat start..<min (length es) (nat start + nat limit)]"

lemma number_from_append:
  "number_from k (xs @ ys) = number_from k xs @ number_from (k + int (length xs)) ys"
  by (induction xs arbitrary: k) (simp_all add: algebra_simps)

lemma length_number_from [simp]: "length (number_from k ds) = length ds"
  by (induction ds arbitrary: k) simp_all

lemma put_registers_append:
  "put_registers G (xs @ ys) m = put_registers G ys (put_registers G xs m)"
  by (simp add: put_registers_def)

lemma stored_append:
  "stored G (es @ ds) = put_registers G (number_from (int (length es)) ds) (stored G es)"
  by (simp add: stored_def number_from_append put_registers_append)

lemma stored_snoc:
  "stored G (es @ [d]) = (stored G es)(IntToBytes (int (length es)) \<mapsto> Serialize G d)"
  by (simp add: stored_append put_registers_def)

lemma stored_Nil [simp]: "stored G [] = Map.empty"
  by (simp add: stored_def put_registers_def)

lemma stored_lookup:
  assumes "int (length es) \<le> max_int + 1" "i < length es"
  shows "stored G es (IntToBytes (int i)) = Some (Serialize G (es ! i))"
  using assms
proof (induction es rule: rev_induct)
  case (snoc d es)
  show ?case
  proof (cases "i = length es")
    case False
    with snoc.prems have "i < length es" by simp
    moreover from this snoc.prems have "IntToBytes (int i) \<noteq> IntToBytes (int (length es))"
      using IntToBytes_inj [of "int i" "int (length es)"] by auto
    ultimately show ?thesis
      using snoc by (simp add: stored_snoc nth_append)
  qed (simp add: stored_snoc)
qed simp

lemma dom_stored: "dom (stored G es) = (\<lambda>i. IntToBytes (int i)) ` {..<length es}"
proof (induction es rule: rev_induct)
  case (snoc d es)
  then show ?case unfolding stored_snoc dom_fun_upd by (simp add: lessThan_Suc)
qed simp


lemma IntToBytes_neq:
  assumes "i < length es" "k < length es" "i \<noteq> k" "int (length es) \<le> max_int + 1"
  shows "IntToBytes (int i) \<noteq> IntToBytes (int k)"
  using assms IntToBytes_inj [of "int i" "int k"] by auto

text \<open>Writing a number again replaces the record that had it.\<close>

lemma stored_update:
  assumes "int (length es) \<le> max_int + 1" "i < length es"
  shows "(stored G es)(IntToBytes (int i) \<mapsto> Serialize G d) = stored G (es[i := d])"
proof
  fix key
  show "((stored G es)(IntToBytes (int i) \<mapsto> Serialize G d)) key = stored G (es[i := d]) key"
  proof (cases "key \<in> dom (stored G es)")
    case True
    then obtain k where k: "key = IntToBytes (int k)" "k < length es" by (auto simp: dom_stored)
    with assms IntToBytes_neq [of i es k] show ?thesis
      by (cases "k = i") (simp_all add: stored_lookup)
  next
    case False
    then have "key \<notin> dom (stored G (es[i := d]))" "key \<noteq> IntToBytes (int i)"
      using assms(2) by (auto simp: dom_stored)
    with False show ?thesis by (simp add: domIff)
  qed
qed

lemma put_registers_overwrite:
  assumes "int (length xs + length es) \<le> max_int + 1"
  shows "put_registers G (number_from (int (length xs)) ds) (stored G (xs @ es)) =
         stored G (xs @ ds @ drop (length ds) es)"
  using assms
proof (induction ds arbitrary: xs es)
  case Nil
  then show ?case by (simp add: put_registers_def)
next
  case (Cons d ds)
  have "(stored G (xs @ es))(IntToBytes (int (length xs)) \<mapsto> Serialize G d) =
        stored G (xs @ d # drop 1 es)"
  proof (cases es)
    case Nil
    then show ?thesis by (simp add: stored_snoc)
  next
    case (Cons e es')
    with Cons.prems stored_update [of "xs @ es" "length xs" G d] show ?thesis by simp
  qed
  moreover have "int (length (xs @ [d]) + length (drop 1 es)) \<le> max_int + 1 \<or> es = []"
    using Cons.prems by (cases es) auto
  ultimately show ?case
    using Cons.IH [of "xs @ [d]" "drop 1 es"] stored_append [of G "xs @ [d]" ds]
    by (cases es) (auto simp: put_registers_def algebra_simps)
qed

section \<open>Starting the database\<close>

text \<open>What a run of \<^verbatim>\<open>StartDB\<close> leaves in the two buckets, by the content before it.\<close>

definition keeps_data :: "mode \<Rightarrow> content \<Rightarrow> bool" where
  "keeps_data mode c \<longleftrightarrow>
     mode \<noteq> mode_range \<and>
     \<not> (mode = mode_full \<and> (\<exists>am. c adminBucketName = Some am \<and> am modeIndex = Some mode_range))"

definition or_empty :: "(bytes \<rightharpoonup> bytes) option \<Rightarrow> (bytes \<rightharpoonup> bytes)" where
  "or_empty b = (case b of None \<Rightarrow> Map.empty | Some m \<Rightarrow> m)"

definition started_content :: "mode \<Rightarrow> content \<Rightarrow> content" where
  "started_content mode c =
     (let d = (if keeps_data mode c then or_empty (c dataBucketName) else Map.empty);
          a = (if keeps_data mode c then or_empty (c adminBucketName) else Map.empty)
      in c(dataBucketName \<mapsto> d, adminBucketName \<mapsto> a(modeIndex \<mapsto> mode)))"

lemma bucket_names_distinct [simp]:
  "dataBucketName \<noteq> adminBucketName" "adminBucketName \<noteq> dataBucketName"
  "lastBlockIndex \<noteq> modeIndex" "modeIndex \<noteq> lastBlockIndex"
  "mode_range \<noteq> mode_full" "mode_full \<noteq> mode_range" "mode_range \<noteq> []" "[] \<noteq> mode_range"
  by (simp_all add: dataBucketName_def adminBucketName_def lastBlockIndex_def modeIndex_def
      mode_range_def mode_full_def)

context bolt_store
begin

lemma delete_if_present_view:
  assumes "delete_if_present B n tx = Return tx'"
  shows "view tx' = (view tx)(n := None)"
  using assms delete_ok
  by (auto simp: delete_if_present_def bucket_ok of_sum_eq_Return fun_eq_iff split: if_splits)

lemma reset_for_range_view:
  assumes "reset_for_range B tx = Return tx'"
  shows "view tx' = (view tx)(dataBucketName := None, adminBucketName := None)"
  using assms
  by (auto simp: reset_for_range_def obind_eq_Return delete_if_present_view)

lemma reset_for_full_view:
  assumes "reset_for_full B tx = Return tx'"
  shows "view tx' = (if keeps_data mode_full (view tx) then view tx
                     else (view tx)(adminBucketName := None, dataBucketName := None))"
  using assms get_ok [of tx adminBucketName _ modeIndex]
  by (auto simp: reset_for_full_def keeps_data_def obind_eq_Return of_sum_eq_Return bucket_ok Let_def
      delete_if_present_view delete_ok split: if_splits option.splits)

lemma create_put_view:
  assumes "b_create_bucket B dataBucketName tx = Inr tx1"
    and "b_create_bucket B adminBucketName tx1 = Inr tx2"
    and "b_put B adminBucketName modeIndex mode tx2 = Inr tx3"
  shows "view tx3 = (view tx)(dataBucketName \<mapsto> or_empty (view tx dataBucketName),
                              adminBucketName \<mapsto> (or_empty (view tx adminBucketName))(modeIndex \<mapsto> mode))"
  using create_ok [OF assms(1)] create_ok [OF assms(2)] put_ok [OF _ assms(3)]
  by (simp add: or_empty_def)

lemma StartDB_view:
  assumes "StartDB B mode db = Return db'"
  shows "view db' = started_content mode (view db)"
  using assms unfolding StartDB_def
proof (rule update_invariant, goal_cases)
  case (1 tx tx')
  then obtain tx1 tx2 tx3 tx4 where
    r: "(if mode = mode_range then reset_for_range B tx else Return tx) = Return tx1"
    and f: "(if mode = mode_full then reset_for_full B tx1 else Return tx1) = Return tx2"
    and c: "b_create_bucket B dataBucketName tx2 = Inr tx3" "b_create_bucket B adminBucketName tx3 = Inr tx4"
      "b_put B adminBucketName modeIndex mode tx4 = Inr tx'"
    by (auto simp: obind_eq_Return of_sum_eq_Return)
  have "view tx' = started_content mode (view tx)"
    using r f reset_for_range_view [of tx tx1] reset_for_full_view [of tx1 tx2]
    unfolding create_put_view [OF c] started_content_def Let_def
    by (auto simp: keeps_data_def or_empty_def fun_eq_iff split: if_splits)
  with 1 show ?case by simp
qed

lemma StartDB_buckets:
  assumes "StartDB B mode db = Return db'"
  shows "view db' dataBucketName \<noteq> None \<and> view db' adminBucketName \<noteq> None"
  by (simp add: StartDB_view [OF assms] started_content_def Let_def)

section \<open>Saving\<close>

lemma put_in_view:
  assumes "view tx n = Some m" "put_in B n k v tx = Return tx'"
  shows "view tx' = (view tx)(n \<mapsto> m(k \<mapsto> v))"
  using assms put_ok by (auto simp: put_in_def bucket_ok of_sum_eq_Return split: if_splits)

lemma put_all_view:
  assumes "view tx dataBucketName = Some m"
    and "fold_outcome (\<lambda>tx register.
           put_in B dataBucketName (IntToBytes (reg_key register)) (Serialize G (reg_data register)) tx)
         tx rs = Return tx'"
  shows "view tx' = (view tx)(dataBucketName \<mapsto> put_registers G rs m)"
  using assms
proof (induction rs arbitrary: tx m)
  case Nil
  then show ?case by (auto simp: put_registers_def fun_eq_iff)
next
  case (Cons r rs)
  from Cons.prems(2) obtain tx1 where
    1: "put_in B dataBucketName (IntToBytes (reg_key r)) (Serialize G (reg_data r)) tx = Return tx1"
    and 2: "fold_outcome (\<lambda>tx register.
           put_in B dataBucketName (IntToBytes (reg_key register)) (Serialize G (reg_data register)) tx)
         tx1 rs = Return tx'"
    by (auto simp: obind_eq_Return)
  note v = put_in_view [OF Cons.prems(1) 1]
  have "view tx1 dataBucketName = Some (m(IntToBytes (reg_key r) \<mapsto> Serialize G (reg_data r)))"
    by (simp add: v)
  from Cons.IH [OF this 2] v show ?case
    by (simp add: put_registers_def del: fun_upd_apply)
qed

lemma SaveData_view:
  assumes "view db dataBucketName = Some dm" "view db adminBucketName = Some am"
    and "SaveData B G rs lastBlock db = Return db'"
  shows "view db' = (view db)(dataBucketName \<mapsto> put_registers G rs dm,
                              adminBucketName \<mapsto> am(lastBlockIndex \<mapsto> IntToBytes lastBlock))"
  using assms(3) unfolding SaveData_def
proof (rule update_invariant, goal_cases)
  case (1 tx tx')
  then obtain tx1 where
    p: "fold_outcome (\<lambda>tx register.
           put_in B dataBucketName (IntToBytes (reg_key register)) (Serialize G (reg_data register)) tx)
         tx rs = Return tx1"
    and a: "put_in B adminBucketName lastBlockIndex (IntToBytes lastBlock) tx1 = Return tx'"
    by (auto simp: obind_eq_Return)
  have "view tx dataBucketName = Some dm" using 1(1) assms(1) by simp
  note v = put_all_view [OF this p]
  have "view tx1 adminBucketName = Some am" using v 1(1) assms(2) by simp
  from put_in_view [OF this a] v 1(1) show ?case by (simp del: fun_upd_apply)
qed

lemma put_all_no_Panic:
  assumes "view tx dataBucketName = Some m"
  shows "fold_outcome (\<lambda>tx register.
           put_in B dataBucketName (IntToBytes (reg_key register)) (Serialize G (reg_data register)) tx)
         tx rs \<noteq> Panic msg"
  using assms
proof (induction rs arbitrary: tx m)
  case (Cons r rs)
  show ?case
  proof (cases "put_in B dataBucketName (IntToBytes (reg_key r)) (Serialize G (reg_data r)) tx")
    case (Return tx1)
    from put_in_view [OF Cons.prems this] Cons.IH [of tx1] Return show ?thesis by simp
  next
    case (Panic msg')
    with Cons.prems show ?thesis by (simp add: put_in_def bucket_ok)
  qed simp
qed simp

lemma SaveData_no_Panic:
  assumes "view db dataBucketName = Some dm" "view db adminBucketName = Some am"
  shows "SaveData B G rs lastBlock db \<noteq> Panic msg"
  unfolding SaveData_def
proof (rule update_no_Panic)
  fix tx assume tx: "view tx = view db"
  let ?puts = "fold_outcome (\<lambda>tx register.
      put_in B dataBucketName (IntToBytes (reg_key register)) (Serialize G (reg_data register)) tx) tx rs"
  show "obind ?puts (put_in B adminBucketName lastBlockIndex (IntToBytes lastBlock)) \<noteq> Panic msg"
  proof (cases ?puts)
    case (Return tx1)
    from put_all_view [OF _ this, of dm] tx assms have "view tx1 adminBucketName = Some am" by simp
    with Return show ?thesis by (simp add: put_in_def bucket_ok)
  next
    case (Panic msg')
    with put_all_no_Panic [of tx dm G rs msg'] tx assms show ?thesis by simp
  qed simp
qed

lemma StartDB_no_Panic: "StartDB B mode db \<noteq> Panic msg"
  unfolding StartDB_def
  by (rule update_no_Panic)
    (auto simp: obind_eq_Panic reset_for_range_def reset_for_full_def delete_if_present_def
      Let_def of_sum_eq_Return split: if_splits option.splits)

section \<open>Reading\<close>

lemma GetLastBlockIndex_eq:
  assumes "view db adminBucketName = Some am" "b_view B db = Inr tx"
  shows "GetLastBlockIndex B db =
    (case am lastBlockIndex of
       None \<Rightarrow> Return (- 1)
     | Some val \<Rightarrow> if val = [] then Return (- 1) else BytesToInt val)"
  using assms view_ok [OF assms(2)] get_ok [of tx adminBucketName am lastBlockIndex]
  by (auto simp: GetLastBlockIndex_def bucket_ok Let_def split: option.split)

definition at_record :: "gob_types \<Rightarrow> indexed_data list \<Rightarrow> nat \<Rightarrow> (bytes \<times> bytes) option" where
  "at_record G es j =
     (if j < length es then Some (IntToBytes (int j), Serialize G (es ! j)) else None)"

lemma seek_stored:
  assumes "view tx dataBucketName = Some (stored G es)" "int (length es) \<le> max_int"
    and "0 \<le> start" "start \<le> max_int"
  shows "b_seek B tx dataBucketName (IntToBytes start) = at_record G es (nat start)"
proof (rule seek_eqI [OF assms(1)])
  have "IntToBytes start \<le> IntToBytes (int i) \<longleftrightarrow> nat start \<le> i" if "i < length es" for i
    using IntToBytes_le_iff [of start "int i"] assms that by auto
  moreover have "IntToBytes start \<le> IntToBytes (int i) \<longleftrightarrow> nat start \<le> i"
    if "nat start < length es" "i = nat start" for i
    using that assms by simp
  moreover have "IntToBytes (int i) \<le> IntToBytes (int k)" if "i \<le> k" "k < length es" for i k
    using that assms IntToBytes_le_iff [of "int i" "int k"] by simp
  ultimately show "least_entry (stored G es) ((\<le>) (IntToBytes start)) (at_record G es (nat start))"
    using stored_lookup [of es "nat start" G] assms
    by (auto simp: least_entry_def at_record_def dom_stored)
qed

lemma next_stored:
  assumes "view tx dataBucketName = Some (stored G es)" "int (length es) \<le> max_int" "j < length es"
  shows "b_next B tx dataBucketName (IntToBytes (int j)) = at_record G es (Suc j)"
proof (rule next_eqI [OF assms(1)])
  have "IntToBytes (int j) < IntToBytes (int i) \<longleftrightarrow> Suc j \<le> i" if "i < length es" for i
    using IntToBytes_less_iff [of "int j" "int i"] assms that by auto
  moreover have "IntToBytes (int i) \<le> IntToBytes (int k)" if "i \<le> k" "k < length es" for i k
    using that assms IntToBytes_le_iff [of "int i" "int k"] by simp
  ultimately show "least_entry (stored G es) ((<) (IntToBytes (int j))) (at_record G es (Suc j))"
    using stored_lookup [of es "Suc j" G] assms
    by (auto simp: least_entry_def at_record_def dom_stored simp del: of_nat_Suc)
qed

lemma page_loop_stored:
  assumes "view tx dataBucketName = Some (stored G es)" "int (length es) \<le> max_int"
    and "gob_types_wf G" "\<forall>d \<in> set es. indexed_data_wf d"
    and "c = min (length es - j) (nat (limit - i))" "0 \<le> n" "n + int c \<le> max_int"
  shows "page_loop B G hex tx limit i (at_record G es j) results n =
     Return (results @ map (\<lambda>i. json_of hex (int i) (es ! i)) [j..<j + c], n + int c)"
  using assms(5-7)
proof (induction c arbitrary: i j results n)
  case 0
  then show ?case by (subst page_loop.simps) (auto simp: at_record_def)
next
  case (Suc c)
  then have j: "j < length es" and i: "i < limit" and c: "c = min (length es - Suc j) (nat (limit - (i + 1)))"
    by auto
  have "indexed_data_wf (es ! j)" using j assms(4) by simp
  then have "Deserialize G (Serialize G (es ! j)) = Inr (es ! j)"
    using gob_decode_Serialize [OF assms(3)] by simp
  moreover have "ToJSON hex (es ! j) (IntToBytes (int j)) = Return (json_of hex (int j) (es ! j))"
    using assms(2) j by (simp add: ToJSON_def BytesToInt_IntToBytes_go_int go_int_id min_int_def json_of_def)
  moreover have "go_int (n + 1) = n + 1"
    using Suc.prems by (intro go_int_id) (simp_all add: min_int_def)
  moreover have "[j..<j + Suc c] = j # [Suc j..<Suc j + c]"
    by (metis add_Suc_right add_Suc less_add_Suc1 upt_conv_Cons)
  ultimately show ?case
    using Suc.IH [OF c, of "n + 1" "results @ [json_of hex (int j) (es ! j)]"] Suc.prems i j
      next_stored [OF assms(1,2) j]
    by (subst page_loop.simps) (simp add: at_record_def [of G es j])
qed

lemma GetPaginated_stored:
  assumes "view db dataBucketName = Some (stored G es)" "int (length es) \<le> max_int"
    and "gob_types_wf G" "\<forall>d \<in> set es. indexed_data_wf d"
    and "0 \<le> start" "start \<le> max_int" "b_view B db = Inr tx"
  shows "GetPaginated B G hex start limit db =
     Return (page_of hex es start limit, start + int (length (page_of hex es start limit)))"
proof -
  have v: "view tx dataBucketName = Some (stored G es)" using assms(1,7) view_ok by simp
  define c where "c = min (length es - nat start) (nat (limit - 0))"
  have upt: "[nat start..<min (length es) (nat start + nat limit)] = [nat start..<nat start + c]"
    by (cases "nat start < length es") (auto simp: c_def min_def)
  have "start + int c \<le> max_int" using assms(2,5,6) by (auto simp: c_def min_def)
  from page_loop_stored [OF v assms(2,3,4) c_def assms(5) this, of hex "[]"]
  show ?thesis
    using seek_stored [OF v assms(2,5,6)] assms(7) v
    by (simp add: GetPaginated_def bucket_ok page_of_def upt)
qed

end

section \<open>The contract of the persistor towards the synchronizer\<close>

text \<open>
  What the synchronizer relies on: a store that holds the records \<open>es\<close>, numbered from 0,
  holds \<open>es\<close> followed by \<open>ds\<close> after \<open>ds\<close> is saved under the next numbers, and remembers
  the last block it was told. Saving to such a store never panics.
\<close>

locale persistor_contract =
  fixes save_data :: "register list \<Rightarrow> int \<Rightarrow> 'p \<Rightarrow> 'p outcome"
    and holds :: "'p \<Rightarrow> indexed_data list \<Rightarrow> bool"
    and last_block :: "'p \<Rightarrow> int \<Rightarrow> bool"
  assumes save_appends: "holds p es \<Longrightarrow> save_data (number_from (int (length es)) ds) n p = Return p' \<Longrightarrow>
      holds p' (es @ ds) \<and> last_block p' n"
    and save_no_Panic: "holds p es \<Longrightarrow> save_data rs n p \<noteq> Panic msg"

definition holds_records :: "('tx \<Rightarrow> content) \<Rightarrow> gob_types \<Rightarrow> 'tx \<Rightarrow> indexed_data list \<Rightarrow> bool" where
  "holds_records view G db es \<longleftrightarrow>
     view db dataBucketName = Some (stored G es) \<and> view db adminBucketName \<noteq> None"

definition last_block_saved :: "('tx \<Rightarrow> content) \<Rightarrow> 'tx \<Rightarrow> int \<Rightarrow> bool" where
  "last_block_saved view db n \<longleftrightarrow>
     (\<exists>am. view db adminBucketName = Some am \<and> am lastBlockIndex = Some (IntToBytes n))"

sublocale bolt_store \<subseteq> saving: persistor_contract "SaveData B G" "holds_records view G" "last_block_saved view"
  for G
proof
  fix db db' es ds n
  assume h: "holds_records view G db es"
    and s: "SaveData B G (number_from (int (length es)) ds) n db = Return db'"
  from h obtain am where am: "view db dataBucketName = Some (stored G es)" "view db adminBucketName = Some am"
    by (auto simp: holds_records_def)
  from SaveData_view [OF am s] show "holds_records view G db' (es @ ds) \<and> last_block_saved view db' n"
    by (simp add: holds_records_def last_block_saved_def stored_append)
next
  fix db es rs n msg
  assume "holds_records view G db es"
  then show "SaveData B G rs n db \<noteq> Panic msg"
    using SaveData_no_Panic by (auto simp: holds_records_def)
qed

context bolt_store
begin

lemma saving_contract: "persistor_contract (SaveData B G) (holds_records view G) (last_block_saved view)"
  by (rule saving.persistor_contract_axioms)

end

section \<open>Properties\<close>

text \<open>C19: starting in range mode empties both buckets; starting in full mode empties them
  only if the recorded mode is range, and otherwise keeps every record and the last
  block; either way both buckets exist and the mode is recorded.\<close>

theorem StartDB_modes:
  assumes "bolt_store B view" and "StartDB B mode db = Return db'" and "mode \<in> {mode_range, mode_full}"
  defines "kept \<equiv> mode = mode_full \<and> (\<forall>am. view db adminBucketName = Some am \<longrightarrow> am modeIndex \<noteq> Some mode_range)"
  shows "view db' dataBucketName = Some (if kept then or_empty (view db dataBucketName) else Map.empty) \<and>
    view db' adminBucketName =
      Some ((if kept then or_empty (view db adminBucketName) else Map.empty)(modeIndex \<mapsto> mode))"
  using bolt_store.StartDB_view [OF assms(1,2)] assms(3)
  by (auto simp: started_content_def keeps_data_def Let_def kept_def)

definition ref_after_range :: ref_db where
  "ref_after_range = [(adminBucketName, [(modeIndex, mode_range)]), (dataBucketName, [(''k'', ''v'')])]"

theorem StartDB_modes_witness:
  "\<exists>db'. StartDB ref_bolt mode_full ref_after_range = Return db' \<and> ref_view db' dataBucketName = Some Map.empty"
proof -
  obtain db' where db': "StartDB ref_bolt mode_full ref_after_range = Return db'"
    by (simp add: StartDB_def ref_bolt_def ref_after_range_def reset_for_full_def delete_if_present_def
        Let_def)
  then show ?thesis
    using StartDB_modes [OF ref.bolt_store_axioms db']
    by (simp add: ref_after_range_def ref_view_def)
qed

text \<open>C20: the last block handed to a successful \<^verbatim>\<open>SaveData\<close> is the one
  \<^verbatim>\<open>GetLastBlockIndex\<close> reads back.\<close>

theorem GetLastBlockIndex_SaveData:
  assumes "bolt_store B view" and "holds_records view G db es" and "is_int64 n"
    and "SaveData B G rs n db = Return db'" and "b_view B db' = Inr tx"
  shows "GetLastBlockIndex B db' = Return n"
proof -
  from assms(2) obtain dm am where "view db dataBucketName = Some dm" "view db adminBucketName = Some am"
    by (auto simp: holds_records_def)
  from bolt_store.SaveData_view [OF assms(1) this assms(4)]
  have "view db' adminBucketName = Some (am(lastBlockIndex \<mapsto> IntToBytes n))" by simp
  from bolt_store.GetLastBlockIndex_eq [OF assms(1) this assms(5)] assms(3) show ?thesis
    using length_IntToBytes [of n] by (auto simp: BytesToInt_IntToBytes_go_int go_int_id simp del: length_IntToBytes)
qed

definition ref_empty :: ref_db where
  "ref_empty = [(adminBucketName, []), (dataBucketName, [])]"

definition ref_types :: gob_types where
  "ref_types = \<lparr>gob_value_id = 65, gob_descriptors = [(65, ''struct''), (66, ''array'')]\<rparr>"

lemma holds_records_ref_empty: "holds_records ref_view G ref_empty []"
  by (simp add: holds_records_def ref_empty_def ref_view_def)

lemma gob_types_wf_ref_types: "gob_types_wf ref_types"
  by (simp add: gob_types_wf_def ref_types_def)

theorem GetLastBlockIndex_SaveData_witness:
  "\<exists>db'. SaveData ref_bolt ref_types [\<lparr>reg_key = 0, reg_data = zero_data\<rparr>] 6850000 ref_empty = Return db' \<and>
     GetLastBlockIndex ref_bolt db' = Return 6850000"
proof -
  obtain db' where db': "SaveData ref_bolt ref_types [\<lparr>reg_key = 0, reg_data = zero_data\<rparr>] 6850000 ref_empty = Return db'"
    by (simp add: SaveData_def ref_bolt_def ref_empty_def put_in_def)
  have "is_int64 6850000" by (simp add: min_int_def max_int_def)
  from GetLastBlockIndex_SaveData [OF ref.bolt_store_axioms holds_records_ref_empty this db'] db'
  show ?thesis by (simp add: ref_bolt_def)
qed

text \<open>C11: on a database that holds the records \<open>es\<close>, a page starts at the record number
  asked for, contains the following records in order, at most \<^verbatim>\<open>limit\<close> of them, each under
  its own number, and the next index is the number after the last one.\<close>

theorem GetPaginated_page:
  assumes "bolt_store B view" and "holds_records view G db es" and "int (length es) \<le> max_int"
    and "gob_types_wf G" and "\<forall>d \<in> set es. indexed_data_wf d"
    and "0 \<le> start" and "start \<le> max_int" and "b_view B db = Inr tx"
  shows "GetPaginated B G hex start limit db =
    Return (page_of hex es start limit, start + int (length (page_of hex es start limit)))"
  using bolt_store.GetPaginated_stored [OF assms(1) _ assms(3-8)] assms(2)
  by (simp add: holds_records_def)

theorem GetPaginated_page_witness:
  "\<exists>db'. SaveData ref_bolt ref_types (number_from 0 [zero_data, zero_data]) 7 ref_empty = Return db' \<and>
     GetPaginated ref_bolt ref_types (\<lambda>_. ''0x'') 1 10 db' = Return ([json_of (\<lambda>_. ''0x'') 1 zero_data], 2)"
proof -
  obtain db' where db': "SaveData ref_bolt ref_types (number_from 0 [zero_data, zero_data]) 7 ref_empty = Return db'"
    by (simp add: SaveData_def ref_bolt_def ref_empty_def put_in_def)
  have "SaveData ref_bolt ref_types (number_from (int (length [])) [zero_data, zero_data]) 7 ref_empty = Return db'"
    using db' by simp
  from ref.saving.save_appends [OF holds_records_ref_empty this]
  have h: "holds_records ref_view ref_types db' [zero_data, zero_data]" by simp
  have "indexed_data_wf zero_data" by (simp add: indexed_data_wf_def zero_data_def)
  then have "GetPaginated ref_bolt ref_types (\<lambda>_. ''0x'') 1 10 db' =
      Return (page_of (\<lambda>_. ''0x'') [zero_data, zero_data] 1 10,
        1 + int (length (page_of (\<lambda>_. ''0x'') [zero_data, zero_data] 1 10)))"
    using GetPaginated_page [OF ref.bolt_store_axioms h _ gob_types_wf_ref_types, of 1 db' "\<lambda>_. ''0x''" 10]
    by (simp add: max_int_def ref_bolt_def)
  with db' show ?thesis by (simp add: page_of_def)
qed

text \<open>A page asked for with a negative start index is empty.\<close>

theorem GetPaginated_negative:
  assumes "bolt_store B view" and "holds_records view G db es" and "int (length es) \<le> max_int"
    and "min_int \<le> start" and "start < 0" and "b_view B db = Inr tx"
  shows "GetPaginated B G hex start limit db = Return ([], start)"
proof -
  have tx: "view tx dataBucketName = Some (stored G es)"
    using bolt_store.view_ok [OF assms(1,6)] assms(2) by (simp add: holds_records_def)
  have "be_value (IntToBytes (int i)) < be_value (IntToBytes start)" if "i < length es" for i
  proof -
    have "uint (uint64_of_int start) = (start + 2 ^ 64) mod 2 ^ 64"
      by (simp add: uint64_of_int_def uint_word_of_int)
    also have "\<dots> = start + 2 ^ 64"
      using assms(4,5) by (intro mod_pos_pos_trivial) (simp_all add: min_int_def)
    finally have "uint (uint64_of_int start) = start + 2 ^ 64" .
    then have "2 ^ 63 \<le> unat (uint64_of_int start)"
      using assms(4) by (simp add: min_int_def unat_eq_nat_uint nat_le_iff le_nat_iff)
    moreover have "unat (uint64_of_int (int i)) < 2 ^ 63"
      using that assms(3) by (simp add: unat_uint64_of_nonneg max_int_def)
    ultimately show ?thesis by (simp add: be_value_IntToBytes)
  qed
  then have "\<not> IntToBytes start \<le> IntToBytes (int i)" if "i < length es" for i
    using that be_value_less_iff [of "IntToBytes (int i)" "IntToBytes start"] by (simp add: not_le)
  then have "least_entry (stored G es) ((\<le>) (IntToBytes start)) None"
    by (auto simp: least_entry_def dom_stored)
  from bolt_store.seek_eqI [OF assms(1) tx this] assms(6) tx bolt_store.bucket_ok [OF assms(1)] show ?thesis
    by (simp add: GetPaginated_def page_loop.simps)
qed

theorem GetPaginated_negative_witness:
  "GetPaginated ref_bolt ref_types (\<lambda>_. ''0x'') (- 5) 10 ref_empty = Return ([], - 5)"
  by (rule GetPaginated_negative [OF ref.bolt_store_axioms holds_records_ref_empty])
    (simp_all add: max_int_def min_int_def ref_bolt_def)

end
