(* ===== verification/Synchronizer.thy ===== *)
theory Synchronizer
  imports Persistor
begin

text \<open>
  The synchronizer (\<^verbatim>\<open>synchronizer/synchronizer.go\<close>): a bounded channel of fetched ranges,
  the map of blocks that wait to be saved, the next block to save and the next record
  number. Its goroutine either takes an item from the channel (\<open>sync_recv\<close>) or answers a
  tick of its timer (\<open>sync_tick\<close>). The persistor it saves to is an argument, the function
  \<open>SaveData\<close> over a store \<open>'p\<close>; the lemmas about saving are proved from the contract
  \<open>persistor_contract\<close> alone.

  The two loops over block numbers step with Go's wrapping \<^verbatim>\<open>i++\<close> and may run forever, so
  they are partial functions, \<open>None\<close> meaning that the loop does not end; the lemmas
  \<open>add_loop_eq\<close> and \<open>scan_eq\<close> show when they end and with what.
\<close>

section \<open>State and operations\<close>

type_synonym pending = "int \<rightharpoonup> indexed_data list"

record sync =
  datachan :: "sync_struct list"
  curr_block :: uint64
  curr_index :: uint64
  data_to_save :: pending

type_synonym 'p saver = "register list \<Rightarrow> int \<Rightarrow> 'p \<Rightarrow> 'p outcome"

definition datachan_capacity :: nat where
  "datachan_capacity = 200"

definition NewSynchronizer :: sync where
  "NewSynchronizer = \<lparr>datachan = [], curr_block = 0, curr_index = 0, data_to_save = Map.empty\<rparr>"

text \<open>A send on the channel; \<open>None\<close> when the channel is full and the sender has to wait.\<close>

definition Add :: "sync_struct \<Rightarrow> sync \<Rightarrow> sync option" where
  "Add item s =
     (if length (datachan s) < datachan_capacity then Some (s\<lparr>datachan := datachan s @ [item]\<rparr>)
      else None)"

definition GetCurrBlock :: "sync \<Rightarrow> int" where
  "GetCurrBlock s = int_of_uint64 (curr_block s)"

partial_function (option) add_loop :: "sync_struct \<Rightarrow> int \<Rightarrow> pending \<Rightarrow> pending option" where
  "add_loop item i m =
     (if i \<le> item_end item then
        (case item_data item i of
           None \<Rightarrow> add_loop item (go_int (i + 1)) (m(i \<mapsto> []))
         | Some data \<Rightarrow> add_loop item (go_int (i + 1)) (m(i \<mapsto> data)))
      else Some m)"

definition add :: "sync_struct \<Rightarrow> sync \<Rightarrow> sync option" where
  "add item s =
     map_option (\<lambda>m. s\<lparr>data_to_save := m\<rparr>) (add_loop item (item_start item) (data_to_save s))"

text \<open>The inner loop of \<^verbatim>\<open>save\<close>: one register per record of a block.\<close>

definition number_data :: "indexed_data list \<Rightarrow> int \<times> register list \<Rightarrow> int \<times> register list" where
  "number_data data acc =
     fold (\<lambda>d (keyIterator, registers).
            (go_int (keyIterator + 1), registers @ [\<lparr>reg_key = keyIterator, reg_data = d\<rparr>])) data acc"

text \<open>The outer loop: it ends at the first block that is not there.\<close>

partial_function (option) scan :: "pending \<Rightarrow> int \<Rightarrow> int \<times> register list \<Rightarrow>
    (int \<times> int \<times> register list) option" where
  "scan m blockIterator acc =
     (case m blockIterator of
        None \<Rightarrow> Some (blockIterator, acc)
      | Some data \<Rightarrow> scan m (go_int (blockIterator + 1)) (number_data data acc))"

definition delete_blocks :: "int \<Rightarrow> int \<Rightarrow> pending \<Rightarrow> pending" where
  "delete_blocks startBlock blockIterator m =
     fold (\<lambda>i m. m(i := None)) [startBlock..blockIterator - 1] m"

definition save :: "'p saver \<Rightarrow> sync \<times> 'p \<Rightarrow> (sync \<times> 'p) outcome option" where
  "save save_data sp =
     (case sp of (s, p) \<Rightarrow>
        (let startBlock = int_of_uint64 (curr_block s) in
         case data_to_save s startBlock of
           None \<Rightarrow> Some (Return (s, p))
         | Some _ \<Rightarrow>
             (let startKey = int_of_uint64 (curr_index s) in
              map_option
                (\<lambda>(blockIterator, keyIterator, registers).
                   let endBlock = go_int (blockIterator - 1) in
                   obind (save_data registers endBlock p) (\<lambda>p'.
                     Return
                       (s\<lparr>curr_block := curr_block s + uint64_of_int (go_int (blockIterator - startBlock)),
                          curr_index := curr_index s + uint64_of_int (go_int (keyIterator - startKey)),
                          data_to_save := delete_blocks startBlock blockIterator (data_to_save s)\<rparr>,
                        p')))
                (scan (data_to_save s) startBlock (startKey, [])))))"

text \<open>The goroutine \<^verbatim>\<open>Start\<close>: its prologue, and one iteration of its loop per ready case
  of the \<^verbatim>\<open>select\<close>. An error of \<^verbatim>\<open>save\<close> is printed and the loop goes on.\<close>

definition start_sync :: "int \<Rightarrow> sync \<Rightarrow> sync" where
  "start_sync startBlock s = s\<lparr>curr_block := curr_block s + uint64_of_int startBlock\<rparr>"

definition sync_recv :: "sync \<Rightarrow> sync option" where
  "sync_recv s =
     (case datachan s of
        [] \<Rightarrow> None
      | item # items \<Rightarrow> add item (s\<lparr>datachan := items\<rparr>))"

definition sync_tick :: "'p saver \<Rightarrow> sync \<times> 'p \<Rightarrow> (sync \<times> 'p) outcome option" where
  "sync_tick save_data sp =
     map_option (\<lambda>r. case r of Fail err \<Rightarrow> Return sp | _ \<Rightarrow> r) (save save_data sp)"

text \<open>The other goroutines see \<^verbatim>\<open>save\<close> in two moments: \<open>commit\<close> ends with the transaction of the
  database, and \<open>advance\<close> adds to the counters and deletes the saved blocks. \<open>commit\<close> returns the
  first block and the one after the last, and the same of the record numbers; nothing when there
  is no batch or it is not saved.\<close>

type_synonym saved = "int \<times> int \<times> int \<times> int"

definition commit :: "'p saver \<Rightarrow> sync \<Rightarrow> 'p \<Rightarrow> (saved option \<times> 'p) outcome option" where
  "commit save_data s p =
     (let startBlock = int_of_uint64 (curr_block s) in
      case data_to_save s startBlock of
        None \<Rightarrow> Some (Return (None, p))
      | Some _ \<Rightarrow>
          (let startKey = int_of_uint64 (curr_index s) in
           map_option
             (\<lambda>(blockIterator, keyIterator, registers).
                case save_data registers (go_int (blockIterator - 1)) p of
                  Return p' \<Rightarrow> Return (Some (startBlock, blockIterator, startKey, keyIterator), p')
                | Fail err \<Rightarrow> Return (None, p)
                | Panic m \<Rightarrow> Panic m)
             (scan (data_to_save s) startBlock (startKey, []))))"

definition advance :: "saved \<Rightarrow> sync \<Rightarrow> sync" where
  "advance b s =
     (case b of (startBlock, blockIterator, startKey, keyIterator) \<Rightarrow>
        s\<lparr>curr_block := curr_block s + uint64_of_int (go_int (blockIterator - startBlock)),
          curr_index := curr_index s + uint64_of_int (go_int (keyIterator - startKey)),
          data_to_save := delete_blocks startBlock blockIterator (data_to_save s)\<rparr>)"

definition advanced :: "saved option \<Rightarrow> sync \<Rightarrow> sync" where
  "advanced a s = (case a of None \<Rightarrow> s | Some b \<Rightarrow> advance b s)"

lemma advanced_simps [simp]: "advanced None s = s" "advanced (Some b) s = advance b s"
  by (simp_all add: advanced_def)

lemma sync_tick_commit:
  "sync_tick save_data (s, p) =
     map_option (\<lambda>r. obind r (\<lambda>(a, p'). Return (advanced a s, p'))) (commit save_data s p)"
  by (auto simp: sync_tick_def save_def commit_def advance_def Let_def option.map_comp comp_def
      split: option.split outcome.split intro!: map_option_cong)

lemma Add_advanced: "Add item s = Some s' \<Longrightarrow> Add item (advanced a s) = Some (advanced a s')"
  by (cases a) (auto simp: Add_def advance_def split: if_splits prod.splits)

section \<open>The loop of \<open>add\<close>\<close>

text \<open>What an item says about a block of its range.\<close>

definition item_records :: "sync_struct \<Rightarrow> int \<Rightarrow> indexed_data list" where
  "item_records item i = (case item_data item i of None \<Rightarrow> [] | Some data \<Rightarrow> data)"

lemma add_loop_step:
  "add_loop item i m =
     (if i \<le> item_end item then add_loop item (go_int (i + 1)) (m(i \<mapsto> item_records item i))
      else Some m)"
  by (subst add_loop.simps) (simp add: item_records_def split: option.split)

lemma add_loop_eq:
  assumes "min_int \<le> i" "item_end item < max_int"
  shows "add_loop item i m =
    Some (\<lambda>j. if i \<le> j \<and> j \<le> item_end item then Some (item_records item j) else m j)"
  using assms
proof (induction "nat (item_end item + 1 - i)" arbitrary: i m)
  case 0
  then show ?case by (subst add_loop_step) (auto simp: fun_eq_iff)
next
  case (Suc n)
  then have i: "i \<le> item_end item" and g: "go_int (i + 1) = i + 1"
    by (auto simp: go_int_id min_int_def)
  have "n = nat (item_end item + 1 - (i + 1))" "min_int \<le> i + 1" using Suc by auto
  from Suc.hyps(1) [OF this] Suc.prems i g show ?case
    by (subst add_loop_step) (auto simp: fun_eq_iff)
qed

lemma add_eq:
  assumes "min_int \<le> item_start item" "item_end item < max_int"
  shows "add item s = Some (s\<lparr>data_to_save :=
    (\<lambda>j. if item_start item \<le> j \<and> j \<le> item_end item then Some (item_records item j)
         else data_to_save s j)\<rparr>)"
  by (simp add: add_def add_loop_eq [OF assms])

section \<open>The loops of \<open>save\<close>\<close>

definition block_records :: "pending \<Rightarrow> int \<Rightarrow> indexed_data list" where
  "block_records m i = (case m i of None \<Rightarrow> [] | Some data \<Rightarrow> data)"

text \<open>The records of the blocks \<open>i, \<dots>, j - 1\<close>, in block order.\<close>

definition records_between :: "(int \<Rightarrow> indexed_data list) \<Rightarrow> int \<Rightarrow> int \<Rightarrow> indexed_data list" where
  "records_between f i j = concat (map f [i..j - 1])"

lemma records_between_empty [simp]: "j \<le> i \<Longrightarrow> records_between f i j = []"
  by (simp add: records_between_def)

lemma records_between_first:
  "i < j \<Longrightarrow> records_between f i j = f i @ records_between f (i + 1) j"
  by (simp add: records_between_def upto.simps [of i "j - 1"])

lemma records_between_append:
  assumes "i \<le> j" "j \<le> k"
  shows "records_between f i k = records_between f i j @ records_between f j k"
proof -
  have "[i..k - 1] = [i..j - 1] @ [j..k - 1]"
    using assms upto_split1 [of i j "k - 1"] by (cases "j = k") auto
  then show ?thesis by (simp add: records_between_def)
qed

lemma records_between_cong:
  "(\<And>b. i \<le> b \<Longrightarrow> b < j \<Longrightarrow> f b = g b) \<Longrightarrow> records_between f i j = records_between g i j"
  unfolding records_between_def by (rule arg_cong [where f = concat], rule map_cong) auto

lemma number_data_eq:
  assumes "min_int \<le> k" "k + int (length data) \<le> max_int"
  shows "number_data data (k, rs) = (k + int (length data), rs @ number_from k data)"
  using assms
proof (induction data arbitrary: k rs)
  case (Cons d data)
  then have "go_int (k + 1) = k + 1" by (intro go_int_id) auto
  with Cons show ?case by (simp add: number_data_def)
qed (simp add: number_data_def)

lemma scan_eq:
  assumes "\<And>b. i \<le> b \<Longrightarrow> b < j \<Longrightarrow> m b \<noteq> None" and "m j = None"
    and "min_int \<le> i" "i \<le> j" "j \<le> max_int"
    and "min_int \<le> k" "k + int (length (records_between (block_records m) i j)) \<le> max_int"
  shows "scan m i (k, rs) =
    Some (j, k + int (length (records_between (block_records m) i j)),
          rs @ number_from k (records_between (block_records m) i j))"
  using assms
proof (induction "nat (j - i)" arbitrary: i k rs)
  case 0
  then show ?case by (subst scan.simps) simp
next
  case (Suc n)
  then have ij: "i < j" by simp
  with Suc.prems(1) obtain data where data: "m i = Some data" by fastforce
  have g: "go_int (i + 1) = i + 1" using Suc.prems ij by (intro go_int_id) auto
  note first = records_between_first [OF ij, of "block_records m"]
  have b: "block_records m i = data" by (simp add: block_records_def data)
  have n: "n = nat (j - (i + 1))" using Suc.hyps(2) ij by simp
  have "number_data data (k, rs) = (k + int (length data), rs @ number_from k data)"
    using Suc.prems(6,7) first b by (intro number_data_eq) simp_all
  with Suc.hyps(1) [OF n, of "k + int (length data)" "rs @ number_from k data"] Suc.prems ij data g b first
  show ?case
    by (subst scan.simps) (simp add: number_from_append add.assoc)
qed

lemma delete_blocks_eq:
  "delete_blocks i j m = (\<lambda>b. if i \<le> b \<and> b < j then None else m b)"
proof -
  have "fold (\<lambda>i m. m(i := None)) is m = (\<lambda>b. if b \<in> set is then None else m b)" for "is" :: "int list"
    by (induction "is" arbitrary: m) (auto simp: fun_eq_iff)
  then show ?thesis by (auto simp: delete_blocks_def fun_eq_iff)
qed

lemma first_gap:
  fixes b h :: int
  assumes "b \<le> h" "m h = None"
  obtains j where "b \<le> j" "j \<le> h" "m j = None" "\<And>i. b \<le> i \<Longrightarrow> i < j \<Longrightarrow> m i \<noteq> None"
proof -
  define n where "n = (LEAST n. m (b + int n) = None)"
  have ex: "m (b + int (nat (h - b))) = None" using assms by simp
  from LeastI [of "\<lambda>n. m (b + int n) = None", OF ex] have "m (b + int n) = None"
    by (simp add: n_def)
  moreover have "n \<le> nat (h - b)"
    unfolding n_def by (rule Least_le) (fact ex)
  moreover have "m i \<noteq> None" if "b \<le> i" "i < b + int n" for i
    using not_less_Least [of "nat (i - b)" "\<lambda>n. m (b + int n) = None"] that by (auto simp: n_def)
  ultimately show ?thesis using that [of "b + int n"] assms by simp
qed

lemma uint64_add_of_int: "uint64_of_int a + uint64_of_int b = uint64_of_int (a + b)"
  by (simp add: uint64_of_int_def)

lemma uint64_of_go_int: "uint64_of_int (go_int a) = uint64_of_int a"
  by (metis int_of_uint64_of_int uint64_of_int_of_uint64)

text \<open>One call of \<open>save\<close>: the blocks from \<open>b\<close> up to the first gap \<open>j\<close>, as one batch.\<close>

lemma save_eq:
  assumes "int_of_uint64 (curr_block s) = b" "int_of_uint64 (curr_index s) = k"
    and "\<And>i. b \<le> i \<Longrightarrow> i < j \<Longrightarrow> data_to_save s i \<noteq> None" "data_to_save s j = None"
    and "min_int \<le> b" "b < j" "j \<le> max_int" "min_int \<le> k"
    and "rs = records_between (block_records (data_to_save s)) b j" "k + int (length rs) \<le> max_int"
  shows "save save_data (s, p) =
    Some (obind (save_data (number_from k rs) (j - 1) p) (\<lambda>p'.
      Return (s\<lparr>curr_block := uint64_of_int j, curr_index := uint64_of_int (k + int (length rs)),
                data_to_save := (\<lambda>i. if b \<le> i \<and> i < j then None else data_to_save s i)\<rparr>, p')))"
proof -
  have "scan (data_to_save s) b (k, []) = Some (j, k + int (length rs), number_from k rs)"
    using scan_eq [of b j "data_to_save s" k "[]"] assms by simp
  moreover have "go_int (j - 1) = j - 1" using assms by (intro go_int_id) auto
  moreover have "curr_block s + uint64_of_int (go_int (j - b)) = uint64_of_int j"
    using uint64_of_int_of_uint64 [of "curr_block s"] assms(1) uint64_add_of_int [of b "j - b"]
    by (simp add: uint64_of_go_int)
  moreover have "curr_index s + uint64_of_int (go_int (int (length rs))) = uint64_of_int (k + int (length rs))"
    using uint64_of_int_of_uint64 [of "curr_index s"] assms(2) uint64_add_of_int [of k "int (length rs)"]
    by (simp add: uint64_of_go_int)
  moreover have "data_to_save s b \<noteq> None" using assms(3,6) by simp
  ultimately show ?thesis
    using assms(1,2) by (auto simp: save_def Let_def delete_blocks_eq)
qed

section \<open>The invariant\<close>

text \<open>
  \<open>D b\<close> are the records of block \<open>b\<close>, \<open>start\<close> the block the run starts from and \<open>H\<close> a
  horizon that no fetched range passes. The horizon and the number of records below it
  stay inside a 64-bit integer.
\<close>

definition horizon_ok :: "(int \<Rightarrow> indexed_data list) \<Rightarrow> int \<Rightarrow> int \<Rightarrow> bool" where
  "horizon_ok D start H \<longleftrightarrow>
     0 \<le> start \<and> start \<le> H + 1 \<and> H < max_int \<and> int (length (records_between D start (H + 1))) \<le> max_int"

definition item_ok :: "(int \<Rightarrow> indexed_data list) \<Rightarrow> int \<Rightarrow> int \<Rightarrow> sync_struct \<Rightarrow> bool" where
  "item_ok D start H item \<longleftrightarrow>
     start \<le> item_start item \<and> item_end item \<le> H \<and>
     (\<forall>i. item_start item \<le> i \<and> i \<le> item_end item \<longrightarrow> item_records item i = D i)"

definition pending_ok :: "(int \<Rightarrow> indexed_data list) \<Rightarrow> int \<Rightarrow> int \<Rightarrow> pending \<Rightarrow> bool" where
  "pending_ok D start H m \<longleftrightarrow> (\<forall>i data. m i = Some data \<longrightarrow> start \<le> i \<and> i \<le> H \<and> data = D i)"

definition saved_upto :: "('p \<Rightarrow> indexed_data list \<Rightarrow> bool) \<Rightarrow> ('p \<Rightarrow> int \<Rightarrow> bool) \<Rightarrow>
    (int \<Rightarrow> indexed_data list) \<Rightarrow> int \<Rightarrow> int \<Rightarrow> 'p \<Rightarrow> bool" where
  "saved_upto holds last_block D start b p \<longleftrightarrow>
     holds p (records_between D start b) \<and> (start < b \<longrightarrow> last_block p (b - 1))"

definition sync_inv :: "('p \<Rightarrow> indexed_data list \<Rightarrow> bool) \<Rightarrow> ('p \<Rightarrow> int \<Rightarrow> bool) \<Rightarrow>
    (int \<Rightarrow> indexed_data list) \<Rightarrow> int \<Rightarrow> int \<Rightarrow> sync \<times> 'p \<Rightarrow> bool" where
  "sync_inv holds last_block D start H sp \<longleftrightarrow>
     (case sp of (s, p) \<Rightarrow>
        (let b = GetCurrBlock s in
         start \<le> b \<and> b \<le> H + 1 \<and>
         int_of_uint64 (curr_index s) = int (length (records_between D start b)) \<and>
         saved_upto holds last_block D start b p \<and>
         pending_ok D start H (data_to_save s) \<and>
         (\<forall>item \<in> set (datachan s). item_ok D start H item)))"

lemma horizon_bounds:
  assumes "horizon_ok D start H" "start \<le> b" "b \<le> H + 1"
  shows "is_int64 b" "int (length (records_between D start b)) \<le> max_int"
  using assms records_between_append [of start b "H + 1" D]
  by (auto simp: horizon_ok_def min_int_def)

lemma pending_ok_records:
  assumes "pending_ok D start H m" "\<And>i. b \<le> i \<Longrightarrow> i < j \<Longrightarrow> m i \<noteq> None"
  shows "records_between (block_records m) b j = records_between D b j"
  using assms by (intro records_between_cong) (fastforce simp: pending_ok_def block_records_def)

lemma pending_ok_add:
  assumes "pending_ok D start H m" "item_ok D start H item"
  shows "pending_ok D start H
    (\<lambda>j. if item_start item \<le> j \<and> j \<le> item_end item then Some (item_records item j) else m j)"
  using assms by (auto simp: pending_ok_def item_ok_def)

lemma sync_recv_inv:
  assumes "sync_inv holds last_block D start H (s, p)" "horizon_ok D start H" "datachan s \<noteq> []"
  shows "\<exists>s'. sync_recv s = Some s' \<and> sync_inv holds last_block D start H (s', p) \<and>
    datachan s' = tl (datachan s) \<and> curr_block s' = curr_block s \<and>
    (\<forall>j. (item_start (hd (datachan s)) \<le> j \<and> j \<le> item_end (hd (datachan s)) \<or> data_to_save s j \<noteq> None) \<longrightarrow>
      data_to_save s' j \<noteq> None)"
proof -
  from assms(3) obtain item "items" where c: "datachan s = item # items" by (cases "datachan s") auto
  with assms have i: "item_ok D start H item" by (simp add: sync_inv_def Let_def)
  then have "min_int \<le> item_start item" "item_end item < max_int"
    using assms(2) by (auto simp: item_ok_def horizon_ok_def min_int_def)
  from add_eq [OF this, of "s\<lparr>datachan := items\<rparr>"] c assms(1) i show ?thesis
    by (auto simp: sync_recv_def sync_inv_def Let_def GetCurrBlock_def intro!: pending_ok_add)
qed

lemma Add_inv:
  assumes "sync_inv holds last_block D start H (s, p)" "item_ok D start H item" "Add item s = Some s'"
  shows "sync_inv holds last_block D start H (s', p)"
  using assms by (auto simp: Add_def sync_inv_def Let_def GetCurrBlock_def split: if_splits)

section \<open>Ticks, from the contract of the persistor\<close>

context persistor_contract
begin

lemma save_inv:
  assumes inv: "sync_inv holds last_block D start H (s, p)" and hor: "horizon_ok D start H"
    and b: "b = GetCurrBlock s" "data_to_save s b \<noteq> None"
  obtains j where "b < j" "j \<le> H + 1" "data_to_save s j = None"
    "\<And>i. b \<le> i \<Longrightarrow> i < j \<Longrightarrow> data_to_save s i \<noteq> None"
    "save save_data (s, p) =
       Some (obind (save_data (number_from (int (length (records_between D start b)))
                                (records_between D b j)) (j - 1) p) (\<lambda>p'.
         Return (s\<lparr>curr_block := uint64_of_int j,
                   curr_index := uint64_of_int (int (length (records_between D start j))),
                   data_to_save := (\<lambda>i. if b \<le> i \<and> i < j then None else data_to_save s i)\<rparr>, p')))"
proof -
  from inv b(1) have start: "start \<le> b" "b \<le> H + 1"
    and k: "int_of_uint64 (curr_index s) = int (length (records_between D start b))"
    and ok: "pending_ok D start H (data_to_save s)"
    by (simp_all add: sync_inv_def Let_def)
  have none: "data_to_save s (H + 1) = None"
    using ok [unfolded pending_ok_def, rule_format, of "H + 1"]
    by (cases "data_to_save s (H + 1)") auto
  obtain j where j: "b \<le> j" "j \<le> H + 1" "data_to_save s j = None"
    and run: "\<And>i. b \<le> i \<Longrightarrow> i < j \<Longrightarrow> data_to_save s i \<noteq> None"
    using first_gap [OF start(2), of "data_to_save s"] none by auto
  then have bj: "b < j" using b(2) by (cases "b = j") auto
  have app: "records_between D start j = records_between D start b @ records_between D b j"
    using start bj by (intro records_between_append) simp_all
  have recs: "records_between (block_records (data_to_save s)) b j = records_between D b j"
    by (rule pending_ok_records [OF ok run])
  have bounds: "is_int64 b" "is_int64 j" "int (length (records_between D start j)) \<le> max_int"
    using horizon_bounds [OF hor start] horizon_bounds [OF hor _ j(2)] start bj by auto
  have "save save_data (s, p) =
       Some (obind (save_data (number_from (int (length (records_between D start b)))
                                (records_between D b j)) (j - 1) p) (\<lambda>p'.
         Return (s\<lparr>curr_block := uint64_of_int j,
                   curr_index := uint64_of_int (int (length (records_between D start b)) +
                                               int (length (records_between D b j))),
                   data_to_save := (\<lambda>i. if b \<le> i \<and> i < j then None else data_to_save s i)\<rparr>, p')))"
    by (rule save_eq) (use b(1) k run j(3) bj bounds recs app in \<open>simp_all add: GetCurrBlock_def min_int_def\<close>)
  with that [OF bj j(2,3) run] app show ?thesis by simp
qed

lemma sync_tick_inv:
  assumes inv: "sync_inv holds last_block D start H (s, p)" and hor: "horizon_ok D start H"
  obtains s' p' where "sync_tick save_data (s, p) = Some (Return (s', p'))"
    "sync_inv holds last_block D start H (s', p')" "datachan s' = datachan s"
    "GetCurrBlock s \<le> GetCurrBlock s'" "\<And>i. GetCurrBlock s' \<le> i \<Longrightarrow> data_to_save s' i = data_to_save s i"
proof (cases "data_to_save s (GetCurrBlock s)")
  case None
  then have "sync_tick save_data (s, p) = Some (Return (s, p))"
    by (simp add: sync_tick_def save_def GetCurrBlock_def Let_def)
  with inv that show ?thesis by blast
next
  case (Some data)
  define b where "b = GetCurrBlock s"
  with Some have some: "data_to_save s b \<noteq> None" by simp
  from inv b_def have start: "start \<le> b" and up: "saved_upto holds last_block D start b p"
    and ok: "pending_ok D start H (data_to_save s)"
    by (simp_all add: sync_inv_def Let_def)
  obtain j where j: "b < j" "j \<le> H + 1"
    and eq: "save save_data (s, p) =
       Some (obind (save_data (number_from (int (length (records_between D start b)))
                                (records_between D b j)) (j - 1) p) (\<lambda>p'.
         Return (s\<lparr>curr_block := uint64_of_int j,
                   curr_index := uint64_of_int (int (length (records_between D start j))),
                   data_to_save := (\<lambda>i. if b \<le> i \<and> i < j then None else data_to_save s i)\<rparr>, p')))"
    by (rule save_inv [OF inv hor b_def some])
  have holds: "holds p (records_between D start b)" using up by (simp add: saved_upto_def)
  show ?thesis
  proof (cases "save_data (number_from (int (length (records_between D start b))) (records_between D b j)) (j - 1) p")
    case (Return p')
    let ?s' = "s\<lparr>curr_block := uint64_of_int j,
                 curr_index := uint64_of_int (int (length (records_between D start j))),
                 data_to_save := (\<lambda>i. if b \<le> i \<and> i < j then None else data_to_save s i)\<rparr>"
    have app: "records_between D start j = records_between D start b @ records_between D b j"
      using start j by (intro records_between_append) simp_all
    have "GetCurrBlock ?s' = j"
      "int_of_uint64 (curr_index ?s') = int (length (records_between D start j))"
      using horizon_bounds [OF hor _ j(2)] start j
      by (simp_all add: GetCurrBlock_def go_arith min_int_def)
    moreover from this have "sync_inv holds last_block D start H (?s', p')"
      using save_appends [OF holds Return] inv start j ok
      by (simp add: sync_inv_def Let_def saved_upto_def app pending_ok_def)
    ultimately show ?thesis
      using that [of ?s' p'] eq Return j(1) b_def by (simp add: sync_tick_def)
  next
    case (Fail e)
    with that [of s p] eq inv show ?thesis by (simp add: sync_tick_def)
  next
    case (Panic msg)
    with save_no_Panic [OF holds] show ?thesis by blast
  qed
qed

text \<open>A tick that saves moves the next block past everything that was waiting in a row.\<close>

lemma sync_tick_progress:
  assumes inv: "sync_inv holds last_block D start H (s, p)" and hor: "horizon_ok D start H"
    and run: "\<And>i. GetCurrBlock s \<le> i \<Longrightarrow> i \<le> e \<Longrightarrow> data_to_save s i \<noteq> None"
    and e: "GetCurrBlock s \<le> e"
    and ok: "\<And>rs n e'. save_data rs n p \<noteq> Fail e'"
    and t: "sync_tick save_data (s, p) = Some (Return (s', p'))"
  shows "e < GetCurrBlock s'"
proof -
  have some: "data_to_save s (GetCurrBlock s) \<noteq> None" using run e by simp
  obtain j where j: "GetCurrBlock s < j" "j \<le> H + 1" "data_to_save s j = None"
    and eq: "save save_data (s, p) =
       Some (obind (save_data (number_from (int (length (records_between D start (GetCurrBlock s))))
                                (records_between D (GetCurrBlock s) j)) (j - 1) p) (\<lambda>p'.
         Return (s\<lparr>curr_block := uint64_of_int j,
                   curr_index := uint64_of_int (int (length (records_between D start j))),
                   data_to_save := (\<lambda>i. if GetCurrBlock s \<le> i \<and> i < j then None else data_to_save s i)\<rparr>, p')))"
    by (rule save_inv [OF inv hor refl some])
  have "e < j" using run [of j] j by (cases "j \<le> e") auto
  moreover have "start \<le> j" using inv j by (simp add: sync_inv_def Let_def)
  then have "is_int64 j" using horizon_bounds [OF hor _ j(2)] by simp
  then have "GetCurrBlock s' = j"
    using t eq ok
    by (auto simp: sync_tick_def obind_def GetCurrBlock_def go_arith min_int_def split: outcome.splits)
  ultimately show ?thesis by simp
qed

end

section \<open>Runs of the synchronizer\<close>

text \<open>
  The goroutine and the senders interleave: an item is sent, an item is taken from the
  channel, the timer ticks, in any order. \<open>allowed\<close> says which items are sent.
\<close>

inductive sync_step :: "(sync_struct \<Rightarrow> bool) \<Rightarrow> 'p saver \<Rightarrow> sync \<times> 'p \<Rightarrow> sync \<times> 'p \<Rightarrow> bool"
  for allowed :: "sync_struct \<Rightarrow> bool" and save_data :: "'p saver" where
  send: "allowed item \<Longrightarrow> Add item s = Some s' \<Longrightarrow> sync_step allowed save_data (s, p) (s', p)"
| recv: "sync_recv s = Some s' \<Longrightarrow> sync_step allowed save_data (s, p) (s', p)"
| tick: "sync_tick save_data sp = Some (Return sp') \<Longrightarrow> sync_step allowed save_data sp sp'"

abbreviation sync_run :: "(sync_struct \<Rightarrow> bool) \<Rightarrow> 'p saver \<Rightarrow> sync \<times> 'p \<Rightarrow> sync \<times> 'p \<Rightarrow> bool" where
  "sync_run allowed save_data \<equiv> (sync_step allowed save_data)\<^sup>*\<^sup>*"

lemma sync_recv_nonempty: "sync_recv s = Some s' \<Longrightarrow> datachan s \<noteq> []"
  by (auto simp: sync_recv_def)

lemma sync_inv_start:
  assumes "horizon_ok D start H" "holds p []"
  shows "sync_inv holds last_block D start H (start_sync start NewSynchronizer, p)"
proof -
  have "GetCurrBlock (start_sync start NewSynchronizer) = start"
    using horizon_bounds(1) [OF assms(1), of start] assms(1)
    by (simp add: start_sync_def NewSynchronizer_def GetCurrBlock_def go_arith horizon_ok_def)
  with assms show ?thesis
    by (simp add: sync_inv_def Let_def start_sync_def NewSynchronizer_def saved_upto_def pending_ok_def
        horizon_ok_def int_of_uint64_def)
qed

context persistor_contract
begin

lemma sync_step_inv:
  assumes "sync_step (item_ok D start H) save_data sp sp'" "horizon_ok D start H"
    and "sync_inv holds last_block D start H sp"
  shows "sync_inv holds last_block D start H sp'"
  using assms
proof (induction rule: sync_step.induct)
  case (send item s s' p)
  then show ?case by (blast intro: Add_inv)
next
  case (recv s s' p)
  with sync_recv_inv [of holds last_block D start H s p] show ?case
    by (auto dest: sync_recv_nonempty)
next
  case (tick sp sp')
  then show ?case by (cases sp) (auto elim: sync_tick_inv)
qed

lemma sync_run_inv:
  assumes "sync_run (item_ok D start H) save_data sp sp'" "horizon_ok D start H"
    and "sync_inv holds last_block D start H sp"
  shows "sync_inv holds last_block D start H sp'"
  using assms(1,3) by (induction rule: rtranclp_induct) (blast intro: sync_step_inv [OF _ assms(2)])+

end

section \<open>Properties\<close>

text \<open>Adding a fetched range ends, and afterwards every block of the range waits to be
  saved, with its records or with none, while all other blocks are as before.\<close>

theorem add_covers_range:
  assumes "min_int \<le> item_start item" and "item_end item < max_int"
  shows "\<exists>s'. add item s = Some s' \<and>
    (\<forall>i. data_to_save s' i =
       (if item_start item \<le> i \<and> i \<le> item_end item
        then Some (case item_data item i of None \<Rightarrow> [] | Some data \<Rightarrow> data) else data_to_save s i)) \<and>
    curr_block s' = curr_block s \<and> curr_index s' = curr_index s \<and> datachan s' = datachan s"
  by (simp add: add_eq [OF assms] item_records_def)

theorem add_covers_range_witness:
  "\<exists>s'. add \<lparr>item_start = 3, item_end = 5, item_data = [4 \<mapsto> [zero_data]]\<rparr> NewSynchronizer = Some s' \<and>
     data_to_save s' 3 = Some [] \<and> data_to_save s' 4 = Some [zero_data] \<and> data_to_save s' 6 = None"
  using add_covers_range [of "\<lparr>item_start = 3, item_end = 5, item_data = [4 \<mapsto> [zero_data]]\<rparr>" NewSynchronizer]
  by (force simp: min_int_def max_int_def NewSynchronizer_def)

text \<open>C18: if the next block is waiting, \<^verbatim>\<open>save\<close> hands the persistor one batch, the records
  of all blocks up to the first gap in block order under consecutive numbers, with the
  block before the gap as the last block; if the persistor accepts it, the synchronizer
  moves to the gap and forgets exactly the saved blocks, and if it returns an error
  nothing changes, so that the next tick saves the same batch again.\<close>

theorem save_batch:
  assumes "GetCurrBlock s = b" and "0 \<le> b" and "b < j" and "j \<le> max_int"
    and "\<And>i. b \<le> i \<Longrightarrow> i < j \<Longrightarrow> data_to_save s i \<noteq> None" and "data_to_save s j = None"
    and "rs = records_between (block_records (data_to_save s)) b j"
    and "int_of_uint64 (curr_index s) = k" and "0 \<le> k" and "k + int (length rs) \<le> max_int"
  shows "sync_tick save_data (s, p) = Some (case save_data (number_from k rs) (j - 1) p of
      Return p' \<Rightarrow> Return (s\<lparr>curr_block := uint64_of_int j,
                             curr_index := uint64_of_int (k + int (length rs)),
                             data_to_save := (\<lambda>i. if b \<le> i \<and> i < j then None else data_to_save s i)\<rparr>, p')
    | Fail e \<Rightarrow> Return (s, p)
    | Panic msg \<Rightarrow> Panic msg)"
proof -
  have "min_int \<le> b" "min_int \<le> k" using assms(2,9) by (simp_all add: min_int_def)
  note saved = save_eq [OF assms(1)[unfolded GetCurrBlock_def] assms(8) assms(5,6) this(1) assms(3,4) this(2) assms(7,10), of save_data p]
  show ?thesis
    by (cases "save_data (number_from k rs) (j - 1) p") (simp_all add: sync_tick_def saved)
qed

theorem save_batch_witness:
  "\<exists>s'. sync_tick (\<lambda>rs n p. Return (rs, n))
     (NewSynchronizer\<lparr>data_to_save := [0 \<mapsto> [zero_data, zero_data], 1 \<mapsto> [], 2 \<mapsto> [zero_data]]\<rparr>, ([], 0)) =
     Some (Return (s', (number_from 0 [zero_data, zero_data, zero_data], 2))) \<and> GetCurrBlock s' = 3"
proof -
  let ?s = "NewSynchronizer\<lparr>data_to_save := [0 \<mapsto> [zero_data, zero_data], 1 \<mapsto> [], 2 \<mapsto> [zero_data]]\<rparr>"
  have i: "i = 0 \<or> i = 1 \<or> i = 2" if "0 \<le> i" "i < 3" for i :: int using that by auto
  have "records_between (block_records (data_to_save ?s)) 0 3 = [zero_data, zero_data, zero_data]"
    by (simp add: records_between_def upto.simps block_records_def)
  moreover have "GetCurrBlock ?s = 0" "int_of_uint64 (curr_index ?s) = 0"
    by (simp_all add: NewSynchronizer_def GetCurrBlock_def int_of_uint64_def)
  moreover have "data_to_save ?s i \<noteq> None" if "0 \<le> i" "i < 3" for i :: int
    using i [OF that] by auto
  moreover have "GetCurrBlock (?s\<lparr>curr_block := uint64_of_int 3, curr_index := u, data_to_save := m\<rparr>) = 3" for u m
    by (simp add: GetCurrBlock_def go_arith min_int_def max_int_def)
  ultimately show ?thesis
    using save_batch [of ?s 0 3 "[zero_data, zero_data, zero_data]" 0 "\<lambda>rs n p. Return (rs, n)" "([], 0)"]
    by (simp add: NewSynchronizer_def max_int_def)
qed

text \<open>Whatever the order in which correct fetch results are sent, received and saved,
  every state the synchronizer reaches has exactly the records of the blocks before its
  current block in the database, in block order and numbered from 0, with the block
  before the current one as the last saved block, and its next record number is their
  count.\<close>

theorem sync_run_saved:
  assumes "bolt_store B view" and "horizon_ok D start H" and "holds_records view G db []"
    and "sync_run (item_ok D start H) (SaveData B G) (start_sync start NewSynchronizer, db) (s, db')"
  shows "start \<le> GetCurrBlock s \<and> GetCurrBlock s \<le> H + 1 \<and>
    holds_records view G db' (records_between D start (GetCurrBlock s)) \<and>
    (start < GetCurrBlock s \<longrightarrow> last_block_saved view db' (GetCurrBlock s - 1)) \<and>
    int_of_uint64 (curr_index s) = int (length (records_between D start (GetCurrBlock s)))"
  using persistor_contract.sync_run_inv [OF bolt_store.saving_contract [OF assms(1)] assms(4,2)
      sync_inv_start [where holds = "holds_records view G", OF assms(2,3)]]
  by (simp add: sync_inv_def Let_def saved_upto_def)

definition ref_chain :: "int \<Rightarrow> indexed_data list" where
  "ref_chain i = (if i = 3 then [zero_data] else [])"

lemma ref_chain_horizon: "horizon_ok ref_chain 3 4"
  by (simp add: horizon_ok_def records_between_def upto.simps ref_chain_def max_int_def)

lemma ref_chain_run:
  obtains s db' where "sync_run (item_ok ref_chain 3 4) (SaveData ref_bolt ref_types)
    (start_sync 3 NewSynchronizer, ref_empty) (s, db')" "GetCurrBlock s = 5"
proof -
  define item where "item = \<lparr>item_start = 3, item_end = 4, item_data = [3 \<mapsto> [zero_data]]\<rparr>"
  define s0 where "s0 = start_sync 3 NewSynchronizer"
  define s1 where "s1 = s0\<lparr>datachan := [item]\<rparr>"
  define s2 where "s2 = s0\<lparr>data_to_save :=
    (\<lambda>j. if 3 \<le> j \<and> j \<le> 4 then Some (item_records item j) else None)\<rparr>"
  have ok: "item_ok ref_chain 3 4 item"
    by (auto simp: item_ok_def item_def item_records_def ref_chain_def)
  have send: "Add item s0 = Some s1"
    by (simp add: Add_def s0_def s1_def start_sync_def NewSynchronizer_def datachan_capacity_def)
  have recv: "sync_recv s1 = Some s2"
    using add_eq [of item "s1\<lparr>datachan := []\<rparr>"]
    by (simp add: sync_recv_def s1_def s2_def item_def s0_def start_sync_def NewSynchronizer_def
        min_int_def max_int_def cong: if_cong)
  have rs: "[zero_data] = records_between (block_records (data_to_save s2)) 3 5"
    by (simp add: records_between_def upto.simps block_records_def s2_def item_records_def item_def)
  have cb: "GetCurrBlock s2 = 3" "int_of_uint64 (curr_index s2) = 0"
    by (simp_all add: s2_def s0_def start_sync_def NewSynchronizer_def GetCurrBlock_def go_arith
        min_int_def max_int_def int_of_uint64_def uint64_of_int_def)
  obtain db' where db': "SaveData ref_bolt ref_types (number_from 0 [zero_data]) 4 ref_empty = Return db'"
    by (simp add: SaveData_def ref_bolt_def ref_empty_def put_in_def)
  obtain s3 where "sync_tick (SaveData ref_bolt ref_types) (s2, ref_empty) = Some (Return (s3, db'))"
    and "GetCurrBlock s3 = 5"
    using save_batch [OF cb(1) _ _ _ _ _ rs cb(2), of "SaveData ref_bolt ref_types" ref_empty] db'
    by (simp add: s2_def max_int_def min_int_def GetCurrBlock_def go_arith)
  then show ?thesis
    using that ok send recv unfolding s0_def [symmetric]
    by (meson rtranclp.rtrancl_into_rtrancl rtranclp.rtrancl_refl sync_step.intros)
qed

theorem sync_run_saved_witness:
  "\<exists>s db'. GetCurrBlock s = 5 \<and> holds_records ref_view ref_types db' (records_between ref_chain 3 5)"
proof -
  obtain s db' where run: "sync_run (item_ok ref_chain 3 4) (SaveData ref_bolt ref_types)
    (start_sync 3 NewSynchronizer, ref_empty) (s, db')" "GetCurrBlock s = 5"
    by (rule ref_chain_run)
  from sync_run_saved [OF ref.bolt_store_axioms ref_chain_horizon holds_records_ref_empty run(1)] run(2)
  show ?thesis by auto
qed

end
