(* ===== verification/Go_Strings.thy ===== *)
theory Go_Strings
  imports Go_Prelude
begin

text \<open>
  The functions of Go's \<^verbatim>\<open>strconv\<close> and \<^verbatim>\<open>strings\<close> packages that the indexer calls:
  \<^verbatim>\<open>ParseInt\<close> in base 10, \<^verbatim>\<open>Atoi\<close>, \<^verbatim>\<open>Itoa\<close>, \<^verbatim>\<open>Split\<close>, \<^verbatim>\<open>HasPrefix\<close>, \<^verbatim>\<open>HasSuffix\<close>
  and \<^verbatim>\<open>ToLower\<close>. The lemmas: printing an integer and parsing it back is the identity
  on 64-bit integers, and the fields of a split joined by the separator are the string.
\<close>

section \<open>Decimal integers\<close>

datatype num_error = ErrSyntax | ErrRange

definition digit_value :: "char \<Rightarrow> nat option" where
  "digit_value c =
     (if CHR ''0'' \<le> c \<and> c \<le> CHR ''9'' then Some (of_char c - 48) else None)"

text \<open>\<^verbatim>\<open>ParseUint(s, 10, 64)\<close> after the empty string is excluded: digits are read from
  the left, and the first invalid digit or the first overflow decides the error.\<close>

fun parse_digits :: "nat \<Rightarrow> string \<Rightarrow> nat \<times> num_error option" where
  "parse_digits n [] = (n, None)"
| "parse_digits n (c # cs) =
     (case digit_value c of
        None \<Rightarrow> (0, Some ErrSyntax)
      | Some d \<Rightarrow>
          if 2 ^ 64 \<le> 10 * n + d then (2 ^ 64 - 1, Some ErrRange)
          else parse_digits (10 * n + d) cs)"

definition ParseUint :: "string \<Rightarrow> nat \<times> num_error option" where
  "ParseUint s = (if s = [] then (0, Some ErrSyntax) else parse_digits 0 s)"

definition ParseInt :: "string \<Rightarrow> int \<times> num_error option" where
  "ParseInt s =
     (case s of
        [] \<Rightarrow> (0, Some ErrSyntax)
      | c # cs \<Rightarrow>
          (let neg = (c = CHR ''-'');
               digits = (if c = CHR ''-'' \<or> c = CHR ''+'' then cs else s)
           in case ParseUint digits of
                (_, Some ErrSyntax) \<Rightarrow> (0, Some ErrSyntax)
              | (un, _) \<Rightarrow>
                  if \<not> neg \<and> 2 ^ 63 \<le> un then (max_int, Some ErrRange)
                  else if neg \<and> 2 ^ 63 < un then (min_int, Some ErrRange)
                  else (if neg then - int un else int un, None)))"

text \<open>\<^verbatim>\<open>Atoi\<close> returns what \<^verbatim>\<open>ParseInt(s, 10, 0)\<close> returns; on short strings it takes a
  shortcut with the same result.\<close>

definition Atoi :: "string \<Rightarrow> int \<times> num_error option" where
  "Atoi s = ParseInt s"

fun nat_digits :: "nat \<Rightarrow> string" where
  "nat_digits n =
     (if n < 10 then [char_of (48 + n)] else nat_digits (n div 10) @ [char_of (48 + n mod 10)])"

declare nat_digits.simps [simp del]

definition Itoa :: "int \<Rightarrow> string" where
  "Itoa n = (if n < 0 then CHR ''-'' # nat_digits (nat (- n)) else nat_digits (nat n))"

lemma digit_value_char_of [simp]: "d < 10 \<Longrightarrow> digit_value (char_of (48 + d)) = Some d"
  by (simp add: digit_value_def less_eq_char_def)

lemma parse_digits_append:
  "parse_digits n (xs @ ys) =
     (case parse_digits n xs of (m, None) \<Rightarrow> parse_digits m ys | r \<Rightarrow> r)"
  by (induction xs arbitrary: n) (simp_all split: option.split)

lemma parse_digits_nat_digits: "n < 2 ^ 64 \<Longrightarrow> parse_digits 0 (nat_digits n) = (n, None)"
proof (induction n rule: nat_digits.induct)
  case (1 n)
  show ?case
  proof (cases "n < 10")
    case True
    then show ?thesis by (subst nat_digits.simps) simp
  next
    case False
    have d: "n mod 10 < 10" by simp
    have "parse_digits 0 (nat_digits (n div 10)) = (n div 10, None)"
      using 1 False by simp
    moreover have "10 * (n div 10) + n mod 10 = n" by simp
    ultimately show ?thesis
      using False 1 digit_value_char_of [OF d]
      by (subst nat_digits.simps) (simp add: parse_digits_append)
  qed
qed

lemma nat_digits_nonempty [simp]: "nat_digits n \<noteq> []"
  by (subst nat_digits.simps) simp

lemma set_nat_digits: "c \<in> set (nat_digits n) \<Longrightarrow> CHR ''0'' \<le> c \<and> c \<le> CHR ''9''"
proof (induction n rule: nat_digits.induct)
  case (1 n)
  have d: "CHR ''0'' \<le> char_of (48 + k) \<and> (char_of (48 + k) :: char) \<le> CHR ''9''" if "k < 10" for k :: nat
    using that by (simp add: less_eq_char_def)
  show ?case
  proof (cases "n < 10")
    case True
    with 1(2) d show ?thesis by (auto simp: nat_digits.simps [of n])
  next
    case False
    with 1 d [of "n mod 10"] show ?thesis by (auto simp: nat_digits.simps [of n])
  qed
qed

lemma ParseUint_nat_digits: "n < 2 ^ 64 \<Longrightarrow> ParseUint (nat_digits n) = (n, None)"
  by (simp add: ParseUint_def parse_digits_nat_digits)

lemma nat_digits_unsigned:
  "nat_digits n = c # cs \<Longrightarrow> c \<noteq> CHR ''-'' \<and> c \<noteq> CHR ''+''"
  using set_nat_digits [of c n] by (auto simp: less_eq_char_def)

lemma ParseInt_Itoa:
  assumes "is_int64 n"
  shows "ParseInt (Itoa n) = (n, None)"
proof (cases "n < 0")
  case True
  with assms have "nat (- n) \<le> 2 ^ 63" by (simp add: min_int_def nat_le_iff)
  moreover from this have "nat (- n) < 2 ^ 64" by simp
  ultimately show ?thesis
    using True by (simp add: Itoa_def ParseInt_def ParseUint_nat_digits)
next
  case False
  obtain c cs where c: "nat_digits (nat n) = c # cs"
    by (cases "nat_digits (nat n)") simp_all
  from False assms have "nat n < 2 ^ 63" by (simp add: max_int_def nat_less_iff)
  moreover from this have "nat n < 2 ^ 64" by simp
  ultimately show ?thesis
    using False c nat_digits_unsigned [OF c] ParseUint_nat_digits [of "nat n"]
    by (simp add: Itoa_def ParseInt_def)
qed

lemma ParseInt_range: "ParseInt s = (n, e) \<Longrightarrow> is_int64 n"
  by (auto simp: ParseInt_def Let_def max_int_def min_int_def split: list.splits prod.splits option.splits
      num_error.splits if_splits)

section \<open>Strings\<close>

definition HasPrefix :: "string \<Rightarrow> string \<Rightarrow> bool" where
  "HasPrefix s p \<longleftrightarrow> take (length p) s = p"

definition HasSuffix :: "string \<Rightarrow> string \<Rightarrow> bool" where
  "HasSuffix s p \<longleftrightarrow> length p \<le> length s \<and> drop (length s - length p) s = p"

text \<open>\<^verbatim>\<open>ToLower\<close> on ASCII text, such as the hexadecimal form of an address.\<close>

definition char_lower :: "char \<Rightarrow> char" where
  "char_lower c = (if CHR ''A'' \<le> c \<and> c \<le> CHR ''Z'' then char_of (of_char c + 32 :: nat) else c)"

definition ToLower :: "string \<Rightarrow> string" where
  "ToLower s = map char_lower s"

lemma char_lower_idem: "char_lower (char_lower c) = char_lower c"
proof (cases "CHR ''A'' \<le> c \<and> c \<le> CHR ''Z''")
  case True
  then have "of_char c \<le> (90 :: nat)" "(65 :: nat) \<le> of_char c" by (simp_all add: less_eq_char_def)
  then have "of_char (char_of (of_char c + 32 :: nat)) = (of_char c + 32 :: nat)" by simp
  with \<open>65 \<le> of_char c\<close> True show ?thesis by (simp add: char_lower_def less_eq_char_def)
qed (auto simp: char_lower_def)

lemma ToLower_idem: "ToLower (ToLower s) = ToLower s"
  by (simp add: ToLower_def char_lower_idem)

text \<open>\<open>cut sep s\<close> splits \<open>s\<close> around the first occurrence of \<open>sep\<close>.\<close>

fun cut :: "string \<Rightarrow> string \<Rightarrow> (string \<times> string) option" where
  "cut sep [] = None"
| "cut sep (c # cs) =
     (if HasPrefix (c # cs) sep then Some ([], drop (length sep) (c # cs))
      else map_option (\<lambda>(a, b). (c # a, b)) (cut sep cs))"

lemma HasPrefix_append: "HasPrefix s p \<longleftrightarrow> (\<exists>t. s = p @ t)"
  by (metis HasPrefix_def append_eq_conv_conj)

lemma cut_Some: "cut sep s = Some (a, b) \<Longrightarrow> s = a @ sep @ b"
  by (induction s arbitrary: a) (auto simp: HasPrefix_append split: if_splits)

text \<open>\<^verbatim>\<open>Split\<close>; an empty separator takes ASCII text apart into its characters.\<close>

function Split :: "string \<Rightarrow> string \<Rightarrow> string list" where
  "Split s sep =
     (if sep = [] then map (\<lambda>c. [c]) s
      else case cut sep s of None \<Rightarrow> [s] | Some (a, b) \<Rightarrow> a # Split b sep)"
  by pat_completeness auto
termination
  by (relation "measure (\<lambda>(s, _). length s)") (auto dest: cut_Some)

declare Split.simps [simp del]

fun join :: "string \<Rightarrow> string list \<Rightarrow> string" where
  "join sep [] = []"
| "join sep [x] = x"
| "join sep (x # y # ys) = x @ sep @ join sep (y # ys)"

lemma Split_nonempty: "sep \<noteq> [] \<Longrightarrow> Split s sep \<noteq> []"
  by (subst Split.simps) (simp split: option.split)

lemma join_Split:
  assumes "sep \<noteq> []"
  shows "join sep (Split s sep) = s"
  using assms
proof (induction s sep rule: Split.induct)
  case (1 s sep)
  show ?case
  proof (cases "cut sep s")
    case None
    with 1 show ?thesis by (subst Split.simps) simp
  next
    case (Some p)
    obtain a b where p: "p = (a, b)" by (cases p)
    from Some p 1 have "join sep (Split b sep) = b" by simp
    moreover obtain y ys where "Split b sep = y # ys"
      using Split_nonempty [OF 1(2), of b] by (cases "Split b sep") auto
    ultimately show ?thesis
      using 1(2) Some p cut_Some [of sep s a b] by (subst Split.simps) simp
  qed
qed

end
