(* ===== verification/Json_Decode.thy ===== *)
theory Json_Decode
  imports Go_Strings
begin

text \<open>
  What the indexer uses of Go's \<^verbatim>\<open>encoding/json\<close>: reading a JSON text, and decoding it
  into the two structs of \<^verbatim>\<open>balancer/error_code.go\<close>, \<^verbatim>\<open>JsonError\<close> and \<^verbatim>\<open>JsonResponse\<close>.
  As in the package, a text is checked as a whole before anything is decoded, a field name
  matches a key up to case, a repeated key is decoded again into the same field, \<^verbatim>\<open>null\<close>
  leaves a field as it is, and a value of the wrong type makes the call return an error.

  Each reader returns what it read and the rest of the text. The guards on the length of
  the rest in \<open>json_value\<close> always hold; they make the recursion well-founded.
\<close>

section \<open>Reading a text\<close>

datatype json =
    JNull
  | JBool bool
  | JNum string
  | JStr string
  | JArr "json list"
  | JObj "(string \<times> json) list"

definition is_space :: "char \<Rightarrow> bool" where
  "is_space c \<longleftrightarrow> c = CHR '' '' \<or> c = CHR 0x09 \<or> c = CHR 0x0A \<or> c = CHR 0x0D"

definition skip_space :: "string \<Rightarrow> string" where
  "skip_space s = dropWhile is_space s"

definition is_digit :: "char \<Rightarrow> bool" where
  "is_digit c \<longleftrightarrow> CHR ''0'' \<le> c \<and> c \<le> CHR ''9''"

definition hex_value :: "char \<Rightarrow> nat option" where
  "hex_value c =
     (if is_digit c then Some (of_char c - 48)
      else if CHR ''a'' \<le> c \<and> c \<le> CHR ''f'' then Some (of_char c - 87)
      else if CHR ''A'' \<le> c \<and> c \<le> CHR ''F'' then Some (of_char c - 55)
      else None)"

definition hex4 :: "char \<Rightarrow> char \<Rightarrow> char \<Rightarrow> char \<Rightarrow> nat option" where
  "hex4 a b c d =
     (case (hex_value a, hex_value b, hex_value c, hex_value d) of
        (Some p, Some q, Some r, Some s) \<Rightarrow> Some (4096 * p + 256 * q + 16 * r + s)
      | _ \<Rightarrow> None)"

text \<open>The UTF-8 form of a code point; a lone surrogate becomes the replacement character.\<close>

definition utf8 :: "nat \<Rightarrow> string" where
  "utf8 n =
     (if n < 128 then [char_of n]
      else if n < 2048 then [char_of (192 + n div 64), char_of (128 + n mod 64)]
      else if 55296 \<le> n \<and> n < 57344 then [CHR 0xEF, CHR 0xBF, CHR 0xBD]
      else if n < 65536 then [char_of (224 + n div 4096), char_of (128 + n div 64 mod 64), char_of (128 + n mod 64)]
      else [char_of (240 + n div 262144), char_of (128 + n div 4096 mod 64),
            char_of (128 + n div 64 mod 64), char_of (128 + n mod 64)])"

definition is_high_surrogate :: "nat \<Rightarrow> bool" where
  "is_high_surrogate n \<longleftrightarrow> 55296 \<le> n \<and> n < 56320"

definition is_low_surrogate :: "nat \<Rightarrow> bool" where
  "is_low_surrogate n \<longleftrightarrow> 56320 \<le> n \<and> n < 57344"

definition escape_char :: "char \<Rightarrow> char option" where
  "escape_char c =
     (if c \<in> {CHR 0x22, CHR 0x5C, CHR ''/''} then Some c
      else if c = CHR ''b'' then Some (CHR 0x08)
      else if c = CHR ''f'' then Some (CHR 0x0C)
      else if c = CHR ''n'' then Some (CHR 0x0A)
      else if c = CHR ''r'' then Some (CHR 0x0D)
      else if c = CHR ''t'' then Some (CHR 0x09)
      else None)"

text \<open>The pieces of a string literal after its opening quote: bytes and \<^verbatim>\<open>\uXXXX\<close> units.\<close>

datatype string_piece = Byte char | Unit nat

fun string_pieces :: "string \<Rightarrow> (string_piece list \<times> string) option" where
  "string_pieces [] = None"
| "string_pieces (c # cs) =
     (if c = CHR 0x22 then Some ([], cs)
      else if c = CHR 0x5C then
        (case cs of
           e # ds \<Rightarrow>
             if e = CHR ''u'' then
               (case ds of
                  p # q # r # t # rest \<Rightarrow>
                    (case hex4 p q r t of
                       None \<Rightarrow> None
                     | Some n \<Rightarrow> map_option (\<lambda>(x, y). (Unit n # x, y)) (string_pieces rest))
                | _ \<Rightarrow> None)
             else (case escape_char e of
                     None \<Rightarrow> None
                   | Some x \<Rightarrow> map_option (\<lambda>(xs, y). (Byte x # xs, y)) (string_pieces ds))
         | [] \<Rightarrow> None)
      else if of_char c < (32 :: nat) then None
      else map_option (\<lambda>(x, y). (Byte c # x, y)) (string_pieces cs))"

fun join_pieces :: "string_piece list \<Rightarrow> string" where
  "join_pieces [] = []"
| "join_pieces (Byte c # ps) = c # join_pieces ps"
| "join_pieces (Unit n # Unit m # ps) =
     (if is_high_surrogate n \<and> is_low_surrogate m
      then utf8 (65536 + (n - 55296) * 1024 + (m - 56320)) @ join_pieces ps
      else utf8 n @ join_pieces (Unit m # ps))"
| "join_pieces (Unit n # ps) = utf8 n @ join_pieces ps"

definition json_string :: "string \<Rightarrow> (string \<times> string) option" where
  "json_string s = map_option (\<lambda>(ps, rest). (join_pieces ps, rest)) (string_pieces s)"

text \<open>A number literal, the longest one; its parts are the sign, the integer, the fraction
  and the exponent.\<close>

definition digits_of :: "string \<Rightarrow> string \<times> string" where
  "digits_of s = (takeWhile is_digit s, dropWhile is_digit s)"

definition json_fraction :: "string \<Rightarrow> (string \<times> string) option" where
  "json_fraction s =
     (case s of
        c # cs \<Rightarrow>
          if c = CHR ''.'' then
            (let (ds, rest) = digits_of cs in if ds = [] then None else Some (c # ds, rest))
          else Some ([], s)
      | [] \<Rightarrow> Some ([], s))"

definition json_exponent :: "string \<Rightarrow> (string \<times> string) option" where
  "json_exponent s =
     (case s of
        c # cs \<Rightarrow>
          if c = CHR ''e'' \<or> c = CHR ''E'' then
            (let sign = (case cs of d # _ \<Rightarrow> if d = CHR ''+'' \<or> d = CHR ''-'' then [d] else [] | [] \<Rightarrow> []);
                 (ds, rest) = digits_of (drop (length sign) cs)
             in if ds = [] then None else Some (c # sign @ ds, rest))
          else Some ([], s)
      | [] \<Rightarrow> Some ([], s))"

definition json_integer :: "string \<Rightarrow> string \<times> string" where
  "json_integer s = (if HasPrefix s ''0'' then (''0'', tl s) else digits_of s)"

definition json_number :: "string \<Rightarrow> (string \<times> string) option" where
  "json_number s =
     (let sign = (if HasPrefix s ''-'' then ''-'' else []);
          s1 = drop (length sign) s;
          (ds, s2) = json_integer s1
      in if ds = [] then None
         else case json_fraction s2 of
           None \<Rightarrow> None
         | Some (fr, s3) \<Rightarrow>
             (case json_exponent s3 of
                None \<Rightarrow> None
              | Some (ex, s4) \<Rightarrow> Some (sign @ ds @ fr @ ex, s4)))"

definition max_nesting :: nat where
  "max_nesting = 10000"

lemma length_skip_space: "length (skip_space s) \<le> length s"
  by (simp add: skip_space_def length_dropWhile_le)

lemma skip_space_Cons: "skip_space s = c # cs \<Longrightarrow> length cs < length s"
  using length_skip_space [of s] by simp

text \<open>
  \<open>json_value\<close> reads a value, \<open>json_elems\<close> the elements of an array after its bracket and
  \<open>json_members\<close> the members of an object after its brace; \<open>d\<close> is the number of arrays
  and objects that are open.
\<close>

function json_value :: "nat \<Rightarrow> string \<Rightarrow> (json \<times> string) option"
  and json_elems :: "nat \<Rightarrow> string \<Rightarrow> (json list \<times> string) option"
  and json_members :: "nat \<Rightarrow> string \<Rightarrow> ((string \<times> json) list \<times> string) option" where
  "json_value d s0 =
     (case skip_space s0 of
        [] \<Rightarrow> None
      | c # cs \<Rightarrow>
          if c = CHR ''['' then
            (if max_nesting \<le> d then None
             else if HasPrefix (skip_space cs) '']'' then Some (JArr [], tl (skip_space cs))
             else map_option (\<lambda>(vs, rest). (JArr vs, rest)) (json_elems (Suc d) cs))
          else if c = CHR ''{'' then
            (if max_nesting \<le> d then None
             else if HasPrefix (skip_space cs) ''}'' then Some (JObj [], tl (skip_space cs))
             else map_option (\<lambda>(ms, rest). (JObj ms, rest)) (json_members (Suc d) cs))
          else if c = CHR 0x22 then map_option (\<lambda>(x, rest). (JStr x, rest)) (json_string cs)
          else if HasPrefix (c # cs) ''null'' then Some (JNull, drop 4 (c # cs))
          else if HasPrefix (c # cs) ''true'' then Some (JBool True, drop 4 (c # cs))
          else if HasPrefix (c # cs) ''false'' then Some (JBool False, drop 5 (c # cs))
          else map_option (\<lambda>(x, rest). (JNum x, rest)) (json_number (c # cs)))"
| "json_elems d s =
     (case json_value d s of
        None \<Rightarrow> None
      | Some (v, rest) \<Rightarrow>
          if length (skip_space rest) < length s then
            (case skip_space rest of
               c # cs \<Rightarrow>
                 if c = CHR '']'' then Some ([v], cs)
                 else if c = CHR '','' then map_option (\<lambda>(vs, r). (v # vs, r)) (json_elems d cs)
                 else None
             | [] \<Rightarrow> None)
          else None)"
| "json_members d s =
     (case skip_space s of
        [] \<Rightarrow> None
      | q # qs \<Rightarrow>
          if q \<noteq> CHR 0x22 then None
          else case json_string qs of
            None \<Rightarrow> None
          | Some (key, r1) \<Rightarrow>
              if \<not> (HasPrefix (skip_space r1) '':'' \<and> length (skip_space r1) < length s) then None
              else case json_value d (tl (skip_space r1)) of
                None \<Rightarrow> None
              | Some (v, r2) \<Rightarrow>
                  if length (skip_space r2) < length s then
                    (case skip_space r2 of
                       c # cs \<Rightarrow>
                         if c = CHR ''}'' then Some ([(key, v)], cs)
                         else if c = CHR '','' then
                           map_option (\<lambda>(ms, r). ((key, v) # ms, r)) (json_members d cs)
                         else None
                     | [] \<Rightarrow> None)
                  else None)"
  by pat_completeness auto

termination
  by (relation "measure (\<lambda>x. case x of Inl (d, s) \<Rightarrow> 2 * length s
        | Inr (Inl (d, s)) \<Rightarrow> 2 * length s + 1 | Inr (Inr (d, s)) \<Rightarrow> 2 * length s + 1)")
    (auto dest!: skip_space_Cons)

declare json_value.simps [simp del] json_elems.simps [simp del] json_members.simps [simp del]

definition json_parse :: "string \<Rightarrow> json option" where
  "json_parse s =
     (case json_value 0 s of
        None \<Rightarrow> None
      | Some (v, rest) \<Rightarrow> if skip_space rest = [] then Some v else None)"

section \<open>Decoding into the structs\<close>

record JsonError =
  je_code :: int
  je_message :: string
  je_data :: json

record JsonResponse =
  jr_jsonrpc :: string
  jr_id :: int
  jr_error :: JsonError

definition zero_JsonError :: JsonError where
  "zero_JsonError = \<lparr>je_code = 0, je_message = [], je_data = JNull\<rparr>"

definition zero_JsonResponse :: JsonResponse where
  "zero_JsonResponse = \<lparr>jr_jsonrpc = [], jr_id = 0, jr_error = zero_JsonError\<rparr>"

text \<open>Field names match up to case; the two non-ASCII letters that fold to ASCII ones,
  the long s and the Kelvin sign, are folded as well.\<close>

fun fold_name :: "string \<Rightarrow> string" where
  "fold_name [] = []"
| "fold_name (c # cs) =
     (if HasPrefix (c # cs) [CHR 0xC5, CHR 0xBF] then CHR ''s'' # fold_name (drop 1 cs)
      else if HasPrefix (c # cs) [CHR 0xE2, CHR 0x84, CHR 0xAA] then CHR ''k'' # fold_name (drop 2 cs)
      else char_lower c # fold_name cs)"

definition decode_int :: "json \<Rightarrow> int \<Rightarrow> int option" where
  "decode_int v old =
     (case v of
        JNull \<Rightarrow> Some old
      | JNum lit \<Rightarrow> (case ParseInt lit of (n, None) \<Rightarrow> Some n | (_, Some err) \<Rightarrow> None)
      | _ \<Rightarrow> None)"

definition decode_string :: "json \<Rightarrow> string \<Rightarrow> string option" where
  "decode_string v old =
     (case v of JNull \<Rightarrow> Some old | JStr x \<Rightarrow> Some x | _ \<Rightarrow> None)"

text \<open>Members in order, each decoded into the field it names; a failure anywhere fails
  the call.\<close>

fun decode_members :: "(string \<Rightarrow> json \<Rightarrow> 's \<Rightarrow> 's option) \<Rightarrow> (string \<times> json) list \<Rightarrow> 's \<Rightarrow> 's option" where
  "decode_members f [] r = Some r"
| "decode_members f ((key, v) # ms) r = Option.bind (f (fold_name key) v r) (decode_members f ms)"

definition error_field :: "string \<Rightarrow> json \<Rightarrow> JsonError \<Rightarrow> JsonError option" where
  "error_field name v r =
     (if name = ''code'' then map_option (\<lambda>n. r\<lparr>je_code := n\<rparr>) (decode_int v (je_code r))
      else if name = ''message'' then map_option (\<lambda>x. r\<lparr>je_message := x\<rparr>) (decode_string v (je_message r))
      else if name = ''data'' then Some (r\<lparr>je_data := v\<rparr>)
      else Some r)"

definition decode_JsonError :: "json \<Rightarrow> JsonError \<Rightarrow> JsonError option" where
  "decode_JsonError v r =
     (case v of
        JNull \<Rightarrow> Some r
      | JObj ms \<Rightarrow> decode_members error_field ms r
      | _ \<Rightarrow> None)"

definition response_field :: "string \<Rightarrow> json \<Rightarrow> JsonResponse \<Rightarrow> JsonResponse option" where
  "response_field name v r =
     (if name = ''jsonrpc'' then map_option (\<lambda>x. r\<lparr>jr_jsonrpc := x\<rparr>) (decode_string v (jr_jsonrpc r))
      else if name = ''id'' then map_option (\<lambda>n. r\<lparr>jr_id := n\<rparr>) (decode_int v (jr_id r))
      else if name = ''error'' then map_option (\<lambda>e. r\<lparr>jr_error := e\<rparr>) (decode_JsonError v (jr_error r))
      else Some r)"

definition decode_JsonResponse :: "json \<Rightarrow> JsonResponse \<Rightarrow> JsonResponse option" where
  "decode_JsonResponse v r =
     (case v of
        JNull \<Rightarrow> Some r
      | JObj ms \<Rightarrow> decode_members response_field ms r
      | _ \<Rightarrow> None)"

fun decode_responses :: "json list \<Rightarrow> JsonResponse list option" where
  "decode_responses [] = Some []"
| "decode_responses (v # vs) =
     Option.bind (decode_JsonResponse v zero_JsonResponse) (\<lambda>r.
       map_option ((#) r) (decode_responses vs))"

definition unmarshal_JsonError :: "string \<Rightarrow> JsonError option" where
  "unmarshal_JsonError text =
     Option.bind (json_parse text) (\<lambda>v. decode_JsonError v zero_JsonError)"

definition unmarshal_JsonResponses :: "string \<Rightarrow> JsonResponse list option" where
  "unmarshal_JsonResponses text =
     Option.bind (json_parse text) (\<lambda>v.
       case v of JNull \<Rightarrow> Some [] | JArr vs \<Rightarrow> decode_responses vs | _ \<Rightarrow> None)"

section \<open>The guards hold\<close>

lemma string_pieces_shorter: "string_pieces s = Some (ps, rest) \<Longrightarrow> length rest < length s"
proof (induction s arbitrary: ps rule: string_pieces.induct)
  case (2 c cs)
  then show ?case
    by (fastforce split: if_splits list.splits option.splits)
qed simp

lemma json_string_shorter: "json_string s = Some (x, rest) \<Longrightarrow> length rest < length s"
  by (auto simp: json_string_def dest: string_pieces_shorter)

lemma digits_of_shorter: "digits_of s = (ds, rest) \<Longrightarrow> length rest + length ds = length s"
  by (auto simp: digits_of_def) (metis add.commute length_append takeWhile_dropWhile_id)

lemma json_fraction_shorter: "json_fraction s = Some (x, rest) \<Longrightarrow> length rest \<le> length s"
  by (auto simp: json_fraction_def Let_def split: list.splits if_splits prod.splits dest!: digits_of_shorter)

lemma json_exponent_shorter: "json_exponent s = Some (x, rest) \<Longrightarrow> length rest \<le> length s"
  by (auto simp: json_exponent_def Let_def split: list.splits if_splits prod.splits dest!: digits_of_shorter)

lemma json_integer_shorter: "json_integer s = (ds, rest) \<Longrightarrow> ds \<noteq> [] \<Longrightarrow> length rest < length s"
  by (cases ds) (auto simp: json_integer_def HasPrefix_append dest!: digits_of_shorter split: if_splits)

lemma json_number_shorter: "json_number s = Some (x, rest) \<Longrightarrow> length rest < length s"
  unfolding json_number_def Let_def
  by (fastforce split: prod.splits if_splits option.splits
      dest!: json_fraction_shorter json_exponent_shorter json_integer_shorter)

text \<open>Reading a value consumes at least one character, so the guards of \<open>json_elems\<close> and
  \<open>json_members\<close> never cut a reading short.\<close>

lemma length_skip_space_le: "length r \<le> n \<Longrightarrow> length (skip_space r) \<le> n"
  using length_skip_space [of r] by simp

lemma skip_space_prefix: "HasPrefix (skip_space cs) [c] \<Longrightarrow> length (tl (skip_space cs)) < length cs"
  using length_skip_space [of cs] by (auto simp: HasPrefix_append)

lemma json_value_shorter: "json_value d s = Some (v, rest) \<Longrightarrow> length rest < length s"
  and json_elems_shorter: "json_elems d s = Some (vs, rest) \<Longrightarrow> length rest < length s"
  and json_members_shorter: "json_members d s = Some (ms, rest) \<Longrightarrow> length rest < length s"
proof (induction d s and d s and d s arbitrary: v rest and vs rest and ms rest
    rule: json_value_json_elems_json_members.induct)
  case (1 d s)
  obtain c cs where c: "skip_space s = c # cs"
    using "1.prems" by (auto simp: json_value.simps [of d s] split: list.splits)
  note eq = "1.prems" [unfolded json_value.simps [of d s] c list.case]
  have "length rest < length (c # cs)"
  proof (cases "c = CHR ''['' \<or> c = CHR ''{''")
    case True
    then show ?thesis
    proof
      assume a: "c = CHR ''[''"
      with eq "1.IH"(1) [OF c a] show ?thesis
        by (fastforce split: if_splits dest: skip_space_prefix)
    next
      assume b: "c = CHR ''{''"
      then have a: "c \<noteq> CHR ''[''" by simp
      from eq "1.IH"(2) [OF c a b] b show ?thesis
        by (fastforce split: if_splits dest: skip_space_prefix)
    qed
  next
    case False
    with eq show ?thesis
      by (simp split: if_splits)
        (auto dest: json_string_shorter json_number_shorter)
  qed
  then show ?case using length_skip_space [of s] c by simp
next
  case (2 d s)
  then show ?case 
    by (fastforce simp: json_elems.simps [of d s] split: if_splits option.splits list.splits)
next
  case (3 d s)
  from "3.prems" obtain qs key r1 v r2 c cs where
    q: "skip_space s = CHR 0x22 # qs" and k: "json_string qs = Some (key, r1)"
    and colon: "HasPrefix (skip_space r1) '':'' \<and> length (skip_space r1) < length s"
    and v: "json_value d (tl (skip_space r1)) = Some (v, r2)"
    and guard: "length (skip_space r2) < length s" and c: "skip_space r2 = c # cs"
    and fin: "(if c = CHR ''}'' then Some ([(key, v)], cs)
        else if c = CHR '','' then map_option (\<lambda>(ms, r). ((key, v) # ms, r)) (json_members d cs)
        else None) = Some (ms, rest)"
    by (simp only: json_members.simps [of d s] split: list.splits option.splits if_splits prod.splits)
      simp_all
  show ?case
  proof (cases "c = CHR ''}''")
    case True
    with fin guard c show ?thesis by simp
  next
    case False
    with fin obtain ms' where "c = CHR '',''" "json_members d cs = Some (ms', rest)"
      by (auto split: if_splits)
    with "3.IH"(2) q k colon v guard c False have "length rest < length cs" by auto
    with guard c show ?thesis by simp
  qed
qed

text \<open>The equations that evaluate a reading and a decoding on a concrete text.\<close>

lemmas json_eval = json_value.simps json_elems.simps json_members.simps
  skip_space_def is_space_def json_string_def json_number_def json_integer_def json_fraction_def
  json_exponent_def digits_of_def is_digit_def HasPrefix_def max_nesting_def Let_def less_eq_char_def
  decode_JsonResponse_def decode_JsonError_def response_field_def error_field_def
  decode_int_def decode_string_def zero_JsonError_def zero_JsonResponse_def
  char_lower_def ParseInt_def ParseUint_def digit_value_def

end
