(* ===== verification/Json_Encode.thy ===== *)
theory Json_Encode
  imports Json_Decode Chain_Types
begin

text \<open>
  What the router uses of Go's \<^verbatim>\<open>encoding/json\<close> to write a response, and that reading the
  text gives the value back. Strings are written as the package does with its HTML escaping on:
  a quote, a backslash and the control characters as escapes, \<^verbatim>\<open><\<close>, \<^verbatim>\<open>>\<close>, \<^verbatim>\<open>&\<close> and the two line
  separators of Unicode as \<^verbatim>\<open>\uXXXX\<close>, and a byte that is not part of a valid UTF-8 sequence as the
  replacement character.
\<close>

section \<open>UTF-8\<close>

text \<open>The length of the valid sequence at the head of a string, or 0.\<close>

definition in_range :: "nat \<Rightarrow> nat \<Rightarrow> char \<Rightarrow> bool" where
  "in_range lo hi c \<longleftrightarrow> lo \<le> of_char c \<and> of_char c \<le> hi"

definition second_ok :: "char \<Rightarrow> char \<Rightarrow> bool" where
  "second_ok a b =
     (if a = CHR 0xE0 then in_range 160 191 b
      else if a = CHR 0xED then in_range 128 159 b
      else if a = CHR 0xF0 then in_range 144 191 b
      else if a = CHR 0xF4 then in_range 128 143 b
      else in_range 128 191 b)"

fun continued :: "nat \<Rightarrow> string \<Rightarrow> bool" where
  "continued 0 s = True"
| "continued (Suc n) [] = False"
| "continued (Suc n) (c # cs) = (in_range 128 191 c \<and> continued n cs)"

definition utf8_len :: "string \<Rightarrow> nat" where
  "utf8_len s =
     (case s of
        a # b # rest \<Rightarrow>
          if in_range 194 223 a \<and> in_range 128 191 b then 2
          else if in_range 224 239 a \<and> second_ok a b \<and> continued 1 rest then 3
          else if in_range 240 244 a \<and> second_ok a b \<and> continued 2 rest then 4
          else 0
      | _ \<Rightarrow> 0)"

lemma in_range_high: "in_range lo hi c \<Longrightarrow> 128 \<le> lo \<Longrightarrow> (128 :: nat) \<le> of_char c"
  by (simp add: in_range_def)

lemma second_ok_high: "second_ok a b \<Longrightarrow> (128 :: nat) \<le> of_char b"
  by (simp only: second_ok_def split: if_splits) (auto elim!: in_range_high)

lemma continued_high: "continued n s \<Longrightarrow> c \<in> set (take n s) \<Longrightarrow> (128 :: nat) \<le> of_char c"
  by (induction n s rule: continued.induct) (auto elim: in_range_high)

lemma utf8_len_high:
  assumes c: "c \<in> set (take (utf8_len s) s)"
  shows "(128 :: nat) \<le> of_char c"
proof -
  have "utf8_len s \<noteq> 0" using c by (cases "utf8_len s") auto
  then obtain a b rest where s: "s = a # b # rest"
    by (auto simp: utf8_len_def split: list.splits)
  define p where "p \<longleftrightarrow> in_range 194 223 a \<and> in_range 128 191 b"
  define q where "q \<longleftrightarrow> in_range 224 239 a \<and> second_ok a b \<and> continued 1 rest"
  define r where "r \<longleftrightarrow> in_range 240 244 a \<and> second_ok a b \<and> continued 2 rest"
  have "utf8_len s = (if p then 2 else if q then 3 else if r then 4 else 0)"
    by (simp only: s utf8_len_def list.case p_def q_def r_def)
  then obtain n where n: "utf8_len s = Suc (Suc n)" and "n = 0 \<and> p \<or> n = 1 \<and> q \<or> n = 2 \<and> r"
    using \<open>utf8_len s \<noteq> 0\<close> by (auto simp: numeral_eq_Suc split: if_splits)
  then have "(128 :: nat) \<le> of_char a" "(128 :: nat) \<le> of_char b" "continued n rest"
    by (auto simp: p_def q_def r_def dest: in_range_high second_ok_high)
  with c continued_high [of n rest c] show ?thesis
    by (auto simp: n) (auto simp: s)
qed

section \<open>Writing\<close>

definition hex_digit :: "nat \<Rightarrow> char" where
  "hex_digit n = (if n < 10 then char_of (48 + n) else char_of (87 + n))"

definition quote_char :: "char \<Rightarrow> string" where
  "quote_char c =
     (if c = CHR 0x22 \<or> c = CHR 0x5C then [CHR 0x5C, c]
      else if c = CHR 0x08 then [CHR 0x5C, CHR ''b'']
      else if c = CHR 0x0C then [CHR 0x5C, CHR ''f'']
      else if c = CHR 0x0A then [CHR 0x5C, CHR ''n'']
      else if c = CHR 0x0D then [CHR 0x5C, CHR ''r'']
      else if c = CHR 0x09 then [CHR 0x5C, CHR ''t'']
      else if of_char c < (32 :: nat) \<or> c \<in> {CHR ''<'', CHR ''>'', CHR ''&''} then
        [CHR 0x5C, CHR ''u'', CHR ''0'', CHR ''0'', hex_digit (of_char c div 16), hex_digit (of_char c mod 16)]
      else [c])"

definition quote_sequence :: "string \<Rightarrow> string" where
  "quote_sequence u =
     (if u = [CHR 0xE2, CHR 0x80, CHR 0xA8] then CHR 0x5C # ''u2028''
      else if u = [CHR 0xE2, CHR 0x80, CHR 0xA9] then CHR 0x5C # ''u2029''
      else u)"

function quote_chars :: "string \<Rightarrow> string" where
  "quote_chars s =
     (case s of
        [] \<Rightarrow> []
      | c # cs \<Rightarrow>
          if of_char c < (128 :: nat) then quote_char c @ quote_chars cs
          else if utf8_len s = 0 then CHR 0x5C # ''ufffd'' @ quote_chars cs
          else quote_sequence (take (utf8_len s) s) @ quote_chars (drop (utf8_len s) s))"
  by pat_completeness auto
termination
  by (relation "measure length") auto

declare quote_chars.simps [simp del]

definition quote_string :: "string \<Rightarrow> string" where
  "quote_string s = CHR 0x22 # quote_chars s @ [CHR 0x22]"

fun commas :: "string list \<Rightarrow> string" where
  "commas [] = []"
| "commas [x] = x"
| "commas (x # y # ys) = x @ CHR '','' # commas (y # ys)"

fun json_print :: "json \<Rightarrow> string" where
  "json_print JNull = ''null''"
| "json_print (JBool b) = (if b then ''true'' else ''false'')"
| "json_print (JNum lit) = lit"
| "json_print (JStr s) = quote_string s"
| "json_print (JArr vs) = CHR ''['' # commas (map json_print vs) @ '']''"
| "json_print (JObj ms) =
     CHR ''{'' # commas (map (\<lambda>(key, v). quote_string key @ CHR '':'' # json_print v) ms) @ ''}''"

section \<open>Reading back a string\<close>

function valid_utf8 :: "string \<Rightarrow> bool" where
  "valid_utf8 s =
     (case s of
        [] \<Rightarrow> True
      | c # cs \<Rightarrow>
          if of_char c < (128 :: nat) then valid_utf8 cs
          else if utf8_len s = 0 then False
          else valid_utf8 (drop (utf8_len s) s))"
  by pat_completeness auto
termination
  by (relation "measure length") auto

declare valid_utf8.simps [simp del]

lemma hex_value_hex_digit:
  assumes "n < 16"
  shows "hex_value (hex_digit n) = Some n"
  using assms by (simp add: hex_value_def hex_digit_def is_digit_def less_eq_char_def)

lemma string_pieces_quote_char:
  assumes "of_char c < (128 :: nat)"
  shows "\<exists>p. string_pieces (quote_char c @ t) = map_option (\<lambda>(x, y). (p # x, y)) (string_pieces t) \<and>
    (p = Byte c \<or> p = Unit (of_char c))"
proof (cases "c \<in> {CHR 0x22, CHR 0x5C, CHR 0x08, CHR 0x0C, CHR 0x0A, CHR 0x0D, CHR 0x09}")
  case True
  then show ?thesis
    by (intro exI [of _ "Byte c"]) (auto simp: quote_char_def escape_char_def)
next
  case False
  let ?n = "of_char c :: nat"
  show ?thesis
  proof (cases "?n < 32 \<or> c \<in> {CHR ''<'', CHR ''>'', CHR ''&''}")
    case True
    have "hex_value (CHR ''0'') = Some 0" by code_simp
    then have "hex4 (CHR ''0'') (CHR ''0'') (hex_digit (?n div 16)) (hex_digit (?n mod 16)) = Some ?n"
      using assms by (simp add: hex4_def hex_value_hex_digit)
    with True False show ?thesis
      by (intro exI [of _ "Unit ?n"]) (simp add: quote_char_def)
  next
    case small: False
    with False show ?thesis by (intro exI [of _ "Byte c"]) (simp add: quote_char_def)
  qed
qed

lemma string_pieces_bytes:
  assumes "\<forall>c \<in> set u. (128 :: nat) \<le> of_char c"
  shows "string_pieces (u @ t) = map_option (\<lambda>(x, y). (map Byte u @ x, y)) (string_pieces t)"
  using assms
proof (induction u)
  case (Cons c u)
  then have "c \<noteq> CHR 0x22" "c \<noteq> CHR 0x5C" "\<not> of_char c < (32 :: nat)" by auto
  with Cons show ?case by (cases "string_pieces t") auto
qed (simp add: option.map_ident case_prod_unfold)

lemma join_pieces_bytes [simp]: "join_pieces (map Byte u @ ps) = u @ join_pieces ps"
  by (induction u) simp_all

lemma join_pieces_Unit: "\<not> is_high_surrogate n \<Longrightarrow> join_pieces (Unit n # ps) = utf8 n @ join_pieces ps"
  by (cases ps; cases "hd ps") auto

lemma join_pieces_quote_sequence:
  assumes "\<forall>c \<in> set u. (128 :: nat) \<le> of_char c"
  shows "\<exists>ps. string_pieces (quote_sequence u @ t) = map_option (\<lambda>(x, y). (ps @ x, y)) (string_pieces t) \<and>
    (\<forall>x. join_pieces (ps @ x) = u @ join_pieces x)"
proof -
  have sep: "hex4 (CHR ''2'') (CHR ''0'') (CHR ''2'') (CHR ''8'') = Some 0x2028"
    "hex4 (CHR ''2'') (CHR ''0'') (CHR ''2'') (CHR ''9'') = Some 0x2029"
    "utf8 0x2028 = [CHR 0xE2, CHR 0x80, CHR 0xA8]" "utf8 0x2029 = [CHR 0xE2, CHR 0x80, CHR 0xA9]"
    "\<not> is_high_surrogate 0x2028" "\<not> is_high_surrogate 0x2029"
    by (simp_all add: hex4_def hex_value_def is_digit_def less_eq_char_def utf8_def is_high_surrogate_def
      char_of_eq_iff)
  consider "u = [CHR 0xE2, CHR 0x80, CHR 0xA8]" | "u = [CHR 0xE2, CHR 0x80, CHR 0xA9]" | "quote_sequence u = u"
    by (metis quote_sequence_def)
  then show ?thesis
  proof cases
    case 1
    then show ?thesis using sep
      by (intro exI [of _ "[Unit 0x2028]"]) (simp add: quote_sequence_def join_pieces_Unit)
  next
    case 2
    then show ?thesis using sep
      by (intro exI [of _ "[Unit 0x2029]"]) (simp add: quote_sequence_def join_pieces_Unit)
  next
    case 3
    then show ?thesis using string_pieces_bytes [OF assms, of t]
      by (intro exI [of _ "map Byte u"]) simp
  qed
qed

lemma string_pieces_quote_chars:
  "valid_utf8 s \<Longrightarrow> \<exists>ps. string_pieces (quote_chars s @ CHR 0x22 # t) = Some (ps, t) \<and> join_pieces ps = s"
proof (induction s rule: quote_chars.induct)
  case (1 s)
  show ?case
  proof (cases s)
    case Nil
    then show ?thesis by (simp add: quote_chars.simps [of "[]"])
  next
    case (Cons c cs)
    show ?thesis
    proof (cases "of_char c < (128 :: nat)")
      case True
      with "1.prems" Cons have "valid_utf8 cs" by (simp add: valid_utf8.simps [of "c # cs"])
      from "1.IH"(1) [OF Cons True this] obtain ps where
        ps: "string_pieces (quote_chars cs @ CHR 0x22 # t) = Some (ps, t)" "join_pieces ps = cs" by blast
      obtain p where p: "string_pieces (quote_char c @ quote_chars cs @ CHR 0x22 # t) = Some (p # ps, t)"
        "p = Byte c \<or> p = Unit (of_char c)"
        using string_pieces_quote_char [OF True, of "quote_chars cs @ CHR 0x22 # t"] ps(1) by auto
      have "\<not> is_high_surrogate (of_char c)" "utf8 (of_char c) = [c]"
        using True by (simp_all add: is_high_surrogate_def utf8_def)
      with p ps(2) have "join_pieces (p # ps) = s" by (auto simp: Cons join_pieces_Unit)
      with p(1) Cons True show ?thesis by (simp add: quote_chars.simps [of "c # cs"])
    next
      case False
      with "1.prems" Cons have v: "utf8_len s \<noteq> 0" "valid_utf8 (drop (utf8_len s) s)"
        by (simp_all add: valid_utf8.simps [of "c # cs"] split: if_splits)
      from "1.IH"(3) [OF Cons False v(1) v(2)] obtain ps where
        ps: "string_pieces (quote_chars (drop (utf8_len s) s) @ CHR 0x22 # t) = Some (ps, t)"
          "join_pieces ps = drop (utf8_len s) s" by blast
      let ?u = "take (utf8_len s) s"
      from join_pieces_quote_sequence [of ?u "quote_chars (drop (utf8_len s) s) @ CHR 0x22 # t"] utf8_len_high [of _ s]
      obtain qs where "string_pieces (quote_sequence ?u @ quote_chars (drop (utf8_len s) s) @ CHR 0x22 # t) = Some (qs @ ps, t)"
        "join_pieces (qs @ ps) = ?u @ join_pieces ps" using ps(1) by auto
      moreover have "quote_chars s = quote_sequence ?u @ quote_chars (drop (utf8_len s) s)"
        using False v(1) by (simp add: quote_chars.simps [of "c # cs"] Cons)
      ultimately show ?thesis using ps(2) by simp
    qed
  qed
qed

lemma json_string_quote: "valid_utf8 s \<Longrightarrow> json_string (quote_chars s @ CHR 0x22 # t) = Some (s, t)"
  using string_pieces_quote_chars [of s t] by (auto simp: json_string_def)

section \<open>Reading back a number\<close>

text \<open>A character that ends a number.\<close>

definition stops :: "string \<Rightarrow> bool" where
  "stops t \<longleftrightarrow> (case t of [] \<Rightarrow> True | c # _ \<Rightarrow> c \<in> {CHR '','', CHR '']'', CHR ''}'', CHR 0x0A})"

lemma stops_simps [simp]: "stops []" "stops (CHR '','' # t)" "stops (CHR '']'' # t)" "stops (CHR ''}'' # t)"
  "stops (CHR 0x0A # t)"
  by (simp_all add: stops_def)

lemma is_digit_nat_digits: "c \<in> set (nat_digits n) \<Longrightarrow> is_digit c"
  using set_nat_digits [of c n] by (simp add: is_digit_def)

lemma nat_digits_zero: "nat_digits n = CHR ''0'' # cs \<Longrightarrow> n = 0 \<and> cs = []"
proof (induction n arbitrary: cs rule: nat_digits.induct)
  case (1 n)
  show ?case
  proof (cases "n < 10")
    case True
    with "1.prems" have "char_of (48 + n) = CHR ''0''" "cs = []" by (simp_all add: nat_digits.simps [of n])
    moreover from this(1) have "of_char (char_of (48 + n) :: char) = (48 :: nat)" by simp
    then have "n = 0" using True by simp
    ultimately show ?thesis by simp
  next
    case False
    with "1.prems" obtain ds where ds: "nat_digits (n div 10) = CHR ''0'' # ds"
      by (cases "nat_digits (n div 10)") (simp_all add: nat_digits.simps [of n])
    with "1.IH" [OF False ds] False show ?thesis by (simp add: div_eq_0_iff)
  qed
qed

lemma stops_not_digit: "stops t \<Longrightarrow> digits_of t = ([], t)"
  by (cases t) (auto simp: stops_def digits_of_def is_digit_def less_eq_char_def)

lemma digits_of_nat_digits: "stops t \<Longrightarrow> digits_of (nat_digits n @ t) = (nat_digits n, t)"
  using stops_not_digit [of t] is_digit_nat_digits [of _ n]
  by (auto simp: digits_of_def)

lemma json_integer_nat_digits:
  assumes "stops t"
  shows "json_integer (nat_digits n @ t) = (nat_digits n, t)"
proof (cases "HasPrefix (nat_digits n @ t) ''0''")
  case True
  then obtain cs where "nat_digits n = CHR ''0'' # cs"
    by (cases "nat_digits n") (auto simp: HasPrefix_def)
  with nat_digits_zero [OF this] show ?thesis by (simp add: json_integer_def HasPrefix_def)
qed (simp add: json_integer_def digits_of_nat_digits assms)

lemma json_number_Itoa:
  assumes "stops t"
  shows "json_number (Itoa n @ t) = Some (Itoa n, t)"
proof -
  have rest: "json_fraction t = Some ([], t)" "json_exponent t = Some ([], t)"
    using assms by (cases t; auto simp: stops_def json_fraction_def json_exponent_def)+
  obtain c cs where c: "nat_digits (nat n) = c # cs" by (cases "nat_digits (nat n)") simp_all
  have "\<not> HasPrefix (nat_digits (nat n) @ t) ''-''"
    using nat_digits_unsigned [OF c] by (simp add: c HasPrefix_def)
  with rest show ?thesis
    by (simp add: json_number_def Itoa_def json_integer_nat_digits [OF assms] HasPrefix_def Let_def)
qed

section \<open>Reading back a value\<close>

definition wf_number :: "string \<Rightarrow> bool" where
  "wf_number lit \<longleftrightarrow> (\<exists>n. lit = Itoa n)"

fun wf_json :: "json \<Rightarrow> bool" where
  "wf_json (JNum lit) = wf_number lit"
| "wf_json (JStr s) = valid_utf8 s"
| "wf_json (JArr vs) = (\<forall>v \<in> set vs. wf_json v)"
| "wf_json (JObj ms) = (\<forall>m \<in> set ms. valid_utf8 (fst m) \<and> wf_json (snd m))"
| "wf_json _ = True"

fun nesting :: "json \<Rightarrow> nat" where
  "nesting (JArr vs) = Suc (foldr max (map nesting vs) 0)"
| "nesting (JObj ms) = Suc (foldr max (map (\<lambda>m. nesting (snd m)) ms) 0)"
| "nesting _ = 0"

lemma foldr_max_ge: "x \<in> set xs \<Longrightarrow> (f x :: nat) \<le> foldr max (map f xs) 0"
  by (induction xs) auto

definition starts_value :: "char \<Rightarrow> bool" where
  "starts_value c \<longleftrightarrow> \<not> is_space c \<and> c \<noteq> CHR '']'' \<and> c \<noteq> CHR ''}''"

lemma Itoa_Cons: "\<exists>c cs. Itoa n = c # cs \<and> (c = CHR ''-'' \<or> is_digit c)"
  using is_digit_nat_digits by (cases "nat_digits (nat n)") (auto simp: Itoa_def, metis list.set_intros(1))

lemma digit_chars:
  assumes "c = CHR ''-'' \<or> is_digit c"
  shows "starts_value c" "c \<noteq> CHR ''['' \<and> c \<noteq> CHR ''{'' \<and> c \<noteq> CHR 0x22 \<and> c \<noteq> CHR ''n'' \<and> c \<noteq> CHR ''t'' \<and> c \<noteq> CHR ''f''"
  using assms by (auto simp: starts_value_def is_space_def is_digit_def less_eq_char_def)

lemma json_print_Cons:
  assumes "wf_json v"
  shows "\<exists>c cs. json_print v = c # cs \<and> starts_value c"
proof (cases v)
  case (JNum lit)
  with assms Itoa_Cons digit_chars(1) show ?thesis by (fastforce simp: wf_number_def)
qed (simp_all add: starts_value_def is_space_def quote_string_def)

lemma skip_space_Cons_id [simp]: "\<not> is_space c \<Longrightarrow> skip_space (c # cs) = c # cs"
  by (simp add: skip_space_def)

lemma not_space [simp]: "\<not> is_space CHR '',''" "\<not> is_space CHR '']''" "\<not> is_space CHR ''}''" "\<not> is_space CHR '':''"
  "\<not> is_space CHR ''[''" "\<not> is_space CHR ''{''" "\<not> is_space CHR 0x22"
  by (simp_all add: is_space_def)

lemma json_elems_print:
  assumes "vs \<noteq> []"
    and "\<forall>v \<in> set vs. \<forall>t. stops t \<longrightarrow> json_value d (json_print v @ t) = Some (v, t)"
  shows "json_elems d (commas (map json_print vs) @ CHR '']'' # t) = Some (vs, t)"
  using assms
proof (induction vs rule: list_nonempty_induct)
  case (single v)
  then have "json_value d (json_print v @ CHR '']'' # t) = Some (v, CHR '']'' # t)" by simp
  with json_value_shorter [OF this] show ?case by (simp add: json_elems.simps [of d "json_print v @ CHR '']'' # t"])
next
  case (cons v vs)
  let ?r = "CHR '','' # commas (map json_print vs) @ CHR '']'' # t"
  from cons have v: "json_value d (json_print v @ ?r) = Some (v, ?r)"
    and vs: "json_elems d (commas (map json_print vs) @ CHR '']'' # t) = Some (vs, t)" by simp_all
  have "commas (map json_print (v # vs)) @ CHR '']'' # t = json_print v @ ?r"
    using cons(1) by (cases vs) simp_all
  with v vs json_value_shorter [OF v] show ?case by (simp add: json_elems.simps [of d "json_print v @ ?r"])
qed

definition print_member :: "string \<times> json \<Rightarrow> string" where
  "print_member m = quote_string (fst m) @ CHR '':'' # json_print (snd m)"

lemma json_members_print:
  assumes "ms \<noteq> []"
    and "\<forall>m \<in> set ms. valid_utf8 (fst m) \<and> (\<forall>t. stops t \<longrightarrow> json_value d (json_print (snd m) @ t) = Some (snd m, t))"
  shows "json_members d (commas (map print_member ms) @ CHR ''}'' # t) = Some (ms, t)"
  using assms
proof (induction ms rule: list_nonempty_induct)
  case (single m)
  let ?r = "CHR ''}'' # t"
  from single have "json_value d (json_print (snd m) @ ?r) = Some (snd m, ?r)"
    "json_string (quote_chars (fst m) @ CHR 0x22 # CHR '':'' # json_print (snd m) @ ?r) =
      Some (fst m, CHR '':'' # json_print (snd m) @ ?r)"
    using json_string_quote [of "fst m"] by simp_all
  then show ?case
    by (simp add: json_members.simps [of d "CHR 0x22 # x" for x] print_member_def quote_string_def HasPrefix_def)
next
  case (cons m ms)
  let ?r = "CHR '','' # commas (map print_member ms) @ CHR ''}'' # t"
  from cons have "json_value d (json_print (snd m) @ ?r) = Some (snd m, ?r)"
    and ms: "json_members d (commas (map print_member ms) @ CHR ''}'' # t) = Some (ms, t)"
    and "json_string (quote_chars (fst m) @ CHR 0x22 # CHR '':'' # json_print (snd m) @ ?r) =
      Some (fst m, CHR '':'' # json_print (snd m) @ ?r)"
    using json_string_quote [of "fst m"] by simp_all
  then have "json_members d (print_member m @ ?r) = Some (m # ms, t)"
    by (simp add: json_members.simps [of d "CHR 0x22 # x" for x] print_member_def [of m] quote_string_def HasPrefix_def)
  moreover have "commas (map print_member (m # ms)) @ CHR ''}'' # t = print_member m @ ?r"
    using cons(1) by (cases ms) simp_all
  ultimately show ?case by (simp only:)
qed

lemma json_print_JObj: "json_print (JObj ms) = CHR ''{'' # commas (map print_member ms) @ ''}''"
  by (simp add: print_member_def [abs_def] case_prod_unfold)

lemma commas_Cons: "\<exists>ys. commas (map f (x # xs)) = f x @ ys"
  by (cases xs) auto

text \<open>Reading what was written gives the value back.\<close>

lemma json_value_print:
  assumes "wf_json v" "d + nesting v \<le> max_nesting" "stops t"
  shows "json_value d (json_print v @ t) = Some (v, t)"
  using assms
proof (induction v arbitrary: d t)
  case JNull
  then show ?case by (simp add: json_value.simps [of d "CHR ''n'' # x" for x] is_space_def HasPrefix_def)
next
  case (JBool b)
  then show ?case
    by (simp add: json_value.simps [of d "CHR ''t'' # x" for x] json_value.simps [of d "CHR ''f'' # x" for x]
        is_space_def HasPrefix_def)
next
  case (JNum lit)
  then obtain n where n: "lit = Itoa n" by (auto simp: wf_number_def)
  obtain c cs where c: "Itoa n = c # cs" "c = CHR ''-'' \<or> is_digit c" using Itoa_Cons by blast
  from digit_chars [OF c(2)] json_number_Itoa [OF JNum(3), of n] show ?case
    by (simp add: n c(1) json_value.simps [of d "c # x" for x] starts_value_def HasPrefix_def)
next
  case (JStr s)
  then show ?case
    using json_string_quote [of s t] by (simp add: json_value.simps [of d "CHR 0x22 # x" for x] quote_string_def)
next
  case (JArr vs)
  from JArr.prems(2) have d: "d < max_nesting" by simp
  show ?case
  proof (cases vs)
    case Nil
    with d show ?thesis by (simp add: json_value.simps [of d "CHR ''['' # x" for x] HasPrefix_def)
  next
    case (Cons v ws)
    have "\<forall>w \<in> set vs. \<forall>t. stops t \<longrightarrow> json_value (Suc d) (json_print w @ t) = Some (w, t)"
    proof (intro ballI allI impI)
      fix w t assume w: "w \<in> set vs" "stops t"
      then have "Suc d + nesting w \<le> max_nesting"
        using JArr.prems(2) foldr_max_ge [OF w(1), of nesting] by simp
      with JArr w show "json_value (Suc d) (json_print w @ t) = Some (w, t)" by simp
    qed
    then have e: "json_elems (Suc d) (commas (map json_print vs) @ CHR '']'' # t) = Some (vs, t)"
      by (intro json_elems_print) (simp_all add: Cons)
    from JArr.prems(1) Cons have "wf_json v" by simp
    with json_print_Cons obtain c cs where c: "json_print v = c # cs" "starts_value c" by blast
    obtain ys where ys: "commas (map json_print vs) = c # cs @ ys"
      using commas_Cons [of json_print v ws] c by (auto simp: Cons)
    from e d c(2) ys show ?thesis
      by (simp add: json_value.simps [of d "CHR ''['' # x" for x] HasPrefix_def starts_value_def)
  qed
next
  case (JObj ms)
  from JObj.prems(2) have d: "d < max_nesting" by simp
  show ?case
  proof (cases ms)
    case Nil
    with d show ?thesis by (simp add: json_value.simps [of d "CHR ''{'' # x" for x] HasPrefix_def)
  next
    case (Cons m ws)
    have "\<forall>m \<in> set ms. valid_utf8 (fst m) \<and>
      (\<forall>t. stops t \<longrightarrow> json_value (Suc d) (json_print (snd m) @ t) = Some (snd m, t))"
    proof (intro ballI conjI allI impI)
      fix w assume w: "w \<in> set ms"
      then show "valid_utf8 (fst w)" using JObj.prems(1) by simp
      fix t assume "stops t"
      have "Suc d + nesting (snd w) \<le> max_nesting"
        using JObj.prems(2) foldr_max_ge [OF w, of "\<lambda>m. nesting (snd m)"] by simp
      moreover have "wf_json (snd w)" using JObj.prems(1) w by simp
      ultimately show "json_value (Suc d) (json_print (snd w) @ t) = Some (snd w, t)"
        using JObj.IH [OF w, of "snd w" "Suc d" t] \<open>stops t\<close> by (cases w) simp
    qed
    then have e: "json_members (Suc d) (commas (map print_member ms) @ CHR ''}'' # t) = Some (ms, t)"
      by (intro json_members_print) (simp_all add: Cons)
    obtain ys where ys: "commas (map print_member ms) = CHR 0x22 # ys"
      using commas_Cons [of print_member m ws] by (auto simp: Cons print_member_def quote_string_def)
    from e d ys show ?thesis
      by (simp add: json_print_JObj json_value.simps [of d "CHR ''{'' # x" for x] HasPrefix_def del: json_print.simps)
  qed
qed

lemma json_parse_print:
  assumes "wf_json v" "nesting v \<le> max_nesting"
  shows "json_parse (json_print v @ [CHR 0x0A]) = Some v"
  using json_value_print [OF assms(1), of 0 "[CHR 0x0A]"] assms(2)
  by (simp add: json_parse_def skip_space_def is_space_def)

section \<open>Responses\<close>

definition record_json :: "indexed_data_json \<Rightarrow> json" where
  "record_json d =
     JObj [(''index'', JNum (Itoa (json_index d))), (''l1InfoRoot'', JStr (json_l1_info_root d)),
       (''blockTime'', JNum (Itoa (json_block_time d))), (''blockParentHash'', JStr (json_block_parent_hash d))]"

text \<open>A page without records is a nil slice, which is written as \<^verbatim>\<open>null\<close>.\<close>

definition response_json :: "response \<Rightarrow> json" where
  "response_json r =
     JObj [(''data'', if resp_data r = [] then JNull else JArr (map record_json (resp_data r))),
       (''nextPage'', JStr (resp_next_page r))]"

definition Encode :: "response \<Rightarrow> string" where
  "Encode r = json_print (response_json r) @ [CHR 0x0A]"

text \<open>What a client reads of a response.\<close>

definition read_int :: "json \<Rightarrow> int option" where
  "read_int v = (case v of JNum lit \<Rightarrow> (case ParseInt lit of (n, None) \<Rightarrow> Some n | _ \<Rightarrow> None) | _ \<Rightarrow> None)"

definition read_str :: "json \<Rightarrow> string option" where
  "read_str v = (case v of JStr s \<Rightarrow> Some s | _ \<Rightarrow> None)"

definition member_of :: "json \<Rightarrow> string \<Rightarrow> json option" where
  "member_of v key = (case v of JObj ms \<Rightarrow> map_of ms key | _ \<Rightarrow> None)"

definition read_record :: "json \<Rightarrow> indexed_data_json option" where
  "read_record v =
     Option.bind (Option.bind (member_of v ''index'') read_int) (\<lambda>i.
     Option.bind (Option.bind (member_of v ''l1InfoRoot'') read_str) (\<lambda>root.
     Option.bind (Option.bind (member_of v ''blockTime'') read_int) (\<lambda>t.
     Option.bind (Option.bind (member_of v ''blockParentHash'') read_str) (\<lambda>parent.
       Some \<lparr>json_index = i, json_l1_info_root = root, json_block_time = t, json_block_parent_hash = parent\<rparr>))))"

fun read_records :: "json list \<Rightarrow> indexed_data_json list option" where
  "read_records [] = Some []"
| "read_records (v # vs) = Option.bind (read_record v) (\<lambda>d. map_option ((#) d) (read_records vs))"

definition read_data :: "json \<Rightarrow> indexed_data_json list option" where
  "read_data v = (case v of JNull \<Rightarrow> Some [] | JArr vs \<Rightarrow> read_records vs | _ \<Rightarrow> None)"

definition read_response :: "string \<Rightarrow> response option" where
  "read_response text =
     Option.bind (json_parse text) (\<lambda>v.
     Option.bind (Option.bind (member_of v ''data'') read_data) (\<lambda>data.
     Option.bind (Option.bind (member_of v ''nextPage'') read_str) (\<lambda>link.
       Some \<lparr>resp_data = data, resp_next_page = link\<rparr>)))"

definition record_ok :: "indexed_data_json \<Rightarrow> bool" where
  "record_ok d \<longleftrightarrow> is_int64 (json_index d) \<and> is_int64 (json_block_time d) \<and>
     valid_utf8 (json_l1_info_root d) \<and> valid_utf8 (json_block_parent_hash d)"

lemma read_record_json: "record_ok d \<Longrightarrow> read_record (record_json d) = Some d"
  by (simp add: record_ok_def read_record_def record_json_def member_of_def read_int_def read_str_def ParseInt_Itoa)

lemma read_records_json: "\<forall>d \<in> set ds. record_ok d \<Longrightarrow> read_records (map record_json ds) = Some ds"
  by (induction ds) (simp_all add: read_record_json)

text \<open>ASCII strings are valid, and so are valid strings one after the other.\<close>

lemma continued_length: "continued n s \<Longrightarrow> n \<le> length s"
  by (induction n s rule: continued.induct) auto

lemma utf8_len_le: "utf8_len s \<le> length s"
proof (cases s rule: remdups_adj.cases)
  case (3 a b rest)
  then show ?thesis
    using continued_length [of 1 rest] continued_length [of 2 rest]
    by (simp add: utf8_len_def del: continued.simps split: if_split)
qed (simp_all add: utf8_len_def)

lemma continued_append: "continued n s \<Longrightarrow> continued n (s @ t)"
  by (induction n s rule: continued.induct) auto

lemma utf8_len_append:
  assumes "utf8_len s \<noteq> 0"
  shows "utf8_len (s @ t) = utf8_len s"
proof -
  obtain a b rest where s: "s = a # b # rest"
    using assms by (auto simp: utf8_len_def split: list.splits)
  have "in_range 240 244 a \<Longrightarrow> \<not> in_range 224 239 a" by (auto simp: in_range_def)
  then show ?thesis
    using assms continued_append [of 1 rest t] continued_append [of 2 rest t] unfolding s
    by (auto simp: utf8_len_def simp del: continued.simps split: if_splits)
qed

lemma valid_utf8_append: "valid_utf8 s \<Longrightarrow> valid_utf8 t \<Longrightarrow> valid_utf8 (s @ t)"
proof (induction s rule: valid_utf8.induct)
  case (1 s)
  show ?case
  proof (cases s)
    case (Cons c cs)
    show ?thesis
    proof (cases "of_char c < (128 :: nat)")
      case True
      with 1 Cons have "valid_utf8 (cs @ t)" by (simp add: valid_utf8.simps [of "c # cs"])
      with True Cons show ?thesis by (simp add: valid_utf8.simps [of "c # cs @ t"])
    next
      case False
      with "1.prems"(1) Cons have v: "utf8_len s \<noteq> 0" "valid_utf8 (drop (utf8_len s) s)"
        by (simp_all add: valid_utf8.simps [of "c # cs"] split: if_splits)
      from "1.IH"(2) [OF Cons False v "1.prems"(2)] have "valid_utf8 (drop (utf8_len (s @ t)) (s @ t))"
        using utf8_len_append [OF v(1), of t] utf8_len_le [of s] by simp
      with False v(1) utf8_len_append [OF v(1), of t] show ?thesis
        by (simp add: Cons valid_utf8.simps [of "c # cs @ t"])
    qed
  qed (use "1.prems" in simp)
qed


definition ascii :: "string \<Rightarrow> bool" where
  "ascii s \<longleftrightarrow> (\<forall>c \<in> set s. of_char c < (128 :: nat))"

lemma ascii_append [simp]: "ascii (s @ t) \<longleftrightarrow> ascii s \<and> ascii t"
  by (auto simp: ascii_def)

lemma ascii_valid: "ascii s \<Longrightarrow> valid_utf8 s"
  by (induction s) (simp_all add: ascii_def valid_utf8.simps)

lemma ascii_Itoa [simp]: "ascii (Itoa n)"
  using is_digit_nat_digits by (fastforce simp: ascii_def Itoa_def is_digit_def less_eq_char_def)

lemma wf_record_json: "record_ok d \<Longrightarrow> wf_json (record_json d) \<and> nesting (record_json d) = 1"
  by (auto simp: record_ok_def record_json_def wf_number_def ascii_def intro!: ascii_valid)

lemma wf_response_json:
  assumes "\<forall>d \<in> set (resp_data r). record_ok d" "valid_utf8 (resp_next_page r)"
  shows "wf_json (response_json r)" "nesting (response_json r) \<le> 3"
proof -
  have keys: "valid_utf8 ''data''" "valid_utf8 ''nextPage''" by (simp_all add: ascii_def ascii_valid)
  have "foldr max (map nesting (map record_json ds)) 0 \<le> 1" if "\<forall>d \<in> set ds. record_ok d" for ds
    using that by (induction ds) (auto simp: wf_record_json)
  from this [OF assms(1)] show "nesting (response_json r) \<le> 3" by (simp add: response_json_def)
  show "wf_json (response_json r)" using assms keys by (auto simp: response_json_def wf_record_json)
qed

lemma read_response_Encode:
  assumes "\<forall>d \<in> set (resp_data r). record_ok d" "valid_utf8 (resp_next_page r)"
  shows "read_response (Encode r) = Some r"
proof -
  have "json_parse (Encode r) = Some (response_json r)"
    using wf_response_json [OF assms] json_parse_print by (simp add: Encode_def max_nesting_def)
  then show ?thesis
    using read_records_json [OF assms(1)]
    by (simp add: read_response_def response_json_def member_of_def read_str_def read_data_def)
qed

end
