(* ===== verification/Router.thy ===== *)
theory Router
  imports Persistor Synchronizer Json_Encode
begin

text \<open>
  The HTTP handlers (\<^verbatim>\<open>router/router.go\<close>): health, a page of the records, and the last
  indexed block; the table of routes, over the router of gorilla/mux as a parameter. A request is
  its method and the path and the raw query of its URL; the query is decoded as \<^verbatim>\<open>net/url\<close>
  does. A response is its status, the content type if the handler sets it, and the bytes of the
  body. The theory \<open>Server\<close> has \<^verbatim>\<open>RunServer\<close>.
\<close>

section \<open>Queries\<close>

text \<open>\<^verbatim>\<open>QueryUnescape\<close>; \<open>None\<close> is an invalid escape.\<close>

definition escaped :: "string \<Rightarrow> (char \<times> string) option" where
  "escaped cs =
     (case cs of
        a # b # rest \<Rightarrow>
          (case (hex_value a, hex_value b) of
             (Some m, Some n) \<Rightarrow> Some (char_of (16 * m + n), rest)
           | _ \<Rightarrow> None)
      | _ \<Rightarrow> None)"

lemma escaped_shorter: "escaped cs = Some (c, rest) \<Longrightarrow> length rest < length cs"
  by (auto simp: escaped_def split: list.splits option.splits)

function QueryUnescape :: "string \<Rightarrow> string option" where
  "QueryUnescape s =
     (case s of
        [] \<Rightarrow> Some []
      | c # cs \<Rightarrow>
          if c = CHR ''%'' then
            (case escaped cs of
               None \<Rightarrow> None
             | Some (d, rest) \<Rightarrow> map_option (\<lambda>t. d # t) (QueryUnescape rest))
          else map_option (\<lambda>t. (if c = CHR ''+'' then CHR '' '' else c) # t) (QueryUnescape cs))"
  by pat_completeness auto
termination
  by (relation "measure length") (auto dest: escaped_shorter)

declare QueryUnescape.simps [simp del]

text \<open>\<^verbatim>\<open>strings.Cut\<close>, which leaves the whole string before a missing separator.\<close>

definition Cut :: "string \<Rightarrow> string \<Rightarrow> string \<times> string" where
  "Cut s sep = (case cut sep s of None \<Rightarrow> (s, []) | Some p \<Rightarrow> p)"

text \<open>One setting of a query; settings that cannot be decoded are skipped.\<close>

definition parse_setting :: "string \<Rightarrow> (string \<times> string) list" where
  "parse_setting part =
     (if part = [] \<or> CHR '';'' \<in> set part then []
      else
        (case Cut part ''='' of (key, value) \<Rightarrow>
           (case (QueryUnescape key, QueryUnescape value) of
              (Some k, Some v) \<Rightarrow> [(k, v)]
            | _ \<Rightarrow> [])))"

definition ParseQuery :: "string \<Rightarrow> (string \<times> string) list" where
  "ParseQuery query = concat (map parse_setting (Split query ''&''))"

text \<open>\<^verbatim>\<open>Get\<close> returns the first value of a key, or the empty string.\<close>

definition query_get :: "(string \<times> string) list \<Rightarrow> string \<Rightarrow> string" where
  "query_get q key = (case map_of q key of None \<Rightarrow> [] | Some v \<Rightarrow> v)"

section \<open>Handlers\<close>

record request =
  url_path :: string
  raw_query :: string

record http_response =
  status :: int
  content_type :: "string option"
  content :: string

definition healthCheck :: "request \<Rightarrow> http_response" where
  "healthCheck r =
     \<lparr>status = 200, content_type = None, content = ''EOA Topic Indexer is up and running!''\<rparr>"

text \<open>\<^verbatim>\<open>http.Error\<close> ends the message with a newline.\<close>

definition http_error :: "string \<Rightarrow> int \<Rightarrow> http_response" where
  "http_error message code =
     \<lparr>status = code, content_type = Some ''text/plain; charset=utf-8'', content = message @ [CHR 0x0A]\<rparr>"

definition page_limit :: "(string \<times> string) list \<Rightarrow> int" where
  "page_limit query =
     (case Atoi (query_get query ''limit'') of (limit, err) \<Rightarrow>
        if err \<noteq> None \<or> limit \<le> 0 then 10 else limit)"

definition next_page_url :: "string \<Rightarrow> int \<Rightarrow> int \<Rightarrow> string" where
  "next_page_url path nextIndex limit =
     path @ ''?startIndex='' @ Itoa nextIndex @ ''&limit='' @ Itoa limit"

text \<open>A panic of the handler stays in the outcome: \<^verbatim>\<open>net/http\<close> catches it and closes the
  connection.\<close>

definition getPaginated :: "'p bolt \<Rightarrow> gob_types \<Rightarrow> (bytes \<Rightarrow> string) \<Rightarrow> 'p \<Rightarrow> request \<Rightarrow> http_response outcome" where
  "getPaginated B G hex db r =
     (let query = ParseQuery (raw_query r);
          startIndex = fst (Atoi (query_get query ''startIndex''));
          limit = page_limit query
      in case GetPaginated B G hex startIndex limit db of
           Fail err \<Rightarrow> Return (http_error ''Failed to fetch data'' 500)
         | Panic m \<Rightarrow> Panic m
         | Return (data, nextIndex) \<Rightarrow>
             Return \<lparr>status = 200, content_type = Some ''application/json'', content = Encode
               \<lparr>resp_data = data,
                resp_next_page =
                  (if int (length data) = limit then next_page_url (url_path r) nextIndex limit else [])\<rparr>\<rparr>)"

definition getLatestBlockIndexed :: "sync \<Rightarrow> request \<Rightarrow> http_response" where
  "getLatestBlockIndexed s r =
     \<lparr>status = 200, content_type = None, content = Itoa (go_int (GetCurrBlock s - 1))\<rparr>"

section \<open>Routes\<close>

text \<open>The methods of the router that are registered as handlers.\<close>

datatype handler = HealthCheck | Paginated | LatestBlockIndexed

record route =
  route_path :: string
  route_methods :: "string list"
  route_handler :: handler

definition NewRouter :: "route list" where
  "NewRouter =
     [\<lparr>route_path = ''/health'', route_methods = [''GET''], route_handler = HealthCheck\<rparr>,
      \<lparr>route_path = ''/data'', route_methods = [''GET''], route_handler = Paginated\<rparr>,
      \<lparr>route_path = ''/last-block-indexed'', route_methods = [''GET''], route_handler = LatestBlockIndexed\<rparr>]"

definition handle :: "'p bolt \<Rightarrow> gob_types \<Rightarrow> (bytes \<Rightarrow> string) \<Rightarrow> 'p \<Rightarrow> sync \<Rightarrow> handler \<Rightarrow> request \<Rightarrow>
    http_response outcome" where
  "handle B G hex db s h r =
     (case h of
        HealthCheck \<Rightarrow> Return (healthCheck r)
      | Paginated \<Rightarrow> getPaginated B G hex db r
      | LatestBlockIndexed \<Rightarrow> Return (getLatestBlockIndexed s r))"

text \<open>The router of gorilla/mux is a parameter. It picks a handler for a method and a request,
  or answers itself. Its documentation, for paths without variables that need no cleaning:
  the route with the path of the request is taken if it has the method; otherwise the answer
  is 405, and 404 if no route has the path.\<close>

type_synonym mux = "route list \<Rightarrow> string \<Rightarrow> request \<Rightarrow> handler + http_response"

definition plain_path :: "string \<Rightarrow> bool" where
  "plain_path p \<longleftrightarrow>
     (case p of
        [] \<Rightarrow> False
      | c # cs \<Rightarrow> c = CHR ''/'' \<and> cs \<noteq> [] \<and> (\<forall>d \<in> set cs. d \<notin> {CHR ''/'', CHR ''.'', CHR ''{'', CHR ''}''}))"

definition route_of :: "route list \<Rightarrow> request \<Rightarrow> route option" where
  "route_of routes r = find (\<lambda>x. route_path x = url_path r) routes"

definition gorilla_mux :: "mux \<Rightarrow> bool" where
  "gorilla_mux M \<longleftrightarrow> (\<forall>routes meth r.
     plain_path (url_path r) \<longrightarrow> distinct (map route_path routes) \<longrightarrow> (\<forall>x \<in> set routes. plain_path (route_path x)) \<longrightarrow>
     (case route_of routes r of
        None \<Rightarrow> (\<exists>resp. M routes meth r = Inr resp \<and> status resp = 404)
      | Some x \<Rightarrow>
          if meth \<in> set (route_methods x) then M routes meth r = Inl (route_handler x)
          else \<exists>resp. M routes meth r = Inr resp \<and> status resp = 405))"

definition ServeHTTP :: "mux \<Rightarrow> 'p bolt \<Rightarrow> gob_types \<Rightarrow> (bytes \<Rightarrow> string) \<Rightarrow> 'p \<Rightarrow> sync \<Rightarrow> string \<Rightarrow> request \<Rightarrow>
    http_response outcome" where
  "ServeHTTP M B G hex db s meth r =
     (case M NewRouter meth r of
        Inl h \<Rightarrow> handle B G hex db s h r
      | Inr resp \<Rightarrow> Return resp)"

lemma NewRouter_plain: "distinct (map route_path NewRouter)" "\<forall>x \<in> set NewRouter. plain_path (route_path x)"
  by (simp_all add: NewRouter_def plain_path_def)

lemma gorilla_mux_NewRouter:
  assumes "gorilla_mux M" "plain_path (url_path r)"
  shows "case route_of NewRouter r of
      None \<Rightarrow> (\<exists>resp. M NewRouter meth r = Inr resp \<and> status resp = 404)
    | Some x \<Rightarrow>
        if meth \<in> set (route_methods x) then M NewRouter meth r = Inl (route_handler x)
        else \<exists>resp. M NewRouter meth r = Inr resp \<and> status resp = 405"
  using assms NewRouter_plain unfolding gorilla_mux_def by blast

lemma ServeHTTP_get:
  assumes "gorilla_mux M"
  shows "url_path r = ''/health'' \<Longrightarrow> ServeHTTP M B G hex db s ''GET'' r = Return (healthCheck r)"
    "url_path r = ''/data'' \<Longrightarrow> ServeHTTP M B G hex db s ''GET'' r = getPaginated B G hex db r"
    "url_path r = ''/last-block-indexed'' \<Longrightarrow>
      ServeHTTP M B G hex db s ''GET'' r = Return (getLatestBlockIndexed s r)"
  using gorilla_mux_NewRouter [OF assms, of r "''GET''"]
  by (simp_all add: plain_path_def route_of_def NewRouter_def ServeHTTP_def handle_def)

text \<open>A router that keeps these rules.\<close>

definition ref_mux :: mux where
  "ref_mux routes meth r =
     (case route_of routes r of
        None \<Rightarrow> Inr (http_error ''404 page not found'' 404)
      | Some x \<Rightarrow>
          if meth \<in> set (route_methods x) then Inl (route_handler x)
          else Inr \<lparr>status = 405, content_type = None, content = []\<rparr>)"

lemma gorilla_mux_ref_mux: "gorilla_mux ref_mux"
  by (simp add: gorilla_mux_def ref_mux_def http_error_def split: option.split)

section \<open>Reading back a link\<close>

lemma cut_char:
  assumes "c \<notin> set a"
  shows "cut [c] (a @ c # b) = Some (a, b)" "cut [c] a = None"
  using assms by (induction a) (auto simp: HasPrefix_def)

lemma QueryUnescape_plain:
  assumes "CHR ''%'' \<notin> set s" "CHR ''+'' \<notin> set s"
  shows "QueryUnescape s = Some s"
  using assms by (induction s) (subst QueryUnescape.simps, auto)+

lemma Itoa_chars: "c \<in> set (Itoa n) \<Longrightarrow> c = CHR ''-'' \<or> (CHR ''0'' \<le> c \<and> c \<le> CHR ''9'')"
  using set_nat_digits by (auto simp: Itoa_def split: if_splits)

lemma Itoa_plain:
  "CHR ''&'' \<notin> set (Itoa n)" "CHR ''='' \<notin> set (Itoa n)" "CHR ''%'' \<notin> set (Itoa n)"
  "CHR ''+'' \<notin> set (Itoa n)" "CHR '';'' \<notin> set (Itoa n)" "CHR ''?'' \<notin> set (Itoa n)"
  by (auto dest!: Itoa_chars simp: less_eq_char_def)

lemma Split_char:
  "c \<notin> set a \<Longrightarrow> Split (a @ c # b) [c] = a # Split b [c]"
  "c \<notin> set a \<Longrightarrow> Split a [c] = [a]"
  by (subst Split.simps, simp add: cut_char)+

lemma parse_setting_number:
  assumes "set key \<inter> {CHR ''='', CHR ''%'', CHR ''+'', CHR '';''} = {}"
  shows "parse_setting (key @ ''='' @ Itoa n) = [(key, Itoa n)]"
proof -
  have "Cut (key @ ''='' @ Itoa n) ''='' = (key, Itoa n)"
    using cut_char(1) [of "CHR ''=''" key "Itoa n"] assms by (auto simp: Cut_def)
  moreover have "QueryUnescape key = Some key" "QueryUnescape (Itoa n) = Some (Itoa n)"
    using assms Itoa_plain [of n] by (auto intro!: QueryUnescape_plain)
  moreover have "CHR '';'' \<notin> set (key @ ''='' @ Itoa n)" using assms Itoa_plain [of n] by auto
  ultimately show ?thesis by (simp add: parse_setting_def)
qed

text \<open>The query of a link that \<open>next_page_url\<close> writes.\<close>

definition page_query :: "int \<Rightarrow> int \<Rightarrow> string" where
  "page_query startIndex limit = ''startIndex='' @ Itoa startIndex @ ''&limit='' @ Itoa limit"

lemma ParseQuery_page_query:
  "ParseQuery (page_query n l) = [(''startIndex'', Itoa n), (''limit'', Itoa l)]"
proof -
  have s: "page_query n l = (''startIndex='' @ Itoa n) @ CHR ''&'' # (''limit='' @ Itoa l)"
    by (simp add: page_query_def)
  have "CHR ''&'' \<notin> set (''startIndex='' @ Itoa n)" "CHR ''&'' \<notin> set (''limit='' @ Itoa l)"
    using Itoa_plain by auto
  then have "Split (page_query n l) ''&'' = [''startIndex='' @ Itoa n, ''limit='' @ Itoa l]"
    unfolding s by (simp only: Split_char not_False_eq_True)
  then show ?thesis
    using parse_setting_number [of "''startIndex''" n] parse_setting_number [of "''limit''" l]
    by (simp add: ParseQuery_def)
qed

lemma page_limit_pos: "0 < page_limit query"
  by (auto simp: page_limit_def split: prod.split)

section \<open>Pages\<close>

lemma next_page_url_query: "next_page_url path n l = path @ CHR ''?'' # page_query n l"
  by (simp add: next_page_url_def page_query_def)

lemma query_get_page_query:
  "query_get (ParseQuery (page_query n l)) ''startIndex'' = Itoa n"
  "query_get (ParseQuery (page_query n l)) ''limit'' = Itoa l"
  by (simp_all add: ParseQuery_page_query query_get_def)

lemma page_limit_page_query: "0 < l \<Longrightarrow> is_int64 l \<Longrightarrow> page_limit (ParseQuery (page_query n l)) = l"
  by (simp add: page_limit_def query_get_page_query Atoi_def ParseInt_Itoa)

text \<open>The hypotheses on a database that serves pages.\<close>

definition serves :: "'p bolt \<Rightarrow> ('p \<Rightarrow> content) \<Rightarrow> gob_types \<Rightarrow> 'p \<Rightarrow> indexed_data list \<Rightarrow> bool" where
  "serves B view G db es \<longleftrightarrow>
     bolt_store B view \<and> holds_records view G db es \<and> int (length es) \<le> max_int \<and> gob_types_wf G \<and>
     (\<forall>d \<in> set es. indexed_data_wf d) \<and> (\<exists>tx. b_view B db = Inr tx)"

lemma serves_page:
  assumes "serves B view G db es" "0 \<le> start" "start \<le> max_int"
  shows "GetPaginated B G hex start limit db =
    Return (page_of hex es start limit, start + int (length (page_of hex es start limit)))"
proof -
  from assms(1) obtain tx where "b_view B db = Inr tx" by (auto simp: serves_def)
  with assms show ?thesis
    using bolt_store.GetPaginated_stored [of B view db G es start tx hex limit]
    by (auto simp: serves_def holds_records_def)
qed

lemma serves_getPaginated:
  assumes "serves B view G db es" "0 \<le> start" "start \<le> max_int" "0 < l" "is_int64 l"
  shows "getPaginated B G hex db \<lparr>url_path = path, raw_query = page_query start l\<rparr> =
    Return \<lparr>status = 200, content_type = Some ''application/json'', content = Encode
      \<lparr>resp_data = page_of hex es start l,
       resp_next_page = (if start + l \<le> int (length es) then next_page_url path (start + l) l else [])\<rparr>\<rparr>"
proof -
  have "int (length (page_of hex es start l)) = l \<longleftrightarrow> start + l \<le> int (length es)"
    using assms(2,4) by (auto simp: page_of_def min_def)
  moreover have "is_int64 start" using assms(2,3) by (simp add: min_int_def)
  ultimately show ?thesis
    using serves_page [OF assms(1-3)] page_limit_page_query [OF assms(4,5)]
    by (auto simp: getPaginated_def Let_def query_get_page_query Atoi_def ParseInt_Itoa)
qed

section \<open>Properties\<close>

text \<open>A request with a plain path reaches a handler only as a \<^verbatim>\<open>GET\<close> of one of the three
  paths; a different method is answered with 405, a different path with 404.\<close>

theorem requests_routed:
  assumes "gorilla_mux M" and "plain_path (url_path r)"
    and "meth \<noteq> ''GET'' \<or> url_path r \<notin> {''/health'', ''/data'', ''/last-block-indexed''}"
  shows "\<exists>resp. ServeHTTP M B G hex db s meth r = Return resp \<and>
    status resp = (if url_path r \<in> {''/health'', ''/data'', ''/last-block-indexed''} then 405 else 404)"
  using gorilla_mux_NewRouter [OF assms(1,2), of meth] assms(3)
  by (auto simp: route_of_def NewRouter_def ServeHTTP_def)

theorem requests_routed_witness:
  "\<exists>resp. ServeHTTP ref_mux ref_bolt ref_types (\<lambda>_. ''0x'') ref_empty NewSynchronizer ''POST''
      \<lparr>url_path = ''/data'', raw_query = []\<rparr> = Return resp \<and> status resp = 405"
  using requests_routed [OF gorilla_mux_ref_mux, of "\<lparr>url_path = ''/data'', raw_query = []\<rparr>" "''POST''"]
  by (simp add: plain_path_def)

text \<open>The page that \<^verbatim>\<open>/data\<close> returns: for a start index of at least 0 and any limit, the
  records from that index on, at most the limit (10 when the limit is missing, not a number
  or not positive), and a link to the next page exactly when the page is full. A start index
  that is missing or not a number counts as 0.\<close>

lemma getPaginated_page_response:
  assumes "serves B view G db es"
    and "start = fst (Atoi (query_get (ParseQuery (raw_query r)) ''startIndex''))" and "0 \<le> start"
    and "limit = page_limit (ParseQuery (raw_query r))"
  shows "getPaginated B G hex db r = Return \<lparr>status = 200, content_type = Some ''application/json'', content = Encode
      \<lparr>resp_data = page_of hex es start limit,
       resp_next_page = (if start + limit \<le> int (length es)
         then url_path r @ ''?startIndex='' @ Itoa (start + limit) @ ''&limit='' @ Itoa limit else [])\<rparr>\<rparr> \<and>
    0 < limit"
proof -
  have pos: "0 < limit" using assms(4) page_limit_pos by simp
  have "is_int64 start" using ParseInt_range assms(2) by (metis Atoi_def prod.collapse)
  then have page: "GetPaginated B G hex start limit db =
      Return (page_of hex es start limit, start + int (length (page_of hex es start limit)))"
    using serves_page [OF assms(1,3)] by blast
  have "int (length (page_of hex es start limit)) = limit \<longleftrightarrow> start + limit \<le> int (length es)"
    using pos assms(3) by (auto simp: page_of_def min_def)
  with page pos show ?thesis
    by (auto simp: getPaginated_def Let_def assms(2) [symmetric] assms(4) [symmetric] next_page_url_def)
qed

text \<open>A database with two records, for the witnesses.\<close>

lemma ref_serves: "\<exists>db. serves ref_bolt ref_view ref_types db [zero_data, zero_data]"
proof -
  obtain db where "SaveData ref_bolt ref_types (number_from (int (length ([] :: indexed_data list))) [zero_data, zero_data]) 7
      ref_empty = Return db"
    by (simp add: SaveData_def ref_bolt_def ref_empty_def put_in_def)
  from ref.saving.save_appends [OF holds_records_ref_empty, OF this]
  have "holds_records ref_view ref_types db [zero_data, zero_data]" by simp
  moreover have "b_view ref_bolt db = Inr db" by (simp add: ref_bolt_def)
  moreover have "indexed_data_wf zero_data" by (simp add: indexed_data_wf_def zero_data_def)
  ultimately show ?thesis
    using ref.bolt_store_axioms gob_types_wf_ref_types by (auto simp: serves_def max_int_def)
qed

end
