(* ===== verification/Rpc.thy ===== *)
theory Rpc
  imports Go_Strings
begin

text \<open>
  The three requests the balancer sends (\<^verbatim>\<open>balancer/rpc.go\<close>): logs of a range, a batch of
  block headers and transactions, and the block of a tag. What go-ethereum does is the
  record \<open>eth_api\<close>, an argument of every definition: a client handle has type \<open>'c\<close>, a
  transaction type \<open>'t\<close>, and the calls read and change the outside world \<open>'w\<close> (the
  endpoints, the clock and the network). The record also holds the clock and the decision
  of the \<^verbatim>\<open>select\<close> in \<open>doRetry\<close> whether the timer fires before the answer arrives.
\<close>

section \<open>What go-ethereum provides\<close>

record log =
  BlockNumber :: uint64
  TxHash :: bytes
  Index :: uint64
  LogData :: bytes

record header =
  Number :: int
  Time :: uint64
  ParentHash :: bytes

datatype rpc_arg = ArgString string | ArgBool bool | ArgHash bytes

record batch_elem =
  Method :: string
  Args :: "rpc_arg list"

text \<open>What a batch call leaves in an element: its error, and the value decoded into the
  header or transaction pointer that the element points to, \<open>None\<close> for a nil pointer.\<close>

record 't batch_result =
  elem_error :: "go_error option"
  elem_header :: "header option"
  elem_tx :: "'t option"

record ('c, 't, 'w) eth_api =
  Dial :: "string \<Rightarrow> 'w \<Rightarrow> (go_error + 'c) \<times> 'w"
  FilterLogs :: "'c \<Rightarrow> int \<Rightarrow> int \<Rightarrow> bytes list list \<Rightarrow> 'w \<Rightarrow> (go_error + log list) \<times> 'w"
  BatchCall :: "'c \<Rightarrow> batch_elem list \<Rightarrow> 'w \<Rightarrow> (go_error + (nat \<Rightarrow> 't batch_result)) \<times> 'w"
  BlockByNumber :: "'c \<Rightarrow> int \<Rightarrow> 'w \<Rightarrow> (go_error + uint64) \<times> 'w"
  HexToHash :: "string \<Rightarrow> bytes"
  EncodeBig :: "int \<Rightarrow> string"
  BlockNumberString :: "int \<Rightarrow> string"
  LatestBlockNumber :: int
  SafeBlockNumber :: int
  FinalizedBlockNumber :: int
  Now :: "'w \<Rightarrow> int \<times> 'w"
  Sleep :: "int \<Rightarrow> 'w \<Rightarrow> 'w"
  TimerFirst :: "int \<Rightarrow> 'c \<Rightarrow> 'w \<Rightarrow> bool"

section \<open>Requests and answers\<close>

record logReqInput =
  startBlock :: int
  endBlock :: int
  topic :: string

record blocksAndTxsReqInput =
  blockNumbers :: "uint64 list"
  txHashes :: "bytes list"

record 't blocksAndTxsReqOutput =
  out_blocks :: "header option list"
  out_txs :: "'t option list"

text \<open>The generic request and its answer: pointers of which one is not nil.\<close>

record genericInput =
  in_logs :: "logReqInput option"
  in_blockAndTxs :: "blocksAndTxsReqInput option"
  in_blockTag :: "string option"

record 't genericOutput =
  res_logs :: "log list option"
  res_blockAndTxs :: "'t blocksAndTxsReqOutput option"
  res_blockTag :: "int option"

section \<open>The requests\<close>

definition tag_number :: "('c, 't, 'w) eth_api \<Rightarrow> string \<Rightarrow> int" where
  "tag_number E tag =
     (if tag = ''finalized'' then FinalizedBlockNumber E
      else if tag = ''safe'' then SafeBlockNumber E
      else if tag = ''latest'' then LatestBlockNumber E
      else 0)"

definition getBlockFromTag :: "('c, 't, 'w) eth_api \<Rightarrow> string \<Rightarrow> 'c \<Rightarrow> ('w, 't genericOutput) call" where
  "getBlockFromTag E tag eClient w =
     (case BlockByNumber E eClient (tag_number E tag) w of
        (Inl err, w') \<Rightarrow> (Fail err, w')
      | (Inr number, w') \<Rightarrow>
          (Return \<lparr>res_logs = None, res_blockAndTxs = None, res_blockTag = Some (int_of_uint64 number)\<rparr>, w'))"

definition getLogs :: "('c, 't, 'w) eth_api \<Rightarrow> logReqInput \<Rightarrow> 'c \<Rightarrow> ('w, 't genericOutput) call" where
  "getLogs E input eClient w =
     (case FilterLogs E eClient (startBlock input) (endBlock input) [[HexToHash E (topic input)]] w of
        (Inl err, w') \<Rightarrow> (Fail err, w')
      | (Inr logs, w') \<Rightarrow>
          (Return \<lparr>res_logs = Some logs, res_blockAndTxs = None, res_blockTag = None\<rparr>, w'))"

definition toBlockNumArg :: "('c, 't, 'w) eth_api \<Rightarrow> int option \<Rightarrow> string" where
  "toBlockNumArg E number =
     (case number of
        None \<Rightarrow> ''latest''
      | Some n \<Rightarrow>
          if 0 \<le> n then EncodeBig E n
          else if is_int64 n then BlockNumberString E n
          else ''<invalid '' @ Itoa n @ ''>'')"

definition block_elem :: "('c, 't, 'w) eth_api \<Rightarrow> uint64 \<Rightarrow> batch_elem" where
  "block_elem E bn =
     \<lparr>Method = ''eth_getBlockByNumber'',
      Args = [ArgString (toBlockNumArg E (Some (int_of_uint64 bn))), ArgBool False]\<rparr>"

definition tx_elem :: "bytes \<Rightarrow> batch_elem" where
  "tx_elem hash = \<lparr>Method = ''eth_getTransactionByHash'', Args = [ArgHash hash]\<rparr>"

text \<open>The first error of a batch element, in order.\<close>

fun first_error :: "'t batch_result list \<Rightarrow> go_error option" where
  "first_error [] = None"
| "first_error (r # rs) = (case elem_error r of Some err \<Rightarrow> Some err | None \<Rightarrow> first_error rs)"

definition getBlocksAndTxs :: "('c, 't, 'w) eth_api \<Rightarrow> blocksAndTxsReqInput \<Rightarrow> 'c \<Rightarrow>
    ('w, 't genericOutput) call" where
  "getBlocksAndTxs E input eClient w =
     (let bns = blockNumbers input; hashes = txHashes input;
          batchEls = map (block_elem E) bns @ map tx_elem hashes in
      case BatchCall E eClient batchEls w of
        (Inl err, w') \<Rightarrow> (Fail err, w')
      | (Inr results, w') \<Rightarrow>
          (case first_error (map results [0..<length batchEls]) of
             Some err \<Rightarrow> (Fail err, w')
           | None \<Rightarrow>
               (Return
                  \<lparr>res_logs = None,
                   res_blockAndTxs = Some
                     \<lparr>out_blocks = map (\<lambda>i. elem_header (results i)) [0..<length bns],
                      out_txs = map (\<lambda>i. elem_tx (results (length bns + i))) [0..<length hashes]\<rparr>,
                   res_blockTag = None\<rparr>, w')))"

definition doGenericReq :: "('c, 't, 'w) eth_api \<Rightarrow> genericInput \<Rightarrow> 'c \<Rightarrow> ('w, 't genericOutput) call" where
  "doGenericReq E input eClient =
     (case in_logs input of
        Some logs \<Rightarrow> getLogs E logs eClient
      | None \<Rightarrow>
          (case in_blockAndTxs input of
             Some b \<Rightarrow> getBlocksAndTxs E b eClient
           | None \<Rightarrow>
               (case in_blockTag input of
                  Some tag \<Rightarrow> getBlockFromTag E tag eClient
                | None \<Rightarrow> call_lift (Fail (NewError ''impossible code'')))))"

section \<open>Facts\<close>

lemma doGenericReq_no_Panic: "fst (doGenericReq E input c w) \<noteq> Panic msg"
  by (auto simp: doGenericReq_def getLogs_def getBlocksAndTxs_def getBlockFromTag_def Let_def
      split: option.split sum.split prod.split)

text \<open>The answer to a request has the part that the request asks for.\<close>

definition answers :: "genericInput \<Rightarrow> 't genericOutput \<Rightarrow> bool" where
  "answers input output \<longleftrightarrow>
     (case in_logs input of
        Some _ \<Rightarrow> res_logs output \<noteq> None
      | None \<Rightarrow>
          (case in_blockAndTxs input of
             Some b \<Rightarrow> (\<exists>r. res_blockAndTxs output = Some r \<and>
                length (out_blocks r) = length (blockNumbers b) \<and> length (out_txs r) = length (txHashes b))
           | None \<Rightarrow> in_blockTag input \<noteq> None \<and> res_blockTag output \<noteq> None))"

lemma doGenericReq_answers:
  assumes "doGenericReq E input c w = (Return output, w')"
  shows "answers input output"
  using assms
  by (auto simp: doGenericReq_def answers_def getLogs_def getBlocksAndTxs_def getBlockFromTag_def Let_def
      split: option.splits sum.splits prod.splits)

lemma first_error_None: "first_error rs = None \<longleftrightarrow> (\<forall>r \<in> set rs. elem_error r = None)"
  by (induction rs) (auto split: option.splits)

lemma getBlocksAndTxs_Return:
  assumes "getBlocksAndTxs E input c w = (Return out, w')"
  shows "\<exists>results. BatchCall E c (map (block_elem E) (blockNumbers input) @ map tx_elem (txHashes input)) w
      = (Inr results, w') \<and>
    (\<forall>i < length (blockNumbers input) + length (txHashes input). elem_error (results i) = None) \<and>
    res_blockAndTxs out = Some
      \<lparr>out_blocks = map (\<lambda>i. elem_header (results i)) [0..<length (blockNumbers input)],
       out_txs = map (\<lambda>i. elem_tx (results (length (blockNumbers input) + i))) [0..<length (txHashes input)]\<rparr>"
  using assms
  by (auto simp: getBlocksAndTxs_def Let_def first_error_None split: sum.splits prod.splits option.splits)

text \<open>Concrete clients for the witnesses: the world is a clock that stands still, and the
  name of the endpoint decides how it answers.\<close>

definition ref_eth :: "(string, nat, int) eth_api" where
  "ref_eth =
     \<lparr>Dial = (\<lambda>endpoint w. (Inr endpoint, w)),
      FilterLogs = (\<lambda>c from to tps w.
        (if c = ''good'' then Inr []
         else if c = ''limited'' then Inl (Foreign ''429 Too Many Requests'' None)
         else Inl (Foreign ''connection refused'' (Some ''{}'')), w)),
      BatchCall = (\<lambda>c els w.
        (if c = ''good'' then Inr (\<lambda>i. \<lparr>elem_error = None,
           elem_header = Some \<lparr>Number = int i, Time = 7, ParentHash = ''hash''\<rparr>, elem_tx = Some i\<rparr>)
         else Inl (Foreign ''connection refused'' (Some ''{}'')), w)),
      BlockByNumber = (\<lambda>c n w. (Inr 100, w)),
      HexToHash = (\<lambda>x. x), EncodeBig = Itoa, BlockNumberString = Itoa,
      LatestBlockNumber = - 2, SafeBlockNumber = - 4, FinalizedBlockNumber = - 3,
      Now = (\<lambda>w. (w, w)), Sleep = (\<lambda>d w. w + d), TimerFirst = (\<lambda>d c w. False)\<rparr>"

text \<open>A batch request asks for every block and every transaction once, in the order
  given, and succeeds only if the call and each of its elements did; the answer then has
  one entry per block and per transaction, in the same order.\<close>

theorem getBlocksAndTxs_aligned:
  assumes "getBlocksAndTxs E input c w = (Return output, w')"
  shows "\<exists>results r. BatchCall E c (map (block_elem E) (blockNumbers input) @ map tx_elem (txHashes input)) w
      = (Inr results, w') \<and>
    res_blockAndTxs output = Some r \<and>
    (\<forall>i < length (blockNumbers input) + length (txHashes input). elem_error (results i) = None) \<and>
    length (out_blocks r) = length (blockNumbers input) \<and>
    length (out_txs r) = length (txHashes input) \<and>
    (\<forall>i < length (blockNumbers input). out_blocks r ! i = elem_header (results i)) \<and>
    (\<forall>i < length (txHashes input). out_txs r ! i = elem_tx (results (length (blockNumbers input) + i)))"
  using getBlocksAndTxs_Return [OF assms] by auto

theorem getBlocksAndTxs_aligned_witness:
  "\<exists>out w' r. getBlocksAndTxs ref_eth \<lparr>blockNumbers = [5, 9], txHashes = [''aa'']\<rparr> ''good'' 0 = (Return out, w') \<and>
     res_blockAndTxs out = Some r \<and> length (out_blocks r) = 2 \<and> length (out_txs r) = 1"
proof -
  obtain out w' where
    "getBlocksAndTxs ref_eth \<lparr>blockNumbers = [5, 9], txHashes = [''aa'']\<rparr> ''good'' 0 = (Return out, w')"
    by (simp add: getBlocksAndTxs_def ref_eth_def Let_def first_error_None upt_rec)
  with getBlocksAndTxs_aligned [OF this] show ?thesis by fastforce
qed

end
