(* ===== verification/Interfaces.thy ===== *)
theory Interfaces
  imports "HOL-Library.Multiset" Rpc
begin

text \<open>
  The interface \<^verbatim>\<open>types.Balancer\<close> (\<^verbatim>\<open>types/interfaces.go\<close>) through which the fetcher and
  the orchestrator use the balancer: three operations on a state \<open>'s\<close>, where \<open>None\<close> means
  that a call does not return. Locales say what its users rely on: every call returns,
  with an aligned answer or one of the two documented errors (\<open>balancer_service\<close>), and an
  answer shows the chain (\<open>honest_balancer\<close>). The theory \<open>Balancer\<close> proves the first for
  the model of the balancer, and the second from honest endpoints.
\<close>

record ('s, 't) balancer_api =
  api_GetLogs :: "int \<Rightarrow> int \<Rightarrow> string \<Rightarrow> 's \<Rightarrow> (log list outcome \<times> 's) option"
  api_GetBlockFromTag :: "string \<Rightarrow> 's \<Rightarrow> (int outcome \<times> 's) option"
  api_GetBlocksAndTxs :: "uint64 list \<Rightarrow> bytes list \<Rightarrow> 's \<Rightarrow>
    ((header option list \<times> 't option list) outcome \<times> 's) option"

text \<open>The outcomes that the comments of the interface announce.\<close>

definition announced :: "'a outcome \<Rightarrow> bool" where
  "announced r \<longleftrightarrow> (\<exists>x. r = Return x) \<or> r = Fail ErrReqTooBig \<or> r = Fail ErrMaxRounds"

text \<open>\<open>ok n s\<close> says that the balancer in state \<open>s\<close> has room for \<open>n\<close> more calls: its counter
  of attempts is a 64-bit integer.\<close>

locale balancer_service =
  fixes A :: "('s, 't) balancer_api" and ok :: "nat \<Rightarrow> 's \<Rightarrow> bool"
  assumes ok_less: "ok (Suc n) s \<Longrightarrow> ok n s"
    and logs_total: "ok (Suc n) s \<Longrightarrow>
      \<exists>r s'. api_GetLogs A lo hi tp s = Some (r, s') \<and> ok n s' \<and> announced r"
    and tag_total: "ok (Suc n) s \<Longrightarrow>
      \<exists>r s'. api_GetBlockFromTag A tag s = Some (r, s') \<and> ok n s' \<and> announced r"
    and batch_total: "ok (Suc n) s \<Longrightarrow>
      \<exists>r s'. api_GetBlocksAndTxs A bns hashes s = Some (r, s') \<and> ok n s' \<and> announced r"
    and batch_aligned: "api_GetBlocksAndTxs A bns hashes s = Some (Return (blocks, txs), s') \<Longrightarrow>
      length blocks = length bns \<and> length txs = length hashes"

text \<open>The chain: the logs with the topic in each block, the headers and the transactions.\<close>

record 't chain =
  chain_logs :: "int \<Rightarrow> log list"
  chain_header :: "uint64 \<Rightarrow> header"
  chain_tx :: "bytes \<Rightarrow> 't"

definition logs_between :: "'t chain \<Rightarrow> int \<Rightarrow> int \<Rightarrow> log list" where
  "logs_between C lo hi = concat (map (chain_logs C) [lo..hi])"

locale honest_balancer =
  fixes A :: "('s, 't) balancer_api" and C :: "'t chain" and tp :: string
  assumes logs_honest: "api_GetLogs A lo hi tp s = Some (Return logs, s') \<Longrightarrow>
      mset logs = mset (logs_between C lo hi)"
    and batch_honest: "api_GetBlocksAndTxs A bns hashes s = Some (Return (blocks, txs), s') \<Longrightarrow>
      blocks = map (Some \<circ> chain_header C) bns \<and> txs = map (Some \<circ> chain_tx C) hashes"

text \<open>A balancer that answers: the next calls do not run out of rounds, and a request is too
  big only if it asks for more than one block.\<close>

locale answering_balancer = balancer_service A ok
  for A :: "('s, 't) balancer_api" and ok :: "nat \<Rightarrow> 's \<Rightarrow> bool" +
  assumes logs_prompt: "ok (Suc n) s \<Longrightarrow> api_GetLogs A lo hi tp s = Some (r, s') \<Longrightarrow>
      (\<exists>logs. r = Return logs) \<or> (r = Fail ErrReqTooBig \<and> lo < hi)"
    and batch_prompt: "ok (Suc n) s \<Longrightarrow> api_GetBlocksAndTxs A bns hashes s = Some (r', s') \<Longrightarrow>
      (\<exists>answer. r' = Return answer) \<or> (r' = Fail ErrReqTooBig \<and> 1 < length bns)"

end
