(* ===== verification/Error_Code.thy ===== *)
theory Error_Code
  imports Json_Decode
begin

text \<open>
  Classification of the errors an RPC call returns (\<^verbatim>\<open>balancer/error_code.go\<close> and
  \<^verbatim>\<open>handleRPCError\<close> of \<^verbatim>\<open>balancer/balancer.go\<close>). An error is rate limiting, a request
  that was too big, or anything else; the code is found in the error's text or in the JSON
  form of the error, as the rpc library keeps its error types private.
\<close>

section \<open>What the code reads of an error\<close>

definition error_text :: "go_error \<Rightarrow> string" where
  "error_text e =
     (case e of
        ErrReqTooBig \<Rightarrow> ''request was too big''
      | ErrMaxRounds \<Rightarrow> ''max rounds done''
      | ErrRateLimit \<Rightarrow> ''request was rate limited''
      | ErrClientBlocked \<Rightarrow> ''client is blocked''
      | ErrClientTimeout \<Rightarrow> ''client timed out''
      | ErrMaxRetries \<Rightarrow> ''max retries reached''
      | NewError text \<Rightarrow> text
      | Foreign text js \<Rightarrow> text)"

text \<open>The errors of \<^verbatim>\<open>errors.New\<close> have no exported field, so they marshal to an empty object.\<close>

definition error_json :: "go_error \<Rightarrow> string option" where
  "error_json e = (case e of Foreign text js \<Rightarrow> js | _ \<Rightarrow> Some ''{}'')"

section \<open>Error codes\<close>

definition rateLimitErrorCode :: int where "rateLimitErrorCode = 429"
definition prefixSliceBadReqError :: string where "prefixSliceBadReqError = ''400 Bad Request: ''"
definition indexPrefixSliceError :: nat where "indexPrefixSliceError = length prefixSliceBadReqError"
definition tooBigErrorCodes :: "int list" where "tooBigErrorCodes = [- 32602, - 32600]"

definition getErrCodeSingle :: "go_error \<Rightarrow> go_error + int" where
  "getErrCodeSingle err =
     (case error_json err of
        None \<Rightarrow> Inl err
      | Some errData \<Rightarrow>
          (case unmarshal_JsonError errData of
             None \<Rightarrow> Inl err
           | Some jsonErr \<Rightarrow> Inr (je_code jsonErr)))"

text \<open>The loop over the responses; \<open>None\<close> is its early return.\<close>

fun common_code :: "int \<Rightarrow> JsonResponse list \<Rightarrow> int option" where
  "common_code errCode [] = Some errCode"
| "common_code errCode (jsonRes # rest) =
     (if errCode = 0 then common_code (je_code (jr_error jsonRes)) rest
      else if errCode \<noteq> je_code (jr_error jsonRes) then None
      else common_code errCode rest)"

definition getErrCodeSliceBadReq :: "go_error \<Rightarrow> go_error + int" where
  "getErrCodeSliceBadReq err =
     (let cleanErr = drop indexPrefixSliceError (error_text err) in
      case unmarshal_JsonResponses cleanErr of
        None \<Rightarrow> Inl err
      | Some jsonResponses \<Rightarrow>
          (case common_code 0 jsonResponses of None \<Rightarrow> Inl err | Some errCode \<Rightarrow> Inr errCode))"

definition getErrCode :: "go_error \<Rightarrow> go_error + int" where
  "getErrCode err =
     (if HasPrefix (error_text err) ''429'' then Inr rateLimitErrorCode
      else if HasPrefix (error_text err) prefixSliceBadReqError \<and> HasSuffix (error_text err) '']''
      then getErrCodeSliceBadReq err
      else getErrCodeSingle err)"

definition handleRPCError :: "go_error \<Rightarrow> go_error" where
  "handleRPCError err =
     (case getErrCode err of
        Inl inErr \<Rightarrow> err
      | Inr errCode \<Rightarrow>
          if errCode \<in> set tooBigErrorCodes then ErrReqTooBig
          else if errCode = rateLimitErrorCode then ErrRateLimit
          else err)"

section \<open>Properties\<close>

lemma getErrCode_Inl: "getErrCode err = Inl e \<Longrightarrow> e = err"
  by (auto simp: getErrCode_def getErrCodeSingle_def getErrCodeSliceBadReq_def Let_def
      split: option.splits if_splits)

lemma handleRPCError_cases:
  "handleRPCError err = ErrReqTooBig \<or> handleRPCError err = ErrRateLimit \<or> handleRPCError err = err"
  by (auto simp: handleRPCError_def split: sum.splits)

text \<open>The codes of a run of responses: the common code of the responses after the leading
  ones without a code.\<close>

definition response_codes :: "JsonResponse list \<Rightarrow> int list" where
  "response_codes rs = map (\<lambda>r. je_code (jr_error r)) rs"

lemma common_code_nonzero:
  "c \<noteq> 0 \<Longrightarrow> common_code c rs = (if \<forall>c' \<in> set (response_codes rs). c' = c then Some c else None)"
  by (induction rs) (auto simp: response_codes_def)

lemma common_code_zero:
  "common_code 0 rs =
     (case dropWhile (\<lambda>c. c = 0) (response_codes rs) of
        [] \<Rightarrow> Some 0
      | c # cs \<Rightarrow> if \<forall>c' \<in> set cs. c' = c then Some c else None)"
proof (induction rs)
  case (Cons r rs)
  show ?case
  proof (cases "je_code (jr_error r) = 0")
    case True
    with Cons show ?thesis by (simp add: response_codes_def)
  next
    case False
    then show ?thesis by (simp add: common_code_nonzero) (simp add: response_codes_def)
  qed
qed (simp add: response_codes_def)

text \<open>C36: a batch error is classified by the codes of its responses: leading responses
  without a code are skipped, and after the first code every response must carry that
  same code, otherwise the error is passed on as it is.\<close>

theorem getErrCodeSliceBadReq_codes:
  assumes "unmarshal_JsonResponses (drop indexPrefixSliceError (error_text err)) = Some rs"
  shows "getErrCodeSliceBadReq err =
    (case dropWhile (\<lambda>c. c = 0) (response_codes rs) of
       [] \<Rightarrow> Inr 0
     | c # cs \<Rightarrow> if \<forall>c' \<in> set cs. c' = c then Inr c else Inl err)"
proof -
  define cs where "cs = dropWhile (\<lambda>c. c = 0) (response_codes rs)"
  have "common_code 0 rs = (case cs of [] \<Rightarrow> Some 0
      | c # cs \<Rightarrow> if \<forall>c' \<in> set cs. c' = c then Some c else None)"
    by (simp only: cs_def common_code_zero)
  with assms show ?thesis
    unfolding cs_def [symmetric] by (cases cs) (simp_all add: getErrCodeSliceBadReq_def)
qed

definition batch_error :: "string \<Rightarrow> go_error" where
  "batch_error body = Foreign (prefixSliceBadReqError @ body) None"

lemma batch_error_body [simp]: "drop indexPrefixSliceError (error_text (batch_error body)) = body"
  by (simp add: batch_error_def error_text_def indexPrefixSliceError_def)

theorem getErrCodeSliceBadReq_codes_witness:
  "getErrCodeSliceBadReq (batch_error ''[{\"id\":1,\"error\":{\"code\":-32600,\"message\":\"m\"}}]'') = Inr (- 32600)"
proof -
  obtain rs where rs: "unmarshal_JsonResponses ''[{\"id\":1,\"error\":{\"code\":-32600,\"message\":\"m\"}}]'' = Some rs"
    and "response_codes rs = [- 32600]"
  proof -
    have "map_option response_codes (unmarshal_JsonResponses
        ''[{\"id\":1,\"error\":{\"code\":-32600,\"message\":\"m\"}}]'') = Some [- 32600]"
      by (simp add: unmarshal_JsonResponses_def json_parse_def json_eval response_codes_def)
    then show ?thesis using that by auto
  qed
  then show ?thesis
    using getErrCodeSliceBadReq_codes [of "batch_error ''[{\"id\":1,\"error\":{\"code\":-32600,\"message\":\"m\"}}]''" rs]
    by simp
qed

text \<open>The order of the responses decides whether a batch error is recognised: a
  response without a code is ignored before the first code and makes the batch
  unclassified after it.\<close>

theorem batch_order_matters:
  "getErrCodeSliceBadReq (batch_error ''[{\"id\":1},{\"error\":{\"code\":-32602}}]'') = Inr (- 32602) \<and>
   getErrCodeSliceBadReq (batch_error ''[{\"error\":{\"code\":-32602}},{\"id\":1}]'') =
     Inl (batch_error ''[{\"error\":{\"code\":-32602}},{\"id\":1}]'')"
  by (simp add: getErrCodeSliceBadReq_def unmarshal_JsonResponses_def json_parse_def json_eval)

end
