(* ===== verification/Environment.thy ===== *)
theory Environment
  imports Go_Strings
begin

text \<open>
  Configuration (\<^verbatim>\<open>environment/environment.go\<close>) and the package-level variables that
  read it. The process environment, after \<^verbatim>\<open>godotenv\<close> has merged the \<^verbatim>\<open>.env\<close> file
  into it, is a map from names to values. \<open>load_config\<close> evaluates the variables of
  the packages \<^verbatim>\<open>balancer\<close>, \<^verbatim>\<open>fetcher\<close>, \<^verbatim>\<open>orchestrator\<close>, \<^verbatim>\<open>persistor\<close>,
  \<^verbatim>\<open>synchronizer\<close> and \<^verbatim>\<open>router\<close>, in that order of initialisation; durations are
  nanoseconds in a 64-bit integer, as in Go.
\<close>

type_synonym env = "string \<rightharpoonup> string"

definition GetInt64 :: "env \<Rightarrow> string \<Rightarrow> int \<Rightarrow> int" where
  "GetInt64 env varName defaultValue =
     (case env varName of
        None \<Rightarrow> defaultValue
      | Some val \<Rightarrow>
          (case ParseInt val of
             (iVal, None) \<Rightarrow> iVal
           | (_, Some err) \<Rightarrow> defaultValue))"

definition lookup_or_empty :: "env \<Rightarrow> string \<Rightarrow> string" where
  "lookup_or_empty env varName = (case env varName of None \<Rightarrow> [] | Some val \<Rightarrow> val)"

definition MustGetString :: "env \<Rightarrow> string \<Rightarrow> string outcome" where
  "MustGetString env varName =
     (let val = lookup_or_empty env varName in
      if val = [] then Panic (''environment error (string): required env var '' @ varName @ '' not found'')
      else Return val)"

definition GetString :: "env \<Rightarrow> string \<Rightarrow> string \<Rightarrow> string" where
  "GetString env varName defaultValue =
     (let val = lookup_or_empty env varName in if val = [] then defaultValue else val)"

definition MustGetStringSlice :: "env \<Rightarrow> string \<Rightarrow> string \<Rightarrow> string list outcome" where
  "MustGetStringSlice env varName separator =
     obind (MustGetString env varName) (\<lambda>rawString. Return (Split rawString separator))"

section \<open>The package-level variables\<close>

record config =
  cfg_block_time :: int
  cfg_rpc_timeout :: int
  cfg_max_rounds :: int
  cfg_endpoints :: "string list"
  cfg_address :: string
  cfg_topic :: string
  cfg_concurrency :: int
  cfg_start_block :: int
  cfg_end_block :: int
  cfg_block_tag :: string
  cfg_cycle_interval :: int
  cfg_db_path :: string
  cfg_sync_interval :: int
  cfg_port :: string

definition second :: int where "second = 1000000000"

definition millisecond :: int where "millisecond = 1000000"

text \<open>\<open>time.Duration(n) * unit\<close> is a 64-bit multiplication.\<close>

definition duration :: "int \<Rightarrow> int \<Rightarrow> int" where
  "duration n unit = go_int (n * unit)"

text \<open>The variables of \<^verbatim>\<open>package balancer\<close>.\<close>

definition blockTime :: "env \<Rightarrow> int" where
  "blockTime env = duration (GetInt64 env ''BLOCK_TIME'' 20) second"

definition rpcTimeout :: "env \<Rightarrow> int" where
  "rpcTimeout env = duration (GetInt64 env ''RPC_TIMEOUT'' 20) second"

definition maxRounds :: "env \<Rightarrow> int" where
  "maxRounds env = GetInt64 env ''MAX_ROUNDS'' 3"

definition rpcEndpoints :: "env \<Rightarrow> string list outcome" where
  "rpcEndpoints env = MustGetStringSlice env ''ENDPOINTS'' '',''"

text \<open>The variables of \<^verbatim>\<open>package fetcher\<close>.\<close>

definition inputAddress :: "env \<Rightarrow> string outcome" where
  "inputAddress env = MustGetString env ''ADDRESS''"

definition inputTopic :: "env \<Rightarrow> string outcome" where
  "inputTopic env = MustGetString env ''TOPIC''"

definition concurrency :: "env \<Rightarrow> int" where
  "concurrency env = GetInt64 env ''CONCURRENCY'' 100"

text \<open>The variables of \<^verbatim>\<open>package orchestrator\<close>.\<close>

definition startBlockEnv :: "env \<Rightarrow> int" where
  "startBlockEnv env = GetInt64 env ''START_BLOCK'' 0"

definition endBlockEnv :: "env \<Rightarrow> int" where
  "endBlockEnv env = GetInt64 env ''END_BLOCK'' 0"

definition blockTag :: "env \<Rightarrow> string" where
  "blockTag env = GetString env ''BLOCK_TAG'' ''latest''"

definition cycleInterval :: "env \<Rightarrow> int" where
  "cycleInterval env = duration (GetInt64 env ''CYCLE_INTERVAL'' 5000) millisecond"

text \<open>The variables of \<^verbatim>\<open>package persistor\<close>.\<close>

definition dbPath :: "env \<Rightarrow> string" where
  "dbPath env = GetString env ''DB_PATH'' ''l1_data.db''"

text \<open>The variables of \<^verbatim>\<open>package synchronizer\<close>.\<close>

definition syncInterval :: "env \<Rightarrow> int" where
  "syncInterval env = duration (GetInt64 env ''SYNC_INTERVAL'' 5000) millisecond"

text \<open>The variables of \<^verbatim>\<open>package router\<close>.\<close>

definition port :: "env \<Rightarrow> string" where
  "port env = GetString env ''PORT'' ''8080''"

lemmas package_variable_defs =
  blockTime_def rpcTimeout_def maxRounds_def rpcEndpoints_def inputAddress_def inputTopic_def concurrency_def
  startBlockEnv_def endBlockEnv_def blockTag_def cycleInterval_def dbPath_def syncInterval_def port_def

text \<open>All of them are evaluated when the process starts; a mandatory one that is missing ends it.\<close>

definition load_config :: "env \<Rightarrow> config outcome" where
  "load_config env =
     obind (rpcEndpoints env) (\<lambda>endpoints.
     obind (inputAddress env) (\<lambda>address.
     obind (inputTopic env) (\<lambda>topic.
       Return
         \<lparr>cfg_block_time = blockTime env,
          cfg_rpc_timeout = rpcTimeout env,
          cfg_max_rounds = maxRounds env,
          cfg_endpoints = endpoints,
          cfg_address = address,
          cfg_topic = topic,
          cfg_concurrency = concurrency env,
          cfg_start_block = startBlockEnv env,
          cfg_end_block = endBlockEnv env,
          cfg_block_tag = blockTag env,
          cfg_cycle_interval = cycleInterval env,
          cfg_db_path = dbPath env,
          cfg_sync_interval = syncInterval env,
          cfg_port = port env\<rparr>)))"

lemma MustGetString_Return:
  "MustGetString env n = Return v \<longleftrightarrow> env n = Some v \<and> v \<noteq> []"
  by (auto simp: MustGetString_def lookup_or_empty_def Let_def split: option.splits)

lemma MustGetString_no_Fail: "MustGetString env n \<noteq> Fail e"
  by (simp add: MustGetString_def Let_def)

lemma MustGetStringSlice_Return:
  "MustGetStringSlice env n sep = Return vs \<longleftrightarrow>
     (\<exists>v. env n = Some v \<and> v \<noteq> [] \<and> vs = Split v sep)"
  by (auto simp: MustGetStringSlice_def obind_eq_Return MustGetString_Return)

lemma GetString_nonempty: "d \<noteq> [] \<Longrightarrow> GetString env n d \<noteq> []"
  by (simp add: GetString_def Let_def)

lemma load_config_endpoints:
  "load_config env = Return c \<Longrightarrow> env ''ENDPOINTS'' = Some (join '','' (cfg_endpoints c))"
  by (auto simp: load_config_def package_variable_defs obind_eq_Return MustGetStringSlice_Return join_Split)

section \<open>Properties\<close>

text \<open>An integer variable set to the decimal form of any 64-bit integer is read back
  exactly; a variable that is unset or does not parse yields the default.\<close>

theorem GetInt64_reads:
  "(is_int64 n \<longrightarrow> GetInt64 (env(name \<mapsto> Itoa n)) name d = n) \<and>
   GetInt64 (env(name := None)) name d = d \<and>
   (snd (ParseInt v) \<noteq> None \<longrightarrow> GetInt64 (env(name \<mapsto> v)) name d = d)"
  by (auto simp: GetInt64_def ParseInt_Itoa split: prod.splits)

theorem GetInt64_reads_witness:
  "GetInt64 (Map.empty(''MAX_ROUNDS'' \<mapsto> Itoa 7)) ''MAX_ROUNDS'' 3 = 7 \<and>
   GetInt64 (Map.empty(''MAX_ROUNDS'' \<mapsto> ''7s'')) ''MAX_ROUNDS'' 3 = 3"
proof -
  have "is_int64 7" by (simp add: min_int_def max_int_def)
  moreover have "snd (ParseInt ''7s'') \<noteq> None"
    by (simp add: ParseInt_def ParseUint_def digit_value_def less_eq_char_def)
  ultimately show ?thesis
    using GetInt64_reads [of 7 Map.empty "''MAX_ROUNDS''" 3 "''7s''"] by simp
qed

text \<open>The configuration loads exactly when the three mandatory variables are set and
  not empty; the endpoints joined by commas are then the text of \<^verbatim>\<open>ENDPOINTS\<close>, there is
  at least one endpoint, and a missing mandatory variable is a panic, never an error.\<close>

theorem load_config_mandatory:
  "((\<exists>c. load_config env = Return c) \<longleftrightarrow>
      lookup_or_empty env ''ENDPOINTS'' \<noteq> [] \<and> lookup_or_empty env ''ADDRESS'' \<noteq> [] \<and>
      lookup_or_empty env ''TOPIC'' \<noteq> []) \<and>
   (\<forall>c. load_config env = Return c \<longrightarrow>
      cfg_endpoints c \<noteq> [] \<and> env ''ENDPOINTS'' = Some (join '','' (cfg_endpoints c))) \<and>
   (\<forall>e. load_config env \<noteq> Fail e)"
  by (auto simp: load_config_def package_variable_defs obind_eq_Return obind_eq_Fail MustGetStringSlice_Return
      MustGetString_Return MustGetString_no_Fail MustGetStringSlice_def join_Split Split_nonempty
      lookup_or_empty_def split: option.splits)

theorem load_config_mandatory_witness:
  "cfg_endpoints (case load_config [''ENDPOINTS'' \<mapsto> ''a,b'', ''ADDRESS'' \<mapsto> ''0x1'', ''TOPIC'' \<mapsto> ''0x2'']
     of Return c \<Rightarrow> c) \<noteq> []"
proof -
  let ?env = "[''ENDPOINTS'' \<mapsto> ''a,b'', ''ADDRESS'' \<mapsto> ''0x1'', ''TOPIC'' \<mapsto> ''0x2'']"
  have "\<exists>c. load_config ?env = Return c"
    using load_config_mandatory [of ?env] by (simp add: lookup_or_empty_def)
  then show ?thesis
    using load_config_mandatory [of ?env] by auto
qed

text \<open>With only the mandatory variables set, an RPC call may take 20 seconds, a
  blocked client stays blocked for 20 seconds, and three rounds are tried.\<close>

theorem load_config_defaults:
  assumes "dom env \<subseteq> {''ENDPOINTS'', ''ADDRESS'', ''TOPIC''}"
    and "load_config env = Return c"
  shows "cfg_rpc_timeout c = 20 * second \<and> cfg_block_time c = 20 * second \<and> cfg_max_rounds c = 3 \<and>
    cfg_concurrency c = 100 \<and> cfg_start_block c = 0 \<and> cfg_end_block c = 0 \<and>
    cfg_block_tag c = ''latest'' \<and> cfg_cycle_interval c = 5000 * millisecond \<and>
    cfg_sync_interval c = 5000 * millisecond \<and> cfg_port c = ''8080''"
proof -
  have none: "env n = None" if "n \<notin> {''ENDPOINTS'', ''ADDRESS'', ''TOPIC''}" for n
    using assms(1) that by blast
  have int: "GetInt64 env n d = d" if "n \<notin> {''ENDPOINTS'', ''ADDRESS'', ''TOPIC''}" for n d
    by (simp add: GetInt64_def none [OF that])
  have str: "GetString env n d = d" if "n \<notin> {''ENDPOINTS'', ''ADDRESS'', ''TOPIC''}" for n d
    by (simp add: GetString_def lookup_or_empty_def none [OF that])
  show ?thesis
    using assms(2) unfolding load_config_def package_variable_defs obind_eq_Return outcome.inject
    by (elim exE conjE, hypsubst) (simp add: int str duration_def second_def millisecond_def
        go_int_id min_int_def max_int_def)
qed

theorem load_config_defaults_witness:
  "cfg_rpc_timeout (case load_config [''ENDPOINTS'' \<mapsto> ''a'', ''ADDRESS'' \<mapsto> ''0x1'', ''TOPIC'' \<mapsto> ''0x2'']
     of Return c \<Rightarrow> c) = 20 * second"
proof -
  let ?env = "[''ENDPOINTS'' \<mapsto> ''a'', ''ADDRESS'' \<mapsto> ''0x1'', ''TOPIC'' \<mapsto> ''0x2'']"
  obtain c where c: "load_config ?env = Return c"
    by (simp add: load_config_def package_variable_defs MustGetStringSlice_def MustGetString_def lookup_or_empty_def Let_def)
  have "dom ?env \<subseteq> {''ENDPOINTS'', ''ADDRESS'', ''TOPIC''}" by auto
  from load_config_defaults [OF this c] c show ?thesis by simp
qed

end
