(* ===== verification/Balancer.thy ===== *)
theory Balancer
  imports Rpc Error_Code Environment
begin

text \<open>
  The balancer (\<^verbatim>\<open>balancer/balancer.go\<close>): a list of RPC clients that are tried in cyclic
  order, a client being blocked for a while after a timeout or a rate limit and for good
  after any other error. The state is the balancer together with the outside world \<open>'w\<close>
  of \<open>Rpc\<close>; every method is a call on that state. The methods are modelled as one
  goroutine runs them, with no other request in between.

  A time is the number of nanoseconds since Go's zero time, so \<open>0\<close> is the zero time that
  marks an indefinite block. \<^verbatim>\<open>handleRounds\<close> may go on forever (with a negative number of
  rounds, say), so it is a partial function; \<open>handleRounds_total\<close> shows that it returns for
  every configuration with a non-negative number of rounds.
\<close>

section \<open>State and operations\<close>

record 'c client =
  ethClient :: 'c
  url :: string
  blockedUntil :: int

record 'c balancer =
  clients :: "'c client list"
  counter :: uint64
  lenClients :: int

text \<open>The loop over the endpoints; \<open>now\<close> is read once per client.\<close>

fun dial_all :: "('c, 't, 'w) eth_api \<Rightarrow> string list \<Rightarrow> 'c client list \<Rightarrow> ('w, 'c client list) call" where
  "dial_all E [] cs w = (Return cs, w)"
| "dial_all E (endpoint # rest) cs w =
     (case Dial E endpoint w of
        (Inl err, w') \<Rightarrow> (Fail err, w')
      | (Inr eClient, w') \<Rightarrow>
          (case Now E w' of (now, w'') \<Rightarrow>
             dial_all E rest
               (cs @ [\<lparr>ethClient = eClient, url = endpoint, blockedUntil = now - second\<rparr>]) w''))"

definition NewBalancer :: "('c, 't, 'w) eth_api \<Rightarrow> config \<Rightarrow> ('w, 'c balancer) call" where
  "NewBalancer E cfg =
     call_bind (dial_all E (cfg_endpoints cfg) []) (\<lambda>cs.
       call_return \<lparr>clients = cs, counter = 0, lenClients = int (length cs)\<rparr>)"

type_synonym ('c, 'w) bstate = "'c balancer \<times> 'w"

text \<open>\<^verbatim>\<open>b.clients[index]\<close> panics when the index is out of range.\<close>

definition client_at :: "'c balancer \<Rightarrow> int \<Rightarrow> 'c client outcome" where
  "client_at b index =
     (if 0 \<le> index \<and> index < int (length (clients b)) then Return (clients b ! nat index)
      else Panic ''index out of range'')"

definition getEthClient :: "int \<Rightarrow> (('c, 'w) bstate, 'c) call" where
  "getEthClient index s =
     (obind (client_at (fst s) index) (\<lambda>c. Return (ethClient c)), s)"

definition set_blocked :: "int \<Rightarrow> int \<Rightarrow> 'c balancer \<Rightarrow> 'c balancer" where
  "set_blocked index t b =
     b\<lparr>clients := (clients b)[nat index := (clients b ! nat index)\<lparr>blockedUntil := t\<rparr>]\<rparr>"

definition temporaryBlock :: "('c, 't, 'w) eth_api \<Rightarrow> config \<Rightarrow> int \<Rightarrow> (('c, 'w) bstate, unit) call" where
  "temporaryBlock E cfg index s =
     (case s of (b, w) \<Rightarrow>
        (case client_at b index of
           Return c \<Rightarrow>
             (case Now E w of (now, w') \<Rightarrow>
                (Return (), (set_blocked index (now + cfg_block_time cfg) b, w')))
         | Fail e \<Rightarrow> (Fail e, s)
         | Panic m \<Rightarrow> (Panic m, s)))"

definition indefiniteBlock :: "int \<Rightarrow> (('c, 'w) bstate, unit) call" where
  "indefiniteBlock index s =
     (case s of (b, w) \<Rightarrow>
        (case client_at b index of
           Return c \<Rightarrow> (Return (), (set_blocked index 0 b, w))
         | Fail e \<Rightarrow> (Fail e, s)
         | Panic m \<Rightarrow> (Panic m, s)))"

definition isBlocked :: "('c, 't, 'w) eth_api \<Rightarrow> int \<Rightarrow> (('c, 'w) bstate, bool) call" where
  "isBlocked E index s =
     (case s of (b, w) \<Rightarrow>
        (case client_at b index of
           Return c \<Rightarrow>
             (if blockedUntil c = 0 then (Return True, s)
              else (case Now E w of (now, w') \<Rightarrow> (Return (now < blockedUntil c), (b, w'))))
         | Fail e \<Rightarrow> (Fail e, s)
         | Panic m \<Rightarrow> (Panic m, s)))"

text \<open>A request under the timer: the answer counts only if it arrives before the timer fires.\<close>

definition timed_request :: "('c, 't, 'w) eth_api \<Rightarrow> config \<Rightarrow> genericInput \<Rightarrow> 'c \<Rightarrow>
    (('c, 'w) bstate, 't genericOutput) call" where
  "timed_request E cfg input eClient s =
     (case s of (b, w) \<Rightarrow>
        (let late = TimerFirst E (cfg_rpc_timeout cfg) eClient w in
         case doGenericReq E input eClient w of (r, w') \<Rightarrow>
           (if late then Fail ErrClientTimeout else r, (b, w'))))"

definition bump_counter :: "('c, 'w) bstate \<Rightarrow> ('c, 'w) bstate" where
  "bump_counter s = (case s of (b, w) \<Rightarrow> (b\<lparr>counter := counter b + 1\<rparr>, w))"

text \<open>The deferred \<^verbatim>\<open>counter.Add(1)\<close> runs on every exit after the client has been read.\<close>

definition doRetry :: "('c, 't, 'w) eth_api \<Rightarrow> config \<Rightarrow> genericInput \<Rightarrow> int \<Rightarrow>
    (('c, 'w) bstate, 't genericOutput) call" where
  "doRetry E cfg input index =
     call_bind (getEthClient index) (\<lambda>eClient s.
       apsnd bump_counter
         (call_bind (isBlocked E index) (\<lambda>blocked.
            if blocked then call_lift (Fail ErrClientBlocked)
            else timed_request E cfg input eClient) s))"

text \<open>What \<^verbatim>\<open>handleRetries\<close> does with the outcome of one attempt: stop with a result, or
  block the client as the error says and go on (\<open>None\<close>).\<close>

definition after_retry :: "('c, 't, 'w) eth_api \<Rightarrow> config \<Rightarrow> int \<Rightarrow> 't genericOutput outcome \<Rightarrow>
    (('c, 'w) bstate, 't genericOutput outcome option) call" where
  "after_retry E cfg index r =
     (case r of
        Return output \<Rightarrow> call_return (Some (Return output))
      | Panic m \<Rightarrow> call_return (Some (Panic m))
      | Fail err \<Rightarrow>
          if err = ErrClientTimeout then
            call_bind (temporaryBlock E cfg index) (\<lambda>_. call_return None)
          else if err = ErrClientBlocked then call_return None
          else
            (let err' = handleRPCError err in
             if err' = ErrRateLimit then
               call_bind (temporaryBlock E cfg index) (\<lambda>_. call_return None)
             else if err' = ErrReqTooBig then call_return (Some (Fail err'))
             else call_bind (indefiniteBlock index) (\<lambda>_. call_return None)))"

definition client_index :: "'c balancer \<Rightarrow> int" where
  "client_index b = go_rem (int_of_uint64 (counter b)) (lenClients b)"

text \<open>One iteration of the loop of \<^verbatim>\<open>handleRetries\<close>: the attempt and what follows from
  its outcome. The loop goes by the number of iterations left; \<^verbatim>\<open>lenClients\<close> is written
  by \<^verbatim>\<open>NewBalancer\<close> only.\<close>

definition retry_step :: "('c, 't, 'w) eth_api \<Rightarrow> config \<Rightarrow> genericInput \<Rightarrow>
    (('c, 'w) bstate, 't genericOutput outcome option) call" where
  "retry_step E cfg input s =
     (let index = client_index (fst s) in
      case doRetry E cfg input index s of (r, s') \<Rightarrow> after_retry E cfg index r s')"

primrec retry_loop :: "('c, 't, 'w) eth_api \<Rightarrow> config \<Rightarrow> genericInput \<Rightarrow> nat \<Rightarrow>
    (('c, 'w) bstate, 't genericOutput) call" where
  "retry_loop E cfg input 0 s = (Fail ErrMaxRetries, s)"
| "retry_loop E cfg input (Suc n) s =
     (case retry_step E cfg input s of
        (Return (Some r'), s') \<Rightarrow> (r', s')
      | (Return None, s') \<Rightarrow> retry_loop E cfg input n s'
      | (Fail e, s') \<Rightarrow> (Fail e, s')
      | (Panic m, s') \<Rightarrow> (Panic m, s'))"

definition handleRetries :: "('c, 't, 'w) eth_api \<Rightarrow> config \<Rightarrow> genericInput \<Rightarrow>
    (('c, 'w) bstate, 't genericOutput) call" where
  "handleRetries E cfg input s = retry_loop E cfg input (nat (lenClients (fst s))) s"

definition sleep :: "('c, 't, 'w) eth_api \<Rightarrow> config \<Rightarrow> ('c, 'w) bstate \<Rightarrow> ('c, 'w) bstate" where
  "sleep E cfg s = (case s of (b, w) \<Rightarrow> (b, Sleep E (cfg_block_time cfg) w))"

partial_function (option) rounds_loop :: "('c, 't, 'w) eth_api \<Rightarrow> config \<Rightarrow> genericInput \<Rightarrow> int \<Rightarrow>
    ('c, 'w) bstate \<Rightarrow> ('t genericOutput outcome \<times> ('c, 'w) bstate) option" where
  "rounds_loop E cfg input rounds s =
     (if rounds = cfg_max_rounds cfg then Some (Fail ErrMaxRounds, s)
      else case handleRetries E cfg input s of (r, s') \<Rightarrow>
        if r = Fail ErrMaxRetries then rounds_loop E cfg input (go_int (rounds + 1)) (sleep E cfg s')
        else Some (r, s'))"

definition handleRounds :: "('c, 't, 'w) eth_api \<Rightarrow> config \<Rightarrow> genericInput \<Rightarrow>
    ('c, 'w) bstate \<Rightarrow> ('t genericOutput outcome \<times> ('c, 'w) bstate) option" where
  "handleRounds E cfg input s = rounds_loop E cfg input 0 s"

definition no_request :: genericInput where
  "no_request = \<lparr>in_logs = None, in_blockAndTxs = None, in_blockTag = None\<rparr>"

text \<open>The three methods of the interface; the part of the answer that is read is a pointer.\<close>

definition GetLogs :: "('c, 't, 'w) eth_api \<Rightarrow> config \<Rightarrow> int \<Rightarrow> int \<Rightarrow> string \<Rightarrow>
    ('c, 'w) bstate \<Rightarrow> (log list outcome \<times> ('c, 'w) bstate) option" where
  "GetLogs E cfg start stop tp s =
     map_option (\<lambda>(r, s'). (obind r (\<lambda>output. deref (res_logs output)), s'))
       (handleRounds E cfg (no_request\<lparr>in_logs := Some \<lparr>startBlock = start, endBlock = stop, topic = tp\<rparr>\<rparr>) s)"

definition GetBlockFromTag :: "('c, 't, 'w) eth_api \<Rightarrow> config \<Rightarrow> string \<Rightarrow>
    ('c, 'w) bstate \<Rightarrow> (int outcome \<times> ('c, 'w) bstate) option" where
  "GetBlockFromTag E cfg tag s =
     map_option (\<lambda>(r, s'). (obind r (\<lambda>output. deref (res_blockTag output)), s'))
       (handleRounds E cfg (no_request\<lparr>in_blockTag := Some tag\<rparr>) s)"

definition GetBlocksAndTxs :: "('c, 't, 'w) eth_api \<Rightarrow> config \<Rightarrow> uint64 list \<Rightarrow> bytes list \<Rightarrow>
    ('c, 'w) bstate \<Rightarrow> ((header option list \<times> 't option list) outcome \<times> ('c, 'w) bstate) option" where
  "GetBlocksAndTxs E cfg bns hashes s =
     map_option (\<lambda>(r, s'). (obind r (\<lambda>output.
         obind (deref (res_blockAndTxs output)) (\<lambda>out. Return (out_blocks out, out_txs out))), s'))
       (handleRounds E cfg
         (no_request\<lparr>in_blockAndTxs := Some \<lparr>blockNumbers = bns, txHashes = hashes\<rparr>\<rparr>) s)"

section \<open>One attempt\<close>

definition bal_ok :: "'c balancer \<Rightarrow> bool" where
  "bal_ok b \<longleftrightarrow> lenClients b = int (length (clients b)) \<and> clients b \<noteq> []"

abbreviation count :: "'c balancer \<Rightarrow> int" where
  "count b \<equiv> int_of_uint64 (counter b)"

text \<open>What no attempt changes, and what it changes only towards more blocking.\<close>

definition keeps :: "'c balancer \<Rightarrow> 'c balancer \<Rightarrow> bool" where
  "keeps b b' \<longleftrightarrow>
     lenClients b' = lenClients b \<and>
     map ethClient (clients b') = map ethClient (clients b) \<and>
     map url (clients b') = map url (clients b) \<and>
     (\<forall>i < length (clients b). blockedUntil (clients b ! i) = 0 \<longrightarrow> blockedUntil (clients b' ! i) = 0)"

lemma keeps_length: "keeps b b' \<Longrightarrow> length (clients b') = length (clients b)"
  by (metis keeps_def length_map)

lemma keeps_refl [simp]: "keeps b b"
  by (simp add: keeps_def)

lemma keeps_trans: "keeps b b' \<Longrightarrow> keeps b' b'' \<Longrightarrow> keeps b b''"
  using keeps_length [of b b'] by (simp add: keeps_def)

lemma keeps_counter [simp]: "keeps b (b\<lparr>counter := n\<rparr>)" "keeps (b\<lparr>counter := n\<rparr>) b"
  by (simp_all add: keeps_def)

lemma keeps_bal_ok: "keeps b b' \<Longrightarrow> bal_ok b \<Longrightarrow> bal_ok b'"
  using keeps_length [of b b'] by (auto simp: bal_ok_def keeps_def)

lemma keeps_set_blocked:
  fixes b :: "'c balancer"
  assumes "0 \<le> i" "nat i < length (clients b)" "blockedUntil (clients b ! nat i) \<noteq> 0 \<or> t = 0"
  shows "keeps b (set_blocked i t b)"
proof -
  let ?cs = "(clients b)[nat i := (clients b ! nat i)\<lparr>blockedUntil := t\<rparr>]"
  have "map ethClient ?cs = map ethClient (clients b)" "map url ?cs = map url (clients b)"
    using assms(2) by (simp_all add: map_update list_update_same_conv)
  with assms show ?thesis
    by (auto simp: keeps_def set_blocked_def nth_list_update)
qed

lemma count_bump:
  "0 \<le> count b \<Longrightarrow> count b < max_int \<Longrightarrow> count (b\<lparr>counter := counter b + 1\<rparr>) = count b + 1"
  using uint64_add_int [of "counter b" 1] by (simp add: uint64_of_int_def go_int_id min_int_def)

lemma client_index_ok:
  assumes "bal_ok b" "0 \<le> count b"
  shows "0 \<le> client_index b" "client_index b < int (length (clients b))"
    and "client_index b = count b mod int (length (clients b))"
  using assms by (simp_all add: client_index_def go_rem_def bal_ok_def)

lemma doRetry_eq:
  assumes "0 \<le> index" "index < int (length (clients b))"
  shows "doRetry E cfg input index (b, w) =
    (let c = clients b ! nat index; b' = b\<lparr>counter := counter b + 1\<rparr> in
     if blockedUntil c = 0 then (Fail ErrClientBlocked, (b', w))
     else case Now E w of (now, w1) \<Rightarrow>
       if now < blockedUntil c then (Fail ErrClientBlocked, (b', w1))
       else case doGenericReq E input (ethClient c) w1 of (r, w2) \<Rightarrow>
         (if TimerFirst E (cfg_rpc_timeout cfg) (ethClient c) w1 then Fail ErrClientTimeout else r, (b', w2)))"
  using assms
  by (simp add: doRetry_def call_bind_def getEthClient_def client_at_def isBlocked_def bump_counter_def
      timed_request_def Let_def split: prod.split)

definition final_result :: "genericInput \<Rightarrow> 't genericOutput outcome \<Rightarrow> bool" where
  "final_result input r \<longleftrightarrow> (\<exists>output. r = Return output \<and> answers input output) \<or> r = Fail ErrReqTooBig"

lemma after_retry_Fail:
  assumes "client_at b index = Return c" "Now E w = (now, w1)"
  shows "after_retry E cfg index (Fail err) (b, w) =
    (if err = ErrClientTimeout \<or> err \<noteq> ErrClientBlocked \<and> handleRPCError err = ErrRateLimit
     then (Return None, (set_blocked index (now + cfg_block_time cfg) b, w1))
     else if err = ErrClientBlocked then (Return None, (b, w))
     else if handleRPCError err = ErrReqTooBig then (Return (Some (Fail ErrReqTooBig)), (b, w))
     else (Return None, (set_blocked index 0 b, w)))"
proof -
  have "temporaryBlock E cfg index (b, w) = (Return (), (set_blocked index (now + cfg_block_time cfg) b, w1))"
    "indefiniteBlock index (b, w) = (Return (), (set_blocked index 0 b, w))"
    by (simp_all add: temporaryBlock_def indefiniteBlock_def assms)
  then show ?thesis
    by (simp add: after_retry_def Let_def call_bind_def call_return_def)
qed

lemma after_retry_ok:
  assumes "0 \<le> index" "index < int (length (clients b))"
    and "r \<noteq> Fail ErrClientBlocked \<Longrightarrow> blockedUntil (clients b ! nat index) \<noteq> 0"
    and "\<And>output. r = Return output \<Longrightarrow> answers input output" and "\<And>m. r \<noteq> Panic m"
  obtains r' b' w' where "after_retry E cfg index r (b, w) = (Return r', (b', w'))"
    "keeps b b'" "counter b' = counter b" "\<And>x. r' = Some x \<Longrightarrow> final_result input x"
    "\<And>k. k \<noteq> nat index \<Longrightarrow> clients b' ! k = clients b ! k"
proof -
  have other: "k \<noteq> nat index \<Longrightarrow> clients (set_blocked index u b) ! k = clients b ! k" for k u
    by (simp add: set_blocked_def)
  have c: "client_at b index = Return (clients b ! nat index)" using assms(1,2) by (simp add: client_at_def)
  have t: "keeps b (set_blocked index u b)" if "r \<noteq> Fail ErrClientBlocked" for u
    using assms(1-3) that by (intro keeps_set_blocked) auto
  have cnt: "counter (set_blocked index u b) = counter b" for u by (simp add: set_blocked_def)
  show ?thesis
  proof (cases r)
    case (Return out)
    with that assms(4) show ?thesis by (simp add: after_retry_def final_result_def)
  next
    case (Panic m)
    with assms(5) show ?thesis by blast
  next
    case (Fail err)
    obtain now w1 where now: "Now E w = (now, w1)" by fastforce
    note eq = after_retry_Fail [OF c now, of cfg err]
    show ?thesis
    proof (cases "err = ErrClientBlocked")
      case True
      with that [of None b w] Fail eq show ?thesis by simp
    next
      case False
      with Fail have r: "r \<noteq> Fail ErrClientBlocked" by simp
      from that [of None "set_blocked index (now + cfg_block_time cfg) b" w1] that [of "Some (Fail ErrReqTooBig)" b w]
        that [of None "set_blocked index 0 b" w] t [OF r] Fail False eq cnt other
      show ?thesis by (auto simp: final_result_def split: if_splits)
    qed
  qed
qed

lemma doRetry_ok:
  assumes "0 \<le> index" "index < int (length (clients b))"
  shows "\<exists>r w'. doRetry E cfg input index (b, w) = (r, (b\<lparr>counter := counter b + 1\<rparr>, w')) \<and>
    (r \<noteq> Fail ErrClientBlocked \<longrightarrow> blockedUntil (clients b ! nat index) \<noteq> 0) \<and>
    (\<forall>out. r = Return out \<longrightarrow> answers input out) \<and> (\<forall>m. r \<noteq> Panic m)"
proof -
  let ?c = "clients b ! nat index"
  obtain now w1 where now: "Now E w = (now, w1)" by fastforce
  obtain r w2 where req: "doGenericReq E input (ethClient ?c) w1 = (r, w2)" by fastforce
  have "\<forall>m. r \<noteq> Panic m"
    using doGenericReq_no_Panic [of E input "ethClient ?c" w1] req by (metis fst_conv)
  moreover have "\<forall>out. r = Return out \<longrightarrow> answers input out"
    using doGenericReq_answers req by fastforce
  ultimately show ?thesis
    by (auto simp: doRetry_eq [OF assms] now req Let_def)
qed

lemma retry_step_ok:
  assumes "bal_ok b" "0 \<le> count b" "count b < max_int"
  obtains r' b' w' where "retry_step E cfg input (b, w) = (Return r', (b', w'))"
    "keeps b b'" "count b' = count b + 1" "\<And>x. r' = Some x \<Longrightarrow> final_result input x"
    "\<And>k. k \<noteq> nat (client_index b) \<Longrightarrow> clients b' ! k = clients b ! k"
proof -
  let ?i = "client_index b" and ?b = "b\<lparr>counter := counter b + 1\<rparr>"
  note i = client_index_ok [OF assms(1,2)]
  obtain r w1 where d: "doRetry E cfg input ?i (b, w) = (r, (?b, w1))"
    and r: "r \<noteq> Fail ErrClientBlocked \<Longrightarrow> blockedUntil (clients b ! nat ?i) \<noteq> 0"
    "\<And>out. r = Return out \<Longrightarrow> answers input out" "\<And>m. r \<noteq> Panic m"
    using doRetry_ok [OF i(1,2), of E cfg input w] by blast
  have i': "0 \<le> ?i" "?i < int (length (clients ?b))" using i by simp_all
  obtain r' b' w' where a: "after_retry E cfg ?i r (?b, w1) = (Return r', (b', w'))"
    and k: "keeps ?b b'" "counter b' = counter ?b" "\<And>x. r' = Some x \<Longrightarrow> final_result input x"
    "\<And>k. k \<noteq> nat ?i \<Longrightarrow> clients b' ! k = clients ?b ! k"
    by (rule after_retry_ok [OF i', of r input E cfg w1]) (use r in auto)
  show ?thesis
  proof (rule that)
    show "retry_step E cfg input (b, w) = (Return r', (b', w'))" using d a by (simp add: retry_step_def Let_def)
    show "keeps b b'" using k(1) keeps_trans keeps_counter(1) by blast
    show "count b' = count b + 1" using k(2) count_bump [OF assms(2,3)] by simp
  qed (use k(3,4) in auto)
qed

lemma retry_loop_ok:
  assumes "bal_ok b" "0 \<le> count b" "count b + int n \<le> max_int"
  shows "\<exists>r b' w'. retry_loop E cfg input n (b, w) = (r, (b', w')) \<and> keeps b b' \<and>
    count b \<le> count b' \<and> count b' \<le> count b + int n \<and> (final_result input r \<or> r = Fail ErrMaxRetries)"
  using assms
proof (induction n arbitrary: b w)
  case 0
  then show ?case by simp
next
  case (Suc n)
  then obtain r' b1 w1 where s: "retry_step E cfg input (b, w) = (Return r', (b1, w1))" "keeps b b1"
    "count b1 = count b + 1" "\<And>x. r' = Some x \<Longrightarrow> final_result input x"
    by (auto elim: retry_step_ok [of b E cfg input w])
  show ?case
  proof (cases r')
    case (Some x)
    with s Suc.prems show ?thesis by (auto simp: retry_loop.simps(2))
  next
    case None
    have "bal_ok b1" using s(2) Suc.prems(1) by (rule keeps_bal_ok)
    from Suc.IH [OF this, of w1] s Suc.prems None show ?thesis
      by (auto simp: retry_loop.simps(2) dest: keeps_trans)
  qed
qed

lemma handleRetries_ok:
  assumes "bal_ok b" "0 \<le> count b" "count b + lenClients b \<le> max_int"
  shows "\<exists>r b' w'. handleRetries E cfg input (b, w) = (r, (b', w')) \<and> keeps b b' \<and>
    count b \<le> count b' \<and> count b' \<le> count b + lenClients b \<and>
    (final_result input r \<or> r = Fail ErrMaxRetries)"
  using retry_loop_ok [of b "nat (lenClients b)" E cfg input w] assms
  by (simp add: handleRetries_def bal_ok_def)

lemma rounds_loop_ok:
  assumes "bal_ok b" "0 \<le> rounds" "rounds \<le> cfg_max_rounds cfg" "cfg_max_rounds cfg \<le> max_int"
    and "0 \<le> count b" "count b + (cfg_max_rounds cfg - rounds) * lenClients b \<le> max_int"
  shows "\<exists>r b' w'. rounds_loop E cfg input rounds (b, w) = Some (r, (b', w')) \<and> keeps b b' \<and>
    count b \<le> count b' \<and> count b' \<le> count b + (cfg_max_rounds cfg - rounds) * lenClients b \<and>
    (final_result input r \<or> r = Fail ErrMaxRounds)"
  using assms
proof (induction "nat (cfg_max_rounds cfg - rounds)" arbitrary: rounds b w)
  case 0
  then show ?case by (subst rounds_loop.simps) simp
next
  case (Suc n)
  let ?R = "cfg_max_rounds cfg"
  have lt: "rounds < ?R" using Suc.hyps(2) by simp
  have len: "0 < lenClients b" using Suc.prems(1) by (auto simp: bal_ok_def)
  have split: "(?R - rounds) * lenClients b = lenClients b + (?R - (rounds + 1)) * lenClients b"
    by (simp add: algebra_simps)
  have rest: "0 \<le> (?R - (rounds + 1)) * lenClients b" using lt len by simp
  obtain r b1 w1 where h: "handleRetries E cfg input (b, w) = (r, (b1, w1))" "keeps b b1"
    "count b \<le> count b1" "count b1 \<le> count b + lenClients b" "final_result input r \<or> r = Fail ErrMaxRetries"
    using handleRetries_ok [of b E cfg input w] Suc.prems split rest by fastforce
  show ?case
  proof (cases "r = Fail ErrMaxRetries")
    case False
    have "count b1 \<le> count b + (?R - rounds) * lenClients b" using h(4) split rest by simp
    with False h lt show ?thesis by (subst rounds_loop.simps) auto
  next
    case True
    have len1: "lenClients b1 = lenClients b" using h(2) by (simp add: keeps_def)
    have "go_int (rounds + 1) = rounds + 1"
      using Suc.prems lt by (intro go_int_id) (simp_all add: min_int_def)
    moreover have "bal_ok b1" using h(2) Suc.prems(1) by (rule keeps_bal_ok)
    moreover have "n = nat (?R - (rounds + 1))" using Suc.hyps(2) by simp
    moreover have "count b1 + (?R - (rounds + 1)) * lenClients b1 \<le> max_int"
      using h(4) Suc.prems(6) split len1 by simp
    ultimately obtain r2 b2 w2 where
      "rounds_loop E cfg input (rounds + 1) (b1, Sleep E (cfg_block_time cfg) w1) = Some (r2, (b2, w2))"
      "keeps b1 b2" "final_result input r2 \<or> r2 = Fail ErrMaxRounds"
      "count b1 \<le> count b2" "count b2 \<le> count b1 + (?R - (rounds + 1)) * lenClients b1"
      using Suc.hyps(1) [of "rounds + 1" b1 "Sleep E (cfg_block_time cfg) w1"] Suc.prems h(3) lt by auto
    moreover have "count b \<le> count b2" "count b2 \<le> count b + (?R - rounds) * lenClients b"
      using calculation(4,5) h(3,4) split len1 by simp_all
    ultimately show ?thesis
      using h True lt \<open>go_int (rounds + 1) = rounds + 1\<close>
      by (subst rounds_loop.simps) (auto simp: sleep_def dest: keeps_trans)
  qed
qed

section \<open>Blocked and healthy clients\<close>

definition all_blocked :: "'c balancer \<Rightarrow> bool" where
  "all_blocked b \<longleftrightarrow> (\<forall>c \<in> set (clients b). blockedUntil c = 0)"

lemma retry_step_all_blocked:
  assumes "bal_ok b" "0 \<le> count b" "all_blocked b"
  shows "retry_step E cfg input (b, w) = (Return None, (b\<lparr>counter := counter b + 1\<rparr>, w))"
proof -
  note i = client_index_ok [OF assms(1,2)]
  have "clients b ! nat (client_index b) \<in> set (clients b)" using i by (simp add: nat_less_iff)
  then have "blockedUntil (clients b ! nat (client_index b)) = 0" using assms(3) by (simp add: all_blocked_def)
  then show ?thesis
    by (simp add: retry_step_def Let_def doRetry_eq [OF i(1,2)] Let_def after_retry_def)
qed

lemma retry_loop_all_blocked:
  assumes "bal_ok b" "0 \<le> count b" "count b + int n \<le> max_int" "all_blocked b"
  shows "\<exists>b'. retry_loop E cfg input n (b, w) = (Fail ErrMaxRetries, (b', w)) \<and>
    clients b' = clients b \<and> lenClients b' = lenClients b \<and> count b' = count b + int n"
  using assms
proof (induction n arbitrary: b)
  case (Suc n)
  let ?b = "b\<lparr>counter := counter b + 1\<rparr>"
  have "bal_ok ?b" "all_blocked ?b" using Suc.prems by (simp_all add: bal_ok_def all_blocked_def)
  moreover have "count ?b = count b + 1" using Suc.prems by (intro count_bump) simp_all
  ultimately show ?case
    using Suc.IH [of ?b] Suc.prems retry_step_all_blocked [of b E cfg input w] by (auto simp: retry_loop.simps(2))
qed simp

lemma rounds_loop_all_blocked:
  assumes "bal_ok b" "all_blocked b" "0 \<le> rounds" "cfg_max_rounds cfg \<le> max_int" "0 \<le> count b"
    and "cfg_max_rounds cfg = rounds + int n" "count b + int n * lenClients b \<le> max_int"
  shows "\<exists>b'. rounds_loop E cfg input rounds (b, w) =
      Some (Fail ErrMaxRounds, (b', (Sleep E (cfg_block_time cfg) ^^ n) w)) \<and> clients b' = clients b"
  using assms
proof (induction n arbitrary: rounds b w)
  case 0
  then show ?case by (subst rounds_loop.simps) simp
next
  case (Suc n)
  have len: "lenClients b = int (length (clients b))" using Suc.prems(1) by (simp add: bal_ok_def)
  have split: "int (Suc n) * lenClients b = lenClients b + int n * lenClients b"
    by (simp add: algebra_simps)
  have nn: "0 \<le> int n * lenClients b" using len by simp
  have "int (nat (lenClients b)) = lenClients b" using len by simp
  then have "count b + int (nat (lenClients b)) \<le> max_int"
    using Suc.prems(7) split nn by linarith
  from retry_loop_all_blocked [OF Suc.prems(1,5) this Suc.prems(2), of E cfg input w]
  obtain b1 where h: "handleRetries E cfg input (b, w) = (Fail ErrMaxRetries, (b1, w))"
    "clients b1 = clients b" "lenClients b1 = lenClients b" "count b1 = count b + lenClients b"
    using len by (auto simp: handleRetries_def)
  then have "bal_ok b1" "all_blocked b1" using Suc.prems(1,2) by (simp_all add: bal_ok_def all_blocked_def)
  moreover have "go_int (rounds + 1) = rounds + 1"
    using Suc.prems by (intro go_int_id) (simp_all add: min_int_def)
  ultimately show ?case
    using Suc.IH [of b1 "rounds + 1" "Sleep E (cfg_block_time cfg) w"] Suc.prems h split len
    by (subst rounds_loop.simps) (auto simp: sleep_def funpow_swap1)
qed

text \<open>A client that is not blocked and answers every request of this kind in time.\<close>

definition healthy :: "('c, 't, 'w) eth_api \<Rightarrow> config \<Rightarrow> genericInput \<Rightarrow> 'c client \<Rightarrow> bool" where
  "healthy E cfg input c \<longleftrightarrow>
     blockedUntil c \<noteq> 0 \<and>
     (\<forall>w. blockedUntil c \<le> fst (Now E w) \<and> \<not> TimerFirst E (cfg_rpc_timeout cfg) (ethClient c) w \<and>
          (\<exists>out w'. doGenericReq E input (ethClient c) w = (Return out, w')))"

lemma retry_step_healthy:
  assumes "bal_ok b" "0 \<le> count b" "healthy E cfg input (clients b ! nat (client_index b))"
  shows "\<exists>out w'. retry_step E cfg input (b, w) =
    (Return (Some (Return out)), (b\<lparr>counter := counter b + 1\<rparr>, w'))"
proof -
  note i = client_index_ok [OF assms(1,2)]
  obtain now w1 where now: "Now E w = (now, w1)" by fastforce
  with assms(3) have c: "blockedUntil (clients b ! nat (client_index b)) \<noteq> 0"
    "\<not> now < blockedUntil (clients b ! nat (client_index b))"
    "\<not> TimerFirst E (cfg_rpc_timeout cfg) (ethClient (clients b ! nat (client_index b))) w1"
    unfolding healthy_def by (metis fst_conv not_less)+
  obtain out w2 where "doGenericReq E input (ethClient (clients b ! nat (client_index b))) w1 = (Return out, w2)"
    using assms(3) unfolding healthy_def by blast
  with c now show ?thesis
    by (simp add: retry_step_def Let_def doRetry_eq [OF i(1,2)] Let_def after_retry_def)
qed

text \<open>Some client finds this request too big.\<close>

definition says_too_big :: "('c, 't, 'w) eth_api \<Rightarrow> genericInput \<Rightarrow> 'c balancer \<Rightarrow> bool" where
  "says_too_big E input b \<longleftrightarrow>
     (\<exists>c \<in> set (clients b). \<exists>w w' err. doGenericReq E input (ethClient c) w = (Fail err, w') \<and>
        handleRPCError err = ErrReqTooBig)"

lemma says_too_big_handles:
  "says_too_big E input b \<longleftrightarrow>
     (\<exists>c \<in> set (map ethClient (clients b)). \<exists>w w' err. doGenericReq E input c w = (Fail err, w') \<and>
        handleRPCError err = ErrReqTooBig)"
  by (simp add: says_too_big_def)

lemma says_too_big_keeps: "keeps b b' \<Longrightarrow> says_too_big E input b' \<longleftrightarrow> says_too_big E input b"
  by (simp only: says_too_big_handles keeps_def)

lemma doRetry_Fail:
  assumes "doRetry E cfg input index (b, w) = (Fail err, s')" "err \<noteq> ErrClientTimeout" "err \<noteq> ErrClientBlocked"
  shows "\<exists>c \<in> set (clients b). \<exists>v v'. doGenericReq E input (ethClient c) v = (Fail err, v')"
proof -
  from assms(1) have index: "0 \<le> index" "index < int (length (clients b))"
    by (auto simp: doRetry_def call_bind_def getEthClient_def client_at_def split: if_splits)
  let ?c = "clients b ! nat index"
  obtain now w1 where now: "Now E w = (now, w1)" by fastforce
  obtain r w2 where r: "doGenericReq E input (ethClient ?c) w1 = (r, w2)" by fastforce
  have "r = Fail err"
    using assms by (auto simp: doRetry_eq [OF index] now r Let_def split: if_splits)
  moreover have "?c \<in> set (clients b)" using index by simp
  ultimately show ?thesis using r by blast
qed

lemma retry_step_too_big:
  assumes "retry_step E cfg input (b, w) = (Return (Some (Fail e)), s')"
  shows "says_too_big E input b"
proof -
  obtain r s1 where d: "doRetry E cfg input (client_index b) (b, w) = (r, s1)" by (rule prod.exhaust)
  obtain err where err: "r = Fail err" "handleRPCError err = ErrReqTooBig" "err \<noteq> ErrClientTimeout"
    "err \<noteq> ErrClientBlocked"
    using assms d
    by (cases r) (auto simp: retry_step_def Let_def after_retry_def call_bind_def call_return_def
        split: if_splits prod.splits outcome.splits)
  from doRetry_Fail [OF d [unfolded err(1)] err(3,4)] err(2) show ?thesis unfolding says_too_big_def by blast
qed

lemma retry_loop_healthy:
  assumes "bal_ok b" "0 \<le> count b" "count b + int n \<le> max_int" "i < length (clients b)"
    and "healthy E cfg input (clients b ! i)" "j < n" "(count b + int j) mod lenClients b = int i"
  shows "\<exists>r b' w'. retry_loop E cfg input n (b, w) = (r, (b', w')) \<and> final_result input r \<and>
    (r = Fail ErrReqTooBig \<longrightarrow> says_too_big E input b) \<and> clients b' ! i = clients b ! i"
  using assms
proof (induction n arbitrary: b w j)
  case (Suc n)
  have lt: "count b < max_int" using Suc.prems(3) by simp
  obtain r' b1 w1 where s: "retry_step E cfg input (b, w) = (Return r', (b1, w1))" "keeps b b1"
    "count b1 = count b + 1" "\<And>x. r' = Some x \<Longrightarrow> final_result input x"
    and other: "\<And>k. k \<noteq> nat (client_index b) \<Longrightarrow> clients b1 ! k = clients b ! k"
    by (rule retry_step_ok [OF Suc.prems(1,2) lt, of E cfg input w]) (blast intro: that)
  show ?case
  proof (cases r')
    case (Some x)
    have "clients b1 ! i = clients b ! i"
    proof (cases "i = nat (client_index b)")
      case True
      then show ?thesis
        using retry_step_healthy [OF Suc.prems(1,2), of E cfg input w] Suc.prems(5) s(1) by auto
    qed (use other in simp)
    with s Some show ?thesis using retry_step_too_big by (fastforce simp: retry_loop.simps(2))
  next
    case None
    have "nat (client_index b) \<noteq> i"
      using retry_step_healthy [OF Suc.prems(1,2), of E cfg input w] Suc.prems(5) s(1) None by auto
    then have h: "healthy E cfg input (clients b1 ! i)" using other [of i] Suc.prems(5) by simp
    have "j \<noteq> 0"
    proof
      assume "j = 0"
      then have "client_index b = int i"
        using Suc.prems(1,7) client_index_ok(3) [OF Suc.prems(1,2)] by (simp add: bal_ok_def)
      with \<open>nat (client_index b) \<noteq> i\<close> show False by simp
    qed
    then obtain j' where j: "j = Suc j'" "j' < n" using Suc.prems(6) by (cases j) auto
    have "(count b1 + int j') mod lenClients b1 = int i"
      using Suc.prems(7) s(2,3) j by (simp add: keeps_def algebra_simps)
    with Suc.IH [of b1 j' w1] Suc.prems s j h None keeps_length [OF s(2)] keeps_bal_ok [OF s(2)]
      \<open>nat (client_index b) \<noteq> i\<close> other [of i] says_too_big_keeps [OF s(2), of E input]
    show ?thesis by (simp add: retry_loop.simps(2))
  qed
qed simp

section \<open>Properties\<close>

text \<open>The hypotheses on a balancer in use: built from at least one endpoint, with room in
  the attempt counter for the attempts of the call.\<close>

definition ready :: "config \<Rightarrow> 'c balancer \<Rightarrow> bool" where
  "ready cfg b \<longleftrightarrow> bal_ok b \<and> 0 \<le> count b \<and> 0 \<le> cfg_max_rounds cfg \<and> cfg_max_rounds cfg \<le> max_int \<and>
     count b + cfg_max_rounds cfg * lenClients b \<le> max_int"

lemma handleRounds_ok:
  assumes "ready cfg b"
  shows "\<exists>r b' w'. handleRounds E cfg input (b, w) = Some (r, (b', w')) \<and> keeps b b' \<and>
    count b \<le> count b' \<and> count b' \<le> count b + cfg_max_rounds cfg * lenClients b \<and>
    (final_result input r \<or> r = Fail ErrMaxRounds)"
  using rounds_loop_ok [of b 0 cfg E input w] assms by (simp add: handleRounds_def ready_def)

text \<open>An answer of the balancer is the answer of one of its clients to the same request.\<close>

lemma retry_step_answer:
  assumes "retry_step E cfg input s = (Return (Some (Return out)), s')"
  shows "\<exists>c w w'. doGenericReq E input c w = (Return out, w')"
proof -
  obtain b w where s: "s = (b, w)" by fastforce
  obtain r s1 where d: "doRetry E cfg input (client_index b) s = (r, s1)" by (rule prod.exhaust)
  have "r = Return out"
    using assms d s
    by (cases r) (auto simp: retry_step_def Let_def after_retry_def call_bind_def call_return_def
        split: if_splits prod.splits outcome.splits)
  with d s show ?thesis
    by (auto simp: doRetry_def call_bind_def call_lift_def getEthClient_def isBlocked_def timed_request_def Let_def
        bump_counter_def split: if_splits prod.splits outcome.splits)
qed

lemma retry_step_no_Fail: "fst (retry_step E cfg input s) \<noteq> Fail e"
  by (auto simp: retry_step_def Let_def after_retry_def call_bind_def call_return_def temporaryBlock_def
      indefiniteBlock_def client_at_def split: prod.splits outcome.splits if_splits)

lemma retry_loop_answer:
  "retry_loop E cfg input n s = (Return out, s') \<Longrightarrow> \<exists>c w w'. doGenericReq E input c w = (Return out, w')"
  by (induction n arbitrary: s)
    (auto simp: retry_loop.simps(2) dest: retry_step_answer split: prod.splits outcome.splits option.splits)

lemma says_too_big_request:
  "says_too_big E input b \<Longrightarrow> \<exists>c w w' err. doGenericReq E input c w = (Fail err, w') \<and> handleRPCError err = ErrReqTooBig"
  unfolding says_too_big_def by blast

lemma retry_loop_too_big:
  "retry_loop E cfg input n s = (Fail ErrReqTooBig, s') \<Longrightarrow>
    \<exists>c w w' err. doGenericReq E input c w = (Fail err, w') \<and> handleRPCError err = ErrReqTooBig"
proof (induction n arbitrary: s)
  case (Suc n)
  obtain b w where s: "s = (b, w)" by fastforce
  obtain r s1 where r: "retry_step E cfg input (b, w) = (r, s1)" by (rule prod.exhaust)
  note Suc = Suc [unfolded s]
  show ?case
  proof (cases r)
    case (Return o1)
    with r Suc show ?thesis
      by (cases o1) (auto simp: retry_loop.simps(2) intro: says_too_big_request [OF retry_step_too_big])
  next
    case (Fail e)
    with r have "fst (retry_step E cfg input (b, w)) = Fail e" by simp
    with retry_step_no_Fail [of E cfg input "(b, w)" e] show ?thesis by blast
  qed (use r s Suc.prems in \<open>simp add: retry_loop.simps(2)\<close>)
qed simp

lemma rounds_loop_too_big:
  assumes "rounds_loop E cfg input rounds s = Some (Fail ErrReqTooBig, s')"
  shows "\<exists>c w w' err. doGenericReq E input c w = (Fail err, w') \<and> handleRPCError err = ErrReqTooBig"
proof -
  have "fst y = Fail ErrReqTooBig \<longrightarrow>
      (\<exists>c w w' err. doGenericReq E input c w = (Fail err, w') \<and> handleRPCError err = ErrReqTooBig)"
    if "rounds_loop E cfg input rounds s = Some y" for y
    using that
    by (rule rounds_loop.raw_induct [rotated])
      (auto simp: handleRetries_def dest: retry_loop_too_big split: if_splits prod.splits)
  from this [OF assms] show ?thesis by simp
qed

lemma rounds_loop_answer:
  assumes "rounds_loop E cfg input rounds s = Some (Return out, s')"
  shows "\<exists>c w w'. doGenericReq E input c w = (Return out, w')"
proof -
  have "fst y = Return out \<longrightarrow> (\<exists>c w w'. doGenericReq E input c w = (Return out, w'))"
    if "rounds_loop E cfg input rounds s = Some y" for y
    using that
    by (rule rounds_loop.raw_induct [rotated])
      (auto simp: handleRetries_def dest: retry_loop_answer split: if_splits prod.splits)
  from this [OF assms] show ?thesis by simp
qed

lemma handleRounds_healthy:
  assumes "ready cfg b" and "0 < cfg_max_rounds cfg"
    and "c \<in> set (clients b)" and "healthy E cfg input c"
  shows "\<exists>r b' w'. handleRetries E cfg input (b, w) = (r, (b', w')) \<and>
    handleRounds E cfg input (b, w) = Some (r, (b', w')) \<and> final_result input r \<and>
    (r = Fail ErrReqTooBig \<longrightarrow> says_too_big E input b) \<and> c \<in> set (clients b')"
proof -
  from assms(3) obtain i where i: "i < length (clients b)" "clients b ! i = c"
    by (auto simp: in_set_conv_nth)
  have ok: "bal_ok b" "0 \<le> count b" and len: "lenClients b = int (length (clients b))"
    using assms(1) by (simp_all add: ready_def bal_ok_def)
  have "1 * lenClients b \<le> cfg_max_rounds cfg * lenClients b"
    using assms(2) len by (intro mult_right_mono) simp_all
  then have room: "count b + int (length (clients b)) \<le> max_int"
    using assms(1) len by (simp add: ready_def)
  define j where "j = nat ((int i - count b) mod lenClients b)"
  have pos: "0 < lenClients b" using ok(1) by (auto simp: bal_ok_def)
  have j: "j < length (clients b)" using pos len by (simp add: j_def nat_less_iff)
  have "int j = (int i - count b) mod lenClients b" using pos by (simp add: j_def)
  then have "(count b + int j) mod lenClients b = int i"
    using i(1) len by (simp add: mod_add_right_eq)
  from retry_loop_healthy [OF ok room i(1) _ j this, of E cfg input w] assms(4) i(2)
  obtain r b' w' where rs: "handleRetries E cfg input (b, w) = (r, (b', w'))" "final_result input r"
    "clients b' ! i = clients b ! i" "r = Fail ErrReqTooBig \<longrightarrow> says_too_big E input b"
    by (auto simp: handleRetries_def len)
  then have "r \<noteq> Fail ErrMaxRetries" by (auto simp: final_result_def)
  moreover have "c \<in> set (clients b')"
  proof -
    have "handleRounds E cfg input (b, w) = Some (r, (b', w'))"
      unfolding handleRounds_def using rs(1) calculation assms(2) by (subst rounds_loop.simps) simp
    then have "length (clients b') = length (clients b)"
      using handleRounds_ok [OF assms(1), of E input w] keeps_length by auto
    with i rs(3) show ?thesis by (metis nth_mem)
  qed
  ultimately show ?thesis
    using rs assms(2) unfolding handleRounds_def by (subst rounds_loop.simps) (auto simp: in_set_conv_nth)
qed

text \<open>A concrete configuration and balancer for the witnesses.\<close>

definition ref_config :: config where
  "ref_config =
     \<lparr>cfg_block_time = 20 * second, cfg_rpc_timeout = 20 * second, cfg_max_rounds = 3,
      cfg_endpoints = [''limited'', ''good''], cfg_address = ''0x01'', cfg_topic = ''0x02'',
      cfg_concurrency = 100, cfg_start_block = 0, cfg_end_block = 0, cfg_block_tag = ''latest'',
      cfg_cycle_interval = 5000 * millisecond, cfg_db_path = ''l1_data.db'',
      cfg_sync_interval = 5000 * millisecond, cfg_port = ''8080''\<rparr>"

definition ref_client :: "string \<Rightarrow> int \<Rightarrow> string client" where
  "ref_client name t = \<lparr>ethClient = name, url = name, blockedUntil = t\<rparr>"

definition ref_balancer :: "int \<Rightarrow> int \<Rightarrow> string balancer" where
  "ref_balancer t u = \<lparr>clients = [ref_client ''limited'' t, ref_client ''good'' u], counter = 0, lenClients = 2\<rparr>"

lemma ready_ref_balancer: "ready ref_config (ref_balancer t u)"
  by (simp add: ready_def ref_config_def ref_balancer_def bal_ok_def int_of_uint64_def max_int_def)

text \<open>C9: a call of the balancer returns, whatever the endpoints answer: it makes at most
  \<^verbatim>\<open>MAX_ROUNDS\<close> rounds of one attempt per client, never indexes a client out of range,
  and ends with an answer that has the requested part, with \<^verbatim>\<open>ErrReqTooBig\<close> or with
  \<^verbatim>\<open>ErrMaxRounds\<close>; the clients and their handles stay the same.\<close>

theorem handleRounds_total:
  assumes "ready cfg b"
  shows "\<exists>r b' w'. handleRounds E cfg input (b, w) = Some (r, (b', w')) \<and>
    ((\<exists>out. r = Return out \<and> answers input out) \<or> r = Fail ErrReqTooBig \<or> r = Fail ErrMaxRounds) \<and>
    map ethClient (clients b') = map ethClient (clients b) \<and> lenClients b' = lenClients b"
  using handleRounds_ok [OF assms, of E input w] by (auto simp: final_result_def keeps_def)

theorem handleRounds_total_witness:
  "handleRounds ref_eth ref_config no_request (ref_balancer 0 0, 5) \<noteq> None"
  using handleRounds_total [OF ready_ref_balancer, of ref_eth no_request 0 0 5] by auto

text \<open>C32: the three methods of the balancer return, never panic, and their only errors are
  \<^verbatim>\<open>ErrReqTooBig\<close> and \<^verbatim>\<open>ErrMaxRounds\<close>; a batch answer has one entry per requested block
  and transaction.\<close>

theorem balancer_interface:
  assumes "ready cfg b"
  shows "(\<exists>r s. GetLogs E cfg lo hi tp (b, w) = Some (r, s) \<and>
      ((\<exists>logs. r = Return logs) \<or> r = Fail ErrReqTooBig \<or> r = Fail ErrMaxRounds)) \<and>
    (\<exists>r s. GetBlockFromTag E cfg tag (b, w) = Some (r, s) \<and>
      ((\<exists>n. r = Return n) \<or> r = Fail ErrReqTooBig \<or> r = Fail ErrMaxRounds)) \<and>
    (\<exists>r s. GetBlocksAndTxs E cfg bns hashes (b, w) = Some (r, s) \<and>
      ((\<exists>blocks txs. r = Return (blocks, txs) \<and> length blocks = length bns \<and> length txs = length hashes) \<or>
       r = Fail ErrReqTooBig \<or> r = Fail ErrMaxRounds))"
proof -
  note ok = handleRounds_ok [OF assms, of E _ w]
  have "\<exists>r s. GetLogs E cfg lo hi tp (b, w) = Some (r, s) \<and>
      ((\<exists>logs. r = Return logs) \<or> r = Fail ErrReqTooBig \<or> r = Fail ErrMaxRounds)"
    using ok [of "no_request\<lparr>in_logs := Some \<lparr>startBlock = lo, endBlock = hi, topic = tp\<rparr>\<rparr>"]
    by (auto simp: GetLogs_def final_result_def answers_def deref_def)
  moreover have "\<exists>r s. GetBlockFromTag E cfg tag (b, w) = Some (r, s) \<and>
      ((\<exists>n. r = Return n) \<or> r = Fail ErrReqTooBig \<or> r = Fail ErrMaxRounds)"
    using ok [of "no_request\<lparr>in_blockTag := Some tag\<rparr>"]
    by (auto simp: GetBlockFromTag_def final_result_def answers_def deref_def no_request_def)
  moreover have "\<exists>r s. GetBlocksAndTxs E cfg bns hashes (b, w) = Some (r, s) \<and>
      ((\<exists>blocks txs. r = Return (blocks, txs) \<and> length blocks = length bns \<and> length txs = length hashes) \<or>
       r = Fail ErrReqTooBig \<or> r = Fail ErrMaxRounds)"
    using ok [of "no_request\<lparr>in_blockAndTxs := Some \<lparr>blockNumbers = bns, txHashes = hashes\<rparr>\<rparr>"]
    by (auto simp: GetBlocksAndTxs_def final_result_def answers_def deref_def no_request_def)
  ultimately show ?thesis by blast
qed

theorem balancer_interface_witness:
  "\<exists>r s. GetBlockFromTag ref_eth ref_config ''latest'' (ref_balancer 0 0, 5) = Some (r, s)"
  using balancer_interface [OF ready_ref_balancer, of ref_eth 1 2 "''t''" 0 0 5 "''latest''" "[]" "[]"]
  by blast

text \<open>C10: if one client is not blocked and answers this request in time, a call ends in its
  first round: what \<^verbatim>\<open>handleRounds\<close> returns is what its first \<^verbatim>\<open>handleRetries\<close> returned, and that is
  an answer, or \<^verbatim>\<open>ErrReqTooBig\<close>, and then because a client of the balancer finds this request too
  big. The healthy client need not be the one that answers.\<close>

theorem healthy_client_is_used:
  assumes "ready cfg b" and "0 < cfg_max_rounds cfg"
    and "c \<in> set (clients b)" and "healthy E cfg input c"
  shows "\<exists>r s. handleRetries E cfg input (b, w) = (r, s) \<and> handleRounds E cfg input (b, w) = Some (r, s) \<and>
    ((\<exists>out. r = Return out \<and> answers input out) \<or>
     r = Fail ErrReqTooBig \<and> (\<exists>k \<in> set (clients b). \<exists>v v' err.
       doGenericReq E input (ethClient k) v = (Fail err, v') \<and> handleRPCError err = ErrReqTooBig))"
proof -
  obtain r b' w' where "handleRetries E cfg input (b, w) = (r, (b', w'))"
    "handleRounds E cfg input (b, w) = Some (r, (b', w'))" "final_result input r"
    "r = Fail ErrReqTooBig \<longrightarrow> says_too_big E input b"
    using handleRounds_healthy [OF assms] by blast
  then show ?thesis unfolding final_result_def says_too_big_def by blast
qed

theorem healthy_client_is_used_witness:
  "\<exists>r s. handleRounds (ref_eth\<lparr>Now := (\<lambda>w. (\<bar>w\<bar>, w))\<rparr>) ref_config
      (no_request\<lparr>in_logs := Some \<lparr>startBlock = 1, endBlock = 2, topic = ''t''\<rparr>\<rparr>)
      (ref_balancer 0 (- 1), 5) = Some (r, s) \<and> r \<noteq> Fail ErrMaxRounds"
proof -
  let ?in = "no_request\<lparr>in_logs := Some \<lparr>startBlock = 1, endBlock = 2, topic = ''t''\<rparr>\<rparr>"
  define E where "E = ref_eth\<lparr>Now := (\<lambda>w. (\<bar>w\<bar>, w))\<rparr>"
  have "healthy E ref_config ?in (ref_client ''good'' (- 1))"
    by (auto simp: healthy_def E_def ref_eth_def ref_client_def doGenericReq_def getLogs_def
        intro: order_trans [of "- 1" 0])
  from healthy_client_is_used [OF ready_ref_balancer _ _ this, of 0 "- 1" 5]
  show ?thesis by (auto simp: ref_config_def ref_balancer_def E_def)
qed

text \<open>C34: once every client is blocked indefinitely, a call sends no request at all: it only
  sleeps through its rounds and reports \<^verbatim>\<open>ErrMaxRounds\<close>.\<close>

theorem all_blocked_no_request:
  assumes "ready cfg b" and "\<forall>c \<in> set (clients b). blockedUntil c = 0"
  shows "\<exists>b'. handleRounds E cfg input (b, w) =
      Some (Fail ErrMaxRounds, (b', (Sleep E (cfg_block_time cfg) ^^ nat (cfg_max_rounds cfg)) w)) \<and>
    clients b' = clients b"
  using rounds_loop_all_blocked [of b 0 cfg "nat (cfg_max_rounds cfg)" E input w] assms
  by (simp add: handleRounds_def ready_def all_blocked_def)

theorem all_blocked_no_request_witness:
  "\<exists>b'. handleRounds ref_eth ref_config no_request (ref_balancer 0 0, 5) =
     Some (Fail ErrMaxRounds, (b', 5 + 3 * (20 * second)))"
proof -
  have "\<forall>c \<in> set (clients (ref_balancer 0 0)). blockedUntil c = 0"
    by (simp add: ref_balancer_def ref_client_def)
  moreover have "(Sleep ref_eth (cfg_block_time ref_config) ^^ nat (cfg_max_rounds ref_config)) 5 =
      5 + 3 * (20 * second)"
    by (simp add: ref_config_def ref_eth_def numeral_eq_Suc)
  ultimately show ?thesis
    using all_blocked_no_request [OF ready_ref_balancer, of 0 0 ref_eth no_request 5] by metis
qed

section \<open>Construction and the effect of one attempt\<close>

lemma dial_all_clients:
  assumes "dial_all E endpoints cs w = (Return cs', w')"
  shows "map url cs' = map url cs @ endpoints \<and>
    (\<forall>c \<in> set cs'. c \<in> set cs \<or>
      (\<exists>u v t. fst (Dial E (url c) u) = Inr (ethClient c) \<and> fst (Now E v) = t \<and> blockedUntil c = t - second))"
  using assms
proof (induction E endpoints cs w rule: dial_all.induct)
  case (2 E endpoint rest cs w)
  obtain d w1 where d: "Dial E endpoint w = (d, w1)" by fastforce
  obtain now w2 where n: "Now E w1 = (now, w2)" by fastforce
  from 2(2) d n obtain c where c: "d = Inr c" by (cases d) auto
  let ?c = "\<lparr>ethClient = c, url = endpoint, blockedUntil = now - second\<rparr>"
  have rest: "dial_all E rest (cs @ [?c]) w2 = (Return cs', w')" using 2(2) d n c by simp
  from 2(1) [OF d[symmetric] c n[symmetric] rest]
  have ih: "map url cs' = map url cs @ endpoint # rest" "\<forall>k \<in> set cs'. k \<in> set cs \<or> k = ?c \<or>
      (\<exists>u v t. fst (Dial E (url k) u) = Inr (ethClient k) \<and> fst (Now E v) = t \<and> blockedUntil k = t - second)"
    by auto
  have "fst (Dial E (url ?c) w) = Inr (ethClient ?c)" "fst (Now E w1) = now" using d n c by simp_all
  with ih show ?case by (metis client.select_convs(3))
qed auto

text \<open>What the code relies on of the machine's clock: \<open>later\<close> relates a state of the world to
  those it can turn into, a dial and a reading of the clock only move the world forward, the
  clock does not go backwards, and it is past the first second of Go's zero time.\<close>

definition clock_ok :: "('c, 't, 'w) eth_api \<Rightarrow> ('w \<Rightarrow> 'w \<Rightarrow> bool) \<Rightarrow> bool" where
  "clock_ok E later \<longleftrightarrow> reflp later \<and> transp later \<and>
     (\<forall>endpoint v. later v (snd (Dial E endpoint v))) \<and> (\<forall>v. later v (snd (Now E v))) \<and>
     (\<forall>v v'. later v v' \<longrightarrow> fst (Now E v) \<le> fst (Now E v')) \<and> (\<forall>v. second < fst (Now E v))"

lemma dial_all_later:
  assumes "clock_ok E later" and "dial_all E endpoints cs w = (Return cs', w')"
  shows "later w w' \<and> (\<forall>c \<in> set cs'. c \<in> set cs \<or>
    (\<exists>v. later w v \<and> later v w' \<and> blockedUntil c = fst (Now E v) - second))"
  using assms
proof (induction E endpoints cs w rule: dial_all.induct)
  case (1 E cs w)
  then show ?case by (auto simp: clock_ok_def reflp_def)
next
  case (2 E endpoint rest cs w)
  obtain d w1 where d: "Dial E endpoint w = (d, w1)" by fastforce
  obtain now w2 where n: "Now E w1 = (now, w2)" by fastforce
  from 2(3) d n obtain c where c: "d = Inr c" by (cases d) auto
  let ?c = "\<lparr>ethClient = c, url = endpoint, blockedUntil = now - second\<rparr>"
  have "dial_all E rest (cs @ [?c]) w2 = (Return cs', w')" using 2(3) d n c by simp
  from 2(1) [OF d[symmetric] c n[symmetric] 2(2) this]
  have ih: "later w2 w'" "\<forall>k \<in> set cs'. k \<in> set cs \<or> k = ?c \<or>
      (\<exists>v. later w2 v \<and> later v w' \<and> blockedUntil k = fst (Now E v) - second)" by auto
  have trans: "later u x" if "later u v" "later v x" for u v x
    using 2(2) that unfolding clock_ok_def by (elim conjE) (erule transpD)
  have "later w (snd (Dial E endpoint w))" "later w1 (snd (Now E w1))"
    using 2(2) unfolding clock_ok_def by blast+
  then have steps: "later w w1" "later w1 w2" using d n by simp_all
  note w1w' = trans [OF steps(2) ih(1)]
  have old: "\<exists>v. later w v \<and> later v w' \<and> blockedUntil k = fst (Now E v) - second"
    if "later w2 v" "later v w'" "blockedUntil k = fst (Now E v) - second" for k v
    using trans [OF trans [OF steps] that(1)] that by blast
  have "\<exists>v. later w v \<and> later v w' \<and> blockedUntil ?c = fst (Now E v) - second"
    using steps(1) w1w' n by (intro exI [of _ w1]) simp
  with old ih(2) trans [OF steps(1) w1w'] show ?case by blast
qed

text \<open>C33: the balancer that \<^verbatim>\<open>NewBalancer\<close> builds has one client per endpoint, in the order
  of the configuration and dialled at that endpoint; with a clock that does not go backwards
  no client is blocked, neither for good nor for a while, at any moment after the balancer was
  built; and it meets the hypotheses of the properties above when there is an endpoint.\<close>

theorem NewBalancer_ready:
  assumes "NewBalancer E cfg w = (Return b, w')" and "clock_ok E later"
  shows "map url (clients b) = cfg_endpoints cfg \<and> counter b = 0 \<and>
    (\<forall>c \<in> set (clients b). (\<exists>u. fst (Dial E (url c) u) = Inr (ethClient c)) \<and> blockedUntil c \<noteq> 0) \<and>
    (\<forall>v i. later w' v \<and> 0 \<le> i \<and> i < int (length (cfg_endpoints cfg)) \<longrightarrow>
       isBlocked E i (b, v) = (Return False, (b, snd (Now E v)))) \<and>
    (cfg_endpoints cfg \<noteq> [] \<and> 0 \<le> cfg_max_rounds cfg \<and>
       cfg_max_rounds cfg \<le> max_int \<and> cfg_max_rounds cfg * int (length (cfg_endpoints cfg)) \<le> max_int \<longrightarrow>
     ready cfg b)"
proof -
  from assms(1) obtain cs where cs: "dial_all E (cfg_endpoints cfg) [] w = (Return cs, w')"
    and b: "b = \<lparr>clients = cs, counter = 0, lenClients = int (length cs)\<rparr>"
    by (auto simp: NewBalancer_def call_bind_def call_return_def split: prod.splits outcome.splits)
  from dial_all_clients [OF cs] have urls: "map url cs = cfg_endpoints cfg"
    and each: "\<forall>c \<in> set cs. \<exists>u. fst (Dial E (url c) u) = Inr (ethClient c)" by auto
  from dial_all_later [OF assms(2) cs] have times: "\<forall>c \<in> set cs. \<exists>v. later v w' \<and>
      blockedUntil c = fst (Now E v) - second" by auto
  have clock: "second < fst (Now E v)" "later v v' \<Longrightarrow> fst (Now E v) \<le> fst (Now E v')"
    "later v v' \<Longrightarrow> later v' x \<Longrightarrow> later v x" for v v' x
    using assms(2) unfolding clock_ok_def by (simp, simp, elim conjE, metis transpD)
  have unblocked: "blockedUntil c \<noteq> 0 \<and> (\<forall>v. later w' v \<longrightarrow> blockedUntil c \<le> fst (Now E v))"
    if "c \<in> set cs" for c
  proof -
    from times that obtain u where u: "later u w'" "blockedUntil c = fst (Now E u) - second" by blast
    then have "blockedUntil c \<le> fst (Now E v)" if "later w' v" for v
      using clock(2) [OF clock(3) [OF u(1) that]] by (simp add: second_def)
    then show ?thesis using u(2) clock(1) [of u] by simp
  qed
  from arg_cong [OF urls, of length] have len: "length cs = length (cfg_endpoints cfg)" by simp
  have free: "isBlocked E i (b, v) = (Return False, (b, snd (Now E v)))"
    if "later w' v" "0 \<le> i" "i < int (length (cfg_endpoints cfg))" for v i
  proof -
    have "cs ! nat i \<in> set cs" using that len by simp
    from unblocked [OF this] show ?thesis using that len b
      by (auto simp: isBlocked_def client_at_def split: prod.splits)
  qed
  show ?thesis using urls each unblocked free len b
    by (auto simp: ready_def bal_ok_def int_of_uint64_def)
qed

text \<open>A clock that has started and stands still, with endpoints that do not move the world.\<close>

definition started_eth :: "(string, nat, int) eth_api" where
  "started_eth = ref_eth\<lparr>Now := (\<lambda>w. (second + 1 + \<bar>w\<bar>, w))\<rparr>"

theorem NewBalancer_ready_witness:
  "\<exists>b. NewBalancer started_eth ref_config 5 = (Return b, 5) \<and> ready ref_config b \<and>
     isBlocked started_eth 1 (b, - 8) = (Return False, (b, - 8))"
proof -
  obtain b where "NewBalancer started_eth ref_config 5 = (Return b, 5)"
    by (simp add: NewBalancer_def started_eth_def ref_eth_def ref_config_def call_bind_def call_return_def)
  moreover have "clock_ok started_eth (\<lambda>v v'. \<bar>v\<bar> \<le> \<bar>v'\<bar>)"
    by (auto simp: clock_ok_def started_eth_def ref_eth_def reflp_def transp_def)
  ultimately show ?thesis
    using NewBalancer_ready [of started_eth ref_config 5 b 5 "\<lambda>v v'. \<bar>v\<bar> \<le> \<bar>v'\<bar>"]
    by (auto simp: ref_config_def max_int_def started_eth_def)
qed

text \<open>C30: what one attempt does to the clients. A timeout or a rate limit blocks the client
  that was asked for \<^verbatim>\<open>BLOCK_TIME\<close> from the current time; an answer and \<^verbatim>\<open>ErrReqTooBig\<close>
  end the call and leave the clients alone; any other error blocks this client for good. No
  other client changes, and the counter moves to the next one.\<close>

theorem retry_step_effect:
  assumes "bal_ok b" and "0 \<le> count b" and "c = clients b ! nat (client_index b)"
    and "blockedUntil c \<noteq> 0" and "Now E w = (now, w1)" and "blockedUntil c \<le> now"
    and "doGenericReq E input (ethClient c) w1 = (r, w2)" and "Now E w2 = (now', w3)"
    and "late = TimerFirst E (cfg_rpc_timeout cfg) (ethClient c) w1"
    and "b1 = b\<lparr>counter := counter b + 1\<rparr>"
    and "r \<noteq> Fail ErrClientTimeout" and "r \<noteq> Fail ErrClientBlocked"
  shows "retry_step E cfg input (b, w) =
    (if late then (Return None, (set_blocked (client_index b) (now' + cfg_block_time cfg) b1, w3))
     else case r of
       Return out \<Rightarrow> (Return (Some (Return out)), (b1, w2))
     | Panic m \<Rightarrow> (Return (Some (Panic m)), (b1, w2))
     | Fail err \<Rightarrow>
         (if handleRPCError err = ErrRateLimit
          then (Return None, (set_blocked (client_index b) (now' + cfg_block_time cfg) b1, w3))
          else if handleRPCError err = ErrReqTooBig then (Return (Some (Fail ErrReqTooBig)), (b1, w2))
          else (Return None, (set_blocked (client_index b) 0 b1, w2))))"
proof -
  note i = client_index_ok [OF assms(1,2)]
  have at: "client_at b1 (client_index b) = Return c"
    using i assms(3,10) by (simp add: client_at_def)
  have attempt: "doRetry E cfg input (client_index b) (b, w) =
      (if late then Fail ErrClientTimeout else r, (b1, w2))"
    using assms(3-10) by (simp add: doRetry_eq [OF i(1,2)] Let_def)
  have temp: "temporaryBlock E cfg (client_index b) (b1, w2) =
      (Return (), (set_blocked (client_index b) (now' + cfg_block_time cfg) b1, w3))"
    by (simp add: temporaryBlock_def at assms(8))
  have indef: "indefiniteBlock (client_index b) (b1, w2) =
      (Return (), (set_blocked (client_index b) 0 b1, w2))"
    by (simp add: indefiniteBlock_def at)
  show ?thesis
    using assms(11,12)
    by (cases r)
      (auto simp: retry_step_def Let_def attempt after_retry_def call_bind_def call_return_def temp indef)
qed

theorem retry_step_effect_witness:
  "retry_step ref_eth ref_config
      (no_request\<lparr>in_logs := Some \<lparr>startBlock = 1, endBlock = 2, topic = ''t''\<rparr>\<rparr>) (ref_balancer 1 1, 5) =
    (Return None, (set_blocked 0 (5 + 20 * second) ((ref_balancer 1 1)\<lparr>counter := 1\<rparr>), 5))"
proof -
  let ?in = "no_request\<lparr>in_logs := Some \<lparr>startBlock = 1, endBlock = 2, topic = ''t''\<rparr>\<rparr>"
  have i: "client_index (ref_balancer 1 1) = 0"
    by (simp add: client_index_def ref_balancer_def int_of_uint64_def go_rem_def)
  have req: "doGenericReq ref_eth ?in ''limited'' 5 = (Fail (Foreign ''429 Too Many Requests'' None), 5)"
    by (simp add: doGenericReq_def getLogs_def ref_eth_def)
  have limit: "handleRPCError (Foreign ''429 Too Many Requests'' None) = ErrRateLimit" by code_simp
  have b: "bal_ok (ref_balancer 1 1)" "0 \<le> count (ref_balancer 1 1)"
    by (simp_all add: bal_ok_def ref_balancer_def int_of_uint64_def)
  have c: "ref_client ''limited'' 1 = clients (ref_balancer 1 1) ! nat (client_index (ref_balancer 1 1))"
    "ethClient (ref_client ''limited'' 1) = ''limited''" "blockedUntil (ref_client ''limited'' 1) = 1"
    by (simp_all add: i) (simp_all add: ref_balancer_def ref_client_def)
  have now: "Now ref_eth 5 = (5, 5)" "cfg_block_time ref_config = 20 * second"
    "counter (ref_balancer 1 1) + 1 = 1" "\<not> TimerFirst ref_eth t cl v" for t cl v
    by (simp_all add: ref_eth_def ref_config_def ref_balancer_def)
  show ?thesis
    using retry_step_effect [OF b c(1) _ now(1) _ _ now(1) refl refl, of ?in "Fail (Foreign ''429 Too Many Requests'' None)"
        ref_config] c(2,3) now req limit i
    by simp
qed

text \<open>A client that is blocked for good stays blocked in every later call, and keeps its
  place in the list and its endpoint; the clients that are not asked keep their deadline in
  each attempt.\<close>

theorem indefinite_block_is_permanent:
  assumes "ready cfg b" and "handleRounds E cfg input (b, w) = Some (r, (b', w'))"
  shows "map url (clients b') = map url (clients b) \<and>
    (\<forall>i < length (clients b). blockedUntil (clients b ! i) = 0 \<longrightarrow> blockedUntil (clients b' ! i) = 0)"
  using handleRounds_ok [OF assms(1), of E input w] assms(2) by (auto simp: keeps_def)

theorem indefinite_block_is_permanent_witness:
  "\<exists>r b' w'. handleRounds ref_eth ref_config no_request (ref_balancer 0 1, 5) = Some (r, (b', w')) \<and>
    blockedUntil (clients b' ! 0) = 0"
proof -
  obtain r b' w' where h: "handleRounds ref_eth ref_config no_request (ref_balancer 0 1, 5) = Some (r, (b', w'))"
    using handleRounds_ok [OF ready_ref_balancer, of ref_eth no_request 0 1 5] by blast
  with indefinite_block_is_permanent [OF ready_ref_balancer h] show ?thesis
    by (auto simp: ref_balancer_def ref_client_def)
qed

end
