(* ===== verification/Balancer_Service.thy ===== *)
theory Balancer_Service
  imports Interfaces Balancer
begin

text \<open>
  The balancer as a provider of the interface \<^verbatim>\<open>types.Balancer\<close>: it keeps the laws of
  \<open>balancer_service\<close> whatever its endpoints do, and those of \<open>honest_balancer\<close> when every
  endpoint that answers shows the same chain (\<open>honest_endpoints\<close>).
\<close>

definition as_balancer :: "('c, 't, 'w) eth_api \<Rightarrow> config \<Rightarrow> (('c, 'w) bstate, 't) balancer_api" where
  "as_balancer E cfg =
     \<lparr>api_GetLogs = GetLogs E cfg, api_GetBlockFromTag = GetBlockFromTag E cfg,
      api_GetBlocksAndTxs = GetBlocksAndTxs E cfg\<rparr>"

section \<open>Every call returns\<close>

text \<open>A call makes at most \<open>attempts\<close> attempts, each of which counts one.\<close>

definition attempts :: "config \<Rightarrow> 'c balancer \<Rightarrow> int" where
  "attempts cfg b = cfg_max_rounds cfg * lenClients b"

definition room :: "config \<Rightarrow> nat \<Rightarrow> ('c, 'w) bstate \<Rightarrow> bool" where
  "room cfg n s \<longleftrightarrow>
     (let b = fst s in bal_ok b \<and> 0 \<le> count b \<and> 0 \<le> cfg_max_rounds cfg \<and> cfg_max_rounds cfg \<le> max_int \<and>
        count b + int n * attempts cfg b \<le> max_int)"

lemma room_less: "room cfg (Suc n) s \<Longrightarrow> room cfg n s"
proof -
  assume r: "room cfg (Suc n) s"
  then have "0 \<le> attempts cfg (fst s)" by (simp add: room_def Let_def attempts_def bal_ok_def)
  with r show ?thesis by (simp add: room_def Let_def algebra_simps)
qed

lemma handleRounds_room:
  assumes "room cfg (Suc n) s"
  shows "ready cfg (fst s) \<and> (\<exists>r s'. handleRounds E cfg input s = Some (r, s') \<and> room cfg n s' \<and>
    (final_result input r \<or> r = Fail ErrMaxRounds))"
proof -
  obtain b w where s: "s = (b, w)" by fastforce
  let ?a = "attempts cfg b"
  have pos: "0 \<le> ?a" using assms s by (simp add: room_def Let_def attempts_def bal_ok_def)
  have "int (Suc n) * ?a = ?a + int n * ?a" by (simp add: algebra_simps)
  moreover have "0 \<le> int n * ?a" using pos by simp
  moreover have r: "bal_ok b" "0 \<le> count b" "0 \<le> cfg_max_rounds cfg" "cfg_max_rounds cfg \<le> max_int"
    "count b + int (Suc n) * ?a \<le> max_int"
    using assms s unfolding room_def Let_def by simp_all
  ultimately have ready: "ready cfg b" by (simp add: ready_def attempts_def)
  from handleRounds_ok [OF ready, of E input w] obtain r b' w' where
    h: "handleRounds E cfg input (b, w) = Some (r, (b', w'))" "keeps b b'" "count b \<le> count b'"
      "count b' \<le> count b + ?a" "final_result input r \<or> r = Fail ErrMaxRounds"
    by (auto simp: attempts_def)
  have "bal_ok b'" "attempts cfg b' = ?a"
    using keeps_bal_ok [OF h(2) r(1)] h(2) by (simp_all add: attempts_def keeps_def)
  moreover have "count b' + int n * ?a \<le> max_int"
    using h(4) r(5) \<open>int (Suc n) * ?a = ?a + int n * ?a\<close> by linarith
  ultimately have "room cfg n (b', w')" using h(3) r by (simp add: room_def Let_def)
  with h s ready show ?thesis by auto
qed

lemma balancer_service_balancer:
  fixes E :: "('c, 't, 'w) eth_api"
  shows "balancer_service (as_balancer E cfg) (room cfg)"
proof
  fix n and s :: "('c, 'w) bstate" and lo hi :: int and tp
  assume "room cfg (Suc n) s"
  from handleRounds_room [OF this, of E "no_request\<lparr>in_logs := Some \<lparr>startBlock = lo, endBlock = hi, topic = tp\<rparr>\<rparr>"]
  show "\<exists>r s'. api_GetLogs (as_balancer E cfg) lo hi tp s = Some (r, s') \<and> room cfg n s' \<and> announced r"
    by (auto simp: as_balancer_def GetLogs_def final_result_def answers_def announced_def)
next
  fix n and s :: "('c, 'w) bstate" and tag
  assume "room cfg (Suc n) s"
  from handleRounds_room [OF this, of E "no_request\<lparr>in_blockTag := Some tag\<rparr>"]
  show "\<exists>r s'. api_GetBlockFromTag (as_balancer E cfg) tag s = Some (r, s') \<and> room cfg n s' \<and> announced r"
    by (auto simp: as_balancer_def GetBlockFromTag_def final_result_def answers_def announced_def no_request_def)
next
  fix n and s :: "('c, 'w) bstate" and bns hashes
  assume "room cfg (Suc n) s"
  from handleRounds_room [OF this, of E
      "no_request\<lparr>in_blockAndTxs := Some \<lparr>blockNumbers = bns, txHashes = hashes\<rparr>\<rparr>"]
  show "\<exists>r s'. api_GetBlocksAndTxs (as_balancer E cfg) bns hashes s = Some (r, s') \<and> room cfg n s' \<and> announced r"
    by (auto simp: as_balancer_def GetBlocksAndTxs_def final_result_def answers_def announced_def no_request_def)
next
  fix bns hashes s blocks txs s'
  let ?in = "no_request\<lparr>in_blockAndTxs := Some \<lparr>blockNumbers = bns, txHashes = hashes\<rparr>\<rparr>"
  assume "api_GetBlocksAndTxs (as_balancer E cfg) bns hashes s = Some (Return (blocks, txs), s')"
  then obtain out where "handleRounds E cfg ?in s = Some (Return out, s')" and
    out: "obind (deref (res_blockAndTxs out)) (\<lambda>out. Return (out_blocks out, out_txs out)) = Return (blocks, txs)"
    by (auto simp: as_balancer_def GetBlocksAndTxs_def obind_eq_Return)
  then obtain c w w' where "doGenericReq E ?in c w = (Return out, w')"
    unfolding handleRounds_def using rounds_loop_answer by blast
  with out show "length blocks = length bns \<and> length txs = length hashes"
    using doGenericReq_answers [of E ?in c w out w']
    by (auto simp: answers_def no_request_def)
qed (rule room_less)

interpretation service: balancer_service "as_balancer E cfg" "room cfg" for E :: "('c, 't, 'w) eth_api" and cfg
  by (rule balancer_service_balancer)

section \<open>Honest endpoints\<close>

text \<open>Every endpoint that answers shows the chain \<open>C\<close>: the logs of a range with the
  topic, and under each element of a batch without an error the header or transaction that it asks for.\<close>

locale honest_endpoints =
  fixes E :: "('c, 't, 'w) eth_api" and C :: "'t chain" and tp :: string
  assumes filter_logs: "FilterLogs E c lo hi [[HexToHash E tp]] w = (Inr logs, w') \<Longrightarrow>
      mset logs = mset (logs_between C lo hi)"
    and batch_header: "BatchCall E c els w = (Inr results, w') \<Longrightarrow> i < length els \<Longrightarrow>
      elem_error (results i) = None \<Longrightarrow> els ! i = block_elem E bn \<Longrightarrow>
      elem_header (results i) = Some (chain_header C bn)"
    and batch_tx: "BatchCall E c els w = (Inr results, w') \<Longrightarrow> i < length els \<Longrightarrow>
      elem_error (results i) = None \<Longrightarrow> els ! i = tx_elem h \<Longrightarrow>
      elem_tx (results i) = Some (chain_tx C h)"
begin

lemma batch_answer:
  assumes "getBlocksAndTxs E \<lparr>blockNumbers = bns, txHashes = hashes\<rparr> c w = (Return out, w')"
  shows "\<exists>r. res_blockAndTxs out = Some r \<and> out_blocks r = map (Some \<circ> chain_header C) bns \<and>
    out_txs r = map (Some \<circ> chain_tx C) hashes"
proof -
  let ?els = "map (block_elem E) bns @ map tx_elem hashes"
  from getBlocksAndTxs_Return [OF assms] obtain results where b: "BatchCall E c ?els w = (Inr results, w')"
    and ok: "\<forall>i < length bns + length hashes. elem_error (results i) = None"
    and out: "res_blockAndTxs out = Some
      \<lparr>out_blocks = map (\<lambda>i. elem_header (results i)) [0..<length bns],
       out_txs = map (\<lambda>i. elem_tx (results (length bns + i))) [0..<length hashes]\<rparr>"
    unfolding blocksAndTxsReqInput.select_convs by blast
  have "elem_header (results i) = Some (chain_header C (bns ! i))" if "i < length bns" for i
    using batch_header [OF b, of i "bns ! i"] ok that by (simp add: nth_append)
  moreover have "elem_tx (results (length bns + i)) = Some (chain_tx C (hashes ! i))" if "i < length hashes" for i
    using batch_tx [OF b, of "length bns + i" "hashes ! i"] ok that
    by (simp add: nth_append)
  ultimately have "map (\<lambda>i. elem_header (results i)) [0..<length bns] = map (Some \<circ> chain_header C) bns"
    "map (\<lambda>i. elem_tx (results (length bns + i))) [0..<length hashes] = map (Some \<circ> chain_tx C) hashes"
    by (auto intro!: nth_equalityI)
  with out show ?thesis by simp
qed

end

lemma honest_balancer_balancer:
  assumes "honest_endpoints E C tp"
  shows "honest_balancer (as_balancer E cfg) C tp"
proof
  fix lo hi s logs s'
  let ?in = "no_request\<lparr>in_logs := Some \<lparr>startBlock = lo, endBlock = hi, topic = tp\<rparr>\<rparr>"
  assume "api_GetLogs (as_balancer E cfg) lo hi tp s = Some (Return logs, s')"
  then obtain out where "handleRounds E cfg ?in s = Some (Return out, s')" "deref (res_logs out) = Return logs"
    by (auto simp: as_balancer_def GetLogs_def obind_eq_Return)
  moreover from this(1) obtain c w w' where "doGenericReq E ?in c w = (Return out, w')"
    unfolding handleRounds_def using rounds_loop_answer by blast
  ultimately show "mset logs = mset (logs_between C lo hi)"
    using honest_endpoints.filter_logs [OF assms]
    by (fastforce simp: doGenericReq_def getLogs_def split: sum.splits prod.splits)
next
  fix bns hashes s blocks txs s'
  let ?in = "no_request\<lparr>in_blockAndTxs := Some \<lparr>blockNumbers = bns, txHashes = hashes\<rparr>\<rparr>"
  assume "api_GetBlocksAndTxs (as_balancer E cfg) bns hashes s = Some (Return (blocks, txs), s')"
  then obtain out where "handleRounds E cfg ?in s = Some (Return out, s')" and
    out: "obind (deref (res_blockAndTxs out)) (\<lambda>out. Return (out_blocks out, out_txs out)) = Return (blocks, txs)"
    by (auto simp: as_balancer_def GetBlocksAndTxs_def obind_eq_Return)
  then obtain c w w' where "doGenericReq E ?in c w = (Return out, w')"
    unfolding handleRounds_def using rounds_loop_answer by blast
  then have "getBlocksAndTxs E \<lparr>blockNumbers = bns, txHashes = hashes\<rparr> c w = (Return out, w')"
    by (simp add: doGenericReq_def no_request_def)
  from honest_endpoints.batch_answer [OF assms this] out
  show "blocks = map (Some \<circ> chain_header C) bns \<and> txs = map (Some \<circ> chain_tx C) hashes"
    by auto
qed

sublocale honest_endpoints \<subseteq> reply: honest_balancer "as_balancer E cfg" C tp for cfg
  by (rule honest_balancer_balancer) (rule honest_endpoints_axioms)

lemma GetBlockFromTag_answer:
  assumes "GetBlockFromTag E cfg tag s = Some (Return n, s')"
  shows "\<exists>c w w' k. BlockByNumber E c (tag_number E tag) w = (Inr k, w') \<and> n = int_of_uint64 k"
proof -
  from assms obtain out where "handleRounds E cfg (no_request\<lparr>in_blockTag := Some tag\<rparr>) s = Some (Return out, s')"
    and n: "deref (res_blockTag out) = Return n"
    by (auto simp: GetBlockFromTag_def obind_eq_Return)
  then obtain c w w' where "doGenericReq E (no_request\<lparr>in_blockTag := Some tag\<rparr>) c w = (Return out, w')"
    unfolding handleRounds_def using rounds_loop_answer by blast
  with n show ?thesis
    by (fastforce simp: doGenericReq_def no_request_def getBlockFromTag_def split: sum.splits prod.splits)
qed

section \<open>A healthy endpoint among reasonable ones\<close>

definition asks :: "genericInput \<Rightarrow> bool" where
  "asks input \<longleftrightarrow> in_logs input \<noteq> None \<or> in_blockAndTxs input \<noteq> None \<or> in_blockTag input \<noteq> None"

text \<open>No endpoint finds a request for one block too big.\<close>

definition reasonable_limits :: "('c, 't, 'w) eth_api \<Rightarrow> bool" where
  "reasonable_limits E \<longleftrightarrow>
     (\<forall>c lo hi tps w err w'. FilterLogs E c lo hi tps w = (Inl err, w') \<and> handleRPCError err = ErrReqTooBig \<longrightarrow> lo < hi) \<and>
     (\<forall>c bns hashes w err w'. getBlocksAndTxs E \<lparr>blockNumbers = bns, txHashes = hashes\<rparr> c w = (Fail err, w') \<and>
        handleRPCError err = ErrReqTooBig \<longrightarrow> 1 < length bns)"

text \<open>Some client is not blocked and answers every request in time.\<close>

definition served_by_one :: "('c, 't, 'w) eth_api \<Rightarrow> config \<Rightarrow> nat \<Rightarrow> ('c, 'w) bstate \<Rightarrow> bool" where
  "served_by_one E cfg n s \<longleftrightarrow>
     room cfg n s \<and> 0 < cfg_max_rounds cfg \<and>
     (\<exists>c \<in> set (clients (fst s)). \<forall>input. asks input \<longrightarrow> healthy E cfg input c)"

lemma handleRounds_served:
  assumes "served_by_one E cfg (Suc n) s" "asks input"
  shows "\<exists>r s'. handleRounds E cfg input s = Some (r, s') \<and> served_by_one E cfg n s' \<and> final_result input r"
proof -
  obtain b w where s: "s = (b, w)" by fastforce
  from assms s obtain c where c: "c \<in> set (clients b)" "\<And>input. asks input \<Longrightarrow> healthy E cfg input c"
    by (auto simp: served_by_one_def)
  from assms s have "room cfg (Suc n) (b, w)" and rounds: "0 < cfg_max_rounds cfg"
    by (simp_all add: served_by_one_def)
  from handleRounds_room [OF this(1), of E input]
  obtain r s' where "ready cfg b" and h: "handleRounds E cfg input (b, w) = Some (r, s')" "room cfg n s'"
    by auto
  from handleRounds_healthy [OF this(1) rounds c(1) c(2) [OF assms(2)], of w] h(1)
  have "final_result input r" "c \<in> set (clients (fst s'))" by auto
  with h c(2) rounds s show ?thesis by (auto simp: served_by_one_def)
qed

lemma too_big_request:
  assumes "handleRounds E cfg input s = Some (Fail ErrReqTooBig, s')"
  shows "\<exists>c w w' err. doGenericReq E input c w = (Fail err, w') \<and> handleRPCError err = ErrReqTooBig"
  using assms rounds_loop_too_big unfolding handleRounds_def by blast

lemma answering_balancer_balancer:
  fixes E :: "('c, 't, 'w) eth_api"
  assumes "reasonable_limits E"
  shows "answering_balancer (as_balancer E cfg) (served_by_one E cfg)"
proof (intro answering_balancer.intro answering_balancer_axioms.intro balancer_service.intro)
  fix n and s :: "('c, 'w) bstate"
  assume "served_by_one E cfg (Suc n) s"
  then show "served_by_one E cfg n s" using room_less [of cfg n s] by (auto simp: served_by_one_def)
next
  fix n and s :: "('c, 'w) bstate" and lo hi :: int and tp
  let ?in = "no_request\<lparr>in_logs := Some \<lparr>startBlock = lo, endBlock = hi, topic = tp\<rparr>\<rparr>"
  assume "served_by_one E cfg (Suc n) s"
  from handleRounds_served [OF this, of ?in]
  show "\<exists>r s'. api_GetLogs (as_balancer E cfg) lo hi tp s = Some (r, s') \<and> served_by_one E cfg n s' \<and> announced r"
    by (auto simp: asks_def as_balancer_def GetLogs_def final_result_def answers_def announced_def)
next
  fix n and s :: "('c, 'w) bstate" and tag
  assume "served_by_one E cfg (Suc n) s"
  from handleRounds_served [OF this, of "no_request\<lparr>in_blockTag := Some tag\<rparr>"]
  show "\<exists>r s'. api_GetBlockFromTag (as_balancer E cfg) tag s = Some (r, s') \<and> served_by_one E cfg n s' \<and> announced r"
    by (auto simp: asks_def as_balancer_def GetBlockFromTag_def final_result_def answers_def announced_def no_request_def)
next
  fix n and s :: "('c, 'w) bstate" and bns hashes
  assume "served_by_one E cfg (Suc n) s"
  from handleRounds_served [OF this, of "no_request\<lparr>in_blockAndTxs := Some \<lparr>blockNumbers = bns, txHashes = hashes\<rparr>\<rparr>"]
  show "\<exists>r s'. api_GetBlocksAndTxs (as_balancer E cfg) bns hashes s = Some (r, s') \<and> served_by_one E cfg n s' \<and> announced r"
    by (auto simp: asks_def as_balancer_def GetBlocksAndTxs_def final_result_def answers_def announced_def no_request_def)
next
  fix bns hashes blocks txs and s s' :: "('c, 'w) bstate"
  assume "api_GetBlocksAndTxs (as_balancer E cfg) bns hashes s = Some (Return (blocks, txs), s')"
  then show "length blocks = length bns \<and> length txs = length hashes" by (rule service.batch_aligned)
next
  fix n and s :: "('c, 'w) bstate" and lo hi :: int and tp r s'
  let ?in = "no_request\<lparr>in_logs := Some \<lparr>startBlock = lo, endBlock = hi, topic = tp\<rparr>\<rparr>"
  assume "served_by_one E cfg (Suc n) s" "api_GetLogs (as_balancer E cfg) lo hi tp s = Some (r, s')"
  moreover from handleRounds_served [OF this(1), of ?in] obtain r0 s0 where
    h: "handleRounds E cfg ?in s = Some (r0, s0)" "final_result ?in r0"
    by (auto simp: asks_def)
  moreover have "lo < hi" if "r0 = Fail ErrReqTooBig"
  proof -
    from h(1) that obtain c w w' err where "doGenericReq E ?in c w = (Fail err, w')" "handleRPCError err = ErrReqTooBig"
      using too_big_request by blast
    then have "FilterLogs E c lo hi [[HexToHash E tp]] w = (Inl err, w')"
      by (simp add: doGenericReq_def getLogs_def split: sum.splits prod.splits)
    with \<open>handleRPCError err = ErrReqTooBig\<close> show ?thesis
      using assms unfolding reasonable_limits_def by blast
  qed
  ultimately show "(\<exists>logs. r = Return logs) \<or> (r = Fail ErrReqTooBig \<and> lo < hi)"
    by (auto simp: as_balancer_def GetLogs_def final_result_def answers_def)
next
  fix n and s :: "('c, 'w) bstate" and bns hashes r s'
  let ?in = "no_request\<lparr>in_blockAndTxs := Some \<lparr>blockNumbers = bns, txHashes = hashes\<rparr>\<rparr>"
  assume "served_by_one E cfg (Suc n) s" "api_GetBlocksAndTxs (as_balancer E cfg) bns hashes s = Some (r, s')"
  moreover from handleRounds_served [OF this(1), of ?in] obtain r0 s0 where
    h: "handleRounds E cfg ?in s = Some (r0, s0)" "final_result ?in r0"
    by (auto simp: asks_def)
  moreover have "1 < length bns" if "r0 = Fail ErrReqTooBig"
  proof -
    from h(1) that obtain c w w' err where "doGenericReq E ?in c w = (Fail err, w')" "handleRPCError err = ErrReqTooBig"
      using too_big_request by blast
    then have "getBlocksAndTxs E \<lparr>blockNumbers = bns, txHashes = hashes\<rparr> c w = (Fail err, w')"
      by (simp add: doGenericReq_def no_request_def)
    with \<open>handleRPCError err = ErrReqTooBig\<close> show ?thesis
      using assms unfolding reasonable_limits_def by blast
  qed
  ultimately show "(\<exists>answer. r = Return answer) \<or> (r = Fail ErrReqTooBig \<and> 1 < length bns)"
    by (auto simp: as_balancer_def GetBlocksAndTxs_def final_result_def answers_def no_request_def)
qed

section \<open>Endpoints that serve a chain\<close>

text \<open>An endpoint that serves any chain and never fails: block numbers are written in
  decimal, and a batch element is answered by reading its argument back.\<close>

definition served_header :: "'t chain \<Rightarrow> batch_elem \<Rightarrow> header option" where
  "served_header C e =
     (case Args e of
        ArgString n # _ \<Rightarrow> Some (chain_header C (uint64_of_int (fst (Atoi n))))
      | _ \<Rightarrow> None)"

definition served_tx :: "'t chain \<Rightarrow> batch_elem \<Rightarrow> 't option" where
  "served_tx C e = (case Args e of ArgHash h # _ \<Rightarrow> Some (chain_tx C h) | _ \<Rightarrow> None)"

definition chain_eth :: "'t chain \<Rightarrow> uint64 \<Rightarrow> (string, 't, int) eth_api" where
  "chain_eth C head =
     \<lparr>Dial = (\<lambda>endpoint w. (Inr endpoint, w)),
      FilterLogs = (\<lambda>c lo hi tps w. (Inr (logs_between C lo hi), w)),
      BatchCall = (\<lambda>c els w. (Inr (\<lambda>i. \<lparr>elem_error = None,
        elem_header = (if i < length els then served_header C (els ! i) else None),
        elem_tx = (if i < length els then served_tx C (els ! i) else None)\<rparr>), w)),
      BlockByNumber = (\<lambda>c n w. (Inr head, w)),
      HexToHash = (\<lambda>x. x), EncodeBig = Itoa, BlockNumberString = Itoa,
      LatestBlockNumber = - 2, SafeBlockNumber = - 4, FinalizedBlockNumber = - 3,
      Now = (\<lambda>w. (\<bar>w\<bar>, w)), Sleep = (\<lambda>d w. w + d), TimerFirst = (\<lambda>d c w. False)\<rparr>"

interpretation served: honest_endpoints "chain_eth C head" C tp for C :: "'t chain" and head tp
proof
  fix c els w results w' i bn
  assume "BatchCall (chain_eth C head) c els w = (Inr results, w')" "i < length els"
    "els ! i = block_elem (chain_eth C head) bn"
  moreover have "served_header C (block_elem (chain_eth C head) bn) = Some (chain_header C bn)"
    using int_of_uint64_range [of bn]
    by (simp add: served_header_def block_elem_def toBlockNumArg_def chain_eth_def Atoi_def ParseInt_Itoa
        uint64_of_int_of_uint64)
  ultimately show "elem_header (results i) = Some (chain_header C bn)"
    by (auto simp: chain_eth_def)
next
  fix c els w results w' i h
  assume "BatchCall (chain_eth C head) c els w = (Inr results, w')" "i < length els" "els ! i = tx_elem h"
  then show "elem_tx (results i) = Some (chain_tx C h)"
    by (auto simp: chain_eth_def served_tx_def tx_elem_def)
qed (auto simp: chain_eth_def)

lemma served_batch: "\<exists>out. getBlocksAndTxs (chain_eth C head) input c w = (Return out, w)"
proof -
  have "\<exists>f. \<forall>els. BatchCall (chain_eth C head) c els w = (Inr (f els), w) \<and> (\<forall>i. elem_error (f els i) = None)"
    by (rule exI [of _ "\<lambda>els i. \<lparr>elem_error = None,
        elem_header = (if i < length els then served_header C (els ! i) else None),
        elem_tx = (if i < length els then served_tx C (els ! i) else None)\<rparr>"]) (simp add: chain_eth_def)
  then obtain f where f: "\<And>els. BatchCall (chain_eth C head) c els w = (Inr (f els), w)"
    "\<And>els i. elem_error (f els i) = None" by blast
  have "first_error (map (f els) xs) = None" for els xs using f(2) by (simp add: first_error_None)
  with f(1) show ?thesis by (simp add: getBlocksAndTxs_def Let_def)
qed

lemma served_reasonable: "reasonable_limits (chain_eth C head)"
proof -
  have "getBlocksAndTxs (chain_eth C head) input c w \<noteq> (Fail err, w')" for input c w err w'
    using served_batch [of C head input c w] by auto
  then show ?thesis by (simp add: reasonable_limits_def) (simp add: chain_eth_def)
qed

lemma served_healthy:
  assumes "blockedUntil c = - 1" "asks input"
  shows "healthy (chain_eth C head) cfg input c"
proof -
  have "\<exists>out. doGenericReq (chain_eth C head) input cl w = (Return out, w)" for cl w
    using assms(2) served_batch
    by (auto simp: doGenericReq_def asks_def getLogs_def getBlockFromTag_def split: option.split)
      (simp_all add: chain_eth_def)
  moreover have "- 1 \<le> fst (Now (chain_eth C head) w)" "\<not> TimerFirst (chain_eth C head) t cl w" for w t cl
    by (simp_all add: chain_eth_def)
  ultimately show ?thesis using assms(1) unfolding healthy_def by fastforce
qed

lemma served_ref_balancer:
  assumes "int n * 6 \<le> max_int"
  shows "served_by_one (chain_eth C head) ref_config n (ref_balancer t (- 1), w)"
proof -
  have "room ref_config n (ref_balancer t (- 1), w)"
    using assms
    by (simp add: room_def attempts_def ref_balancer_def ref_config_def bal_ok_def int_of_uint64_def max_int_def)
  moreover have "ref_client ''good'' (- 1) \<in> set (clients (ref_balancer t (- 1)))"
    by (simp add: ref_balancer_def)
  moreover have "blockedUntil (ref_client ''good'' (- 1)) = - 1" by (simp add: ref_client_def)
  moreover have "healthy (chain_eth C head) ref_config input (ref_client ''good'' (- 1))" if "asks input" for input
    by (rule served_healthy [OF calculation(3) that])
  moreover have "0 < cfg_max_rounds ref_config" by (simp add: ref_config_def)
  ultimately show ?thesis unfolding served_by_one_def fst_conv by blast
qed

interpretation served_answering: answering_balancer "as_balancer (chain_eth C head) cfg" "served_by_one (chain_eth C head) cfg"
  for C :: "'t chain" and head cfg
  by (rule answering_balancer_balancer) (rule served_reasonable)

section \<open>Property\<close>

text \<open>C8: if every endpoint that answers shows the same chain, then whichever client ends up
  answering, after whatever retries and blocks, the logs the balancer returns are those of
  the range, and the headers and transactions are those asked for, in the order asked.\<close>

theorem balancer_shows_chain:
  assumes "honest_endpoints E C tp"
  shows "(GetLogs E cfg lo hi tp s = Some (Return logs, s') \<longrightarrow> mset logs = mset (logs_between C lo hi)) \<and>
    (GetBlocksAndTxs E cfg bns hashes s = Some (Return (blocks, txs), s') \<longrightarrow>
      blocks = map (Some \<circ> chain_header C) bns \<and> txs = map (Some \<circ> chain_tx C) hashes)"
  using honest_balancer.logs_honest [OF honest_balancer_balancer [OF assms, of cfg], of lo hi s logs s']
    honest_balancer.batch_honest [OF honest_balancer_balancer [OF assms, of cfg], of bns hashes s blocks txs s']
  by (simp add: as_balancer_def)

text \<open>A chain with one log, in block 3, for the witnesses; a transaction is its hash.\<close>

definition ref_log :: log where
  "ref_log = \<lparr>BlockNumber = 3, TxHash = ''tx'', Index = 2, LogData = ''data''\<rparr>"

definition ref_served :: "string chain" where
  "ref_served =
     \<lparr>chain_logs = (\<lambda>i. if i = 3 then [ref_log] else []),
      chain_header = (\<lambda>bn. \<lparr>Number = int_of_uint64 bn, Time = 7, ParentHash = replicate 32 (CHR ''h'')\<rparr>),
      chain_tx = (\<lambda>h. h)\<rparr>"

lemma ref_served_logs:
  "GetLogs (chain_eth ref_served 9) ref_config 2 5 tp (ref_balancer 1 1, 5) =
    Some (Return [ref_log], ((ref_balancer 1 1)\<lparr>counter := 1\<rparr>, 5))"
proof -
  have "client_index (ref_balancer 1 1) = 0" "client_at (ref_balancer 1 1) 0 = Return (ref_client ''limited'' 1)"
    by (simp_all add: client_index_def client_at_def ref_balancer_def int_of_uint64_def go_rem_def)
  moreover have "logs_between ref_served 2 5 = [ref_log]"
    by (simp add: logs_between_def upto.simps ref_served_def)
  moreover have "doGenericReq (chain_eth ref_served 9)
      (no_request\<lparr>in_logs := Some \<lparr>startBlock = 2, endBlock = 5, topic = tp\<rparr>\<rparr>) c 5 =
    (Return \<lparr>res_logs = Some [ref_log], res_blockAndTxs = None, res_blockTag = None\<rparr>, 5)" for c
    using calculation(3) by (simp add: doGenericReq_def getLogs_def chain_eth_def)
  moreover have "\<not> TimerFirst (chain_eth ref_served 9) t c w" "Now (chain_eth ref_served 9) w = (\<bar>w\<bar>, w)" for t c w
    by (simp_all add: chain_eth_def)
  moreover have "nat (lenClients (ref_balancer 1 1)) = Suc 1" "cfg_max_rounds ref_config = 3"
    "counter (ref_balancer 1 1) = 0"
    by (simp_all add: ref_balancer_def ref_config_def)
  ultimately show ?thesis
    by (simp add: GetLogs_def handleRounds_def rounds_loop.simps [of _ _ _ 0] handleRetries_def retry_loop.simps(2)
        retry_step_def Let_def doRetry_def call_bind_def getEthClient_def isBlocked_def timed_request_def
        after_retry_def call_return_def bump_counter_def ref_client_def)
qed

theorem balancer_shows_chain_witness:
  "\<exists>logs s'. GetLogs (chain_eth ref_served 9) ref_config 2 5 ''t'' (ref_balancer 1 1, 5) = Some (Return logs, s') \<and>
    mset logs = mset (logs_between ref_served 2 5)"
  using balancer_shows_chain [OF served.honest_endpoints_axioms, of ref_served 9 ref_config 2 5 "''t''"
      "(ref_balancer 1 1, 5)"] ref_served_logs [of "''t''"]
  by blast

end
