(* ===== verification/Fetcher.thy ===== *)
theory Fetcher
  imports Balancer_Service Chain_Types
begin

text \<open>
  The fetcher (\<^verbatim>\<open>fetcher/fetcher.go\<close>): it asks the balancer for the logs of a range of
  blocks, then for the headers and transactions of these logs, and groups by block the
  records of the logs whose transaction was sent to or from the configured address. The
  balancer is the interface of \<open>Interfaces\<close>. What go-ethereum computes from a
  transaction and from the data of a log is the record \<open>geth\<close>.

  A pointer is an option; reading through a nil pointer is a panic, as is an index out of
  range. A map read at a missing key gives the zero value, as in Go.
\<close>

section \<open>What go-ethereum computes\<close>

text \<open>A value that the ABI decoder returns: a \<^verbatim>\<open>[32]byte\<close> or a value of another type.\<close>

datatype abi_value = Bytes32 bytes | OtherValue

record 't geth =
  Hash :: "'t \<Rightarrow> bytes"
  To :: "'t \<Rightarrow> bytes option"
  Hex :: "bytes \<Rightarrow> string"
  Sender :: "int \<Rightarrow> uint64 \<Rightarrow> 't \<Rightarrow> go_error + bytes"
  Unpack :: "bytes \<Rightarrow> go_error + abi_value list"

section \<open>Assembling the records\<close>

definition zero_log :: log where
  "zero_log = \<lparr>BlockNumber = 0, TxHash = replicate 32 (CHR 0x00), Index = 0, LogData = []\<rparr>"

text \<open>The numbers of the blocks of the logs, each once, in the order of the logs; the map
  holds the ones that were seen.\<close>

fun collect_bns :: "log list \<Rightarrow> (uint64 \<rightharpoonup> bool) \<Rightarrow> uint64 list \<Rightarrow> uint64 list" where
  "collect_bns [] bnsMap bns = bns"
| "collect_bns (log # logs) bnsMap bns =
     (if bnsMap (BlockNumber log) = Some True then collect_bns logs bnsMap bns
      else collect_bns logs (bnsMap(BlockNumber log \<mapsto> True)) (bns @ [BlockNumber log]))"

definition txHashToLog :: "log list \<Rightarrow> (bytes \<rightharpoonup> log)" where
  "txHashToLog logs = foldl (\<lambda>m log. m(TxHash log \<mapsto> log)) Map.empty logs"

text \<open>The place of each header in the answer, by its block number.\<close>

fun blockToSlice :: "header option list \<Rightarrow> int \<Rightarrow> (int \<rightharpoonup> int) \<Rightarrow> (int \<rightharpoonup> int) outcome" where
  "blockToSlice [] i m = Return m"
| "blockToSlice (p # ps) i m =
     obind (deref p) (\<lambda>block. blockToSlice ps (i + 1) (m(go_int (Number block) \<mapsto> i)))"

definition block_at :: "header option list \<Rightarrow> (int \<rightharpoonup> int) \<Rightarrow> uint64 \<Rightarrow> header outcome" where
  "block_at blocks slices bn =
     (let i = (case slices (int_of_uint64 bn) of None \<Rightarrow> 0 | Some i \<Rightarrow> i) in
      if 0 \<le> i \<and> i < int (length blocks) then deref (blocks ! nat i)
      else Panic ''index out of range'')"

definition info_root :: "abi_value list \<Rightarrow> bytes outcome" where
  "info_root eventData =
     (case eventData of
        [] \<Rightarrow> Panic ''index out of range''
      | v # _ \<Rightarrow>
          (case v of
             Bytes32 l1InfoRoot \<Rightarrow> Return l1InfoRoot
           | OtherValue \<Rightarrow> Fail (NewError ''wrong l1 info root type'')))"

definition involves :: "'t geth \<Rightarrow> string \<Rightarrow> 't \<Rightarrow> bytes \<Rightarrow> bool outcome" where
  "involves G address tx sender =
     obind (deref (To G tx)) (\<lambda>to.
       Return (ToLower (Hex G to) = address \<or> ToLower (Hex G sender) = address))"

text \<open>\<^verbatim>\<open>bnToLogIndexes\<close> and \<^verbatim>\<open>bnToIndexToData\<close>.\<close>

type_synonym events = "(int \<rightharpoonup> int list) \<times> (int \<rightharpoonup> (int \<rightharpoonup> indexed_data))"

definition add_event :: "int \<Rightarrow> int \<Rightarrow> indexed_data \<Rightarrow> events \<Rightarrow> events" where
  "add_event bn lIndex d ev =
     (case ev of (bnToLogIndexes, bnToIndexToData) \<Rightarrow>
        (let inner = (case bnToIndexToData bn of None \<Rightarrow> Map.empty | Some m \<Rightarrow> m);
             indexes = (case bnToLogIndexes bn of None \<Rightarrow> [] | Some xs \<Rightarrow> xs) in
         (if inner lIndex = None then bnToLogIndexes(bn \<mapsto> indexes @ [lIndex]) else bnToLogIndexes,
          bnToIndexToData(bn \<mapsto> inner(lIndex \<mapsto> d)))))"

text \<open>The body of the loop over the transactions.\<close>

definition handle_tx :: "'t geth \<Rightarrow> string \<Rightarrow> (bytes \<rightharpoonup> log) \<Rightarrow> header option list \<Rightarrow> (int \<rightharpoonup> int) \<Rightarrow>
    events \<Rightarrow> 't option \<Rightarrow> events outcome" where
  "handle_tx G address logOf blocks slices ev p =
     obind (deref p) (\<lambda>tx.
       (let log = (case logOf (Hash G tx) of None \<Rightarrow> zero_log | Some log \<Rightarrow> log) in
        obind (block_at blocks slices (BlockNumber log)) (\<lambda>block.
        obind (of_sum (Sender G (Number block) (Time block) tx)) (\<lambda>sender.
        obind (of_sum (Unpack G (LogData log))) (\<lambda>eventData.
        obind (info_root eventData) (\<lambda>l1InfoRoot.
        obind (involves G address tx sender) (\<lambda>ok.
          Return
            (if ok then
               add_event (int_of_uint64 (BlockNumber log)) (int_of_uint64 (Index log))
                 \<lparr>l1_info_root = l1InfoRoot, block_time = Time block, block_parent_hash = ParentHash block\<rparr> ev
             else ev))))))))"

text \<open>The records of one block in the order of the log indexes. Every index that was noted
  has its record (\<open>add_event_indexed\<close>), so no entry is missing.\<close>

definition block_data :: "events \<Rightarrow> int \<Rightarrow> indexed_data list" where
  "block_data ev bn =
     (case fst ev bn of
        None \<Rightarrow> []
      | Some indexes \<Rightarrow>
          map (\<lambda>lIndex. the (case snd ev bn of None \<Rightarrow> None | Some m \<Rightarrow> m lIndex)) (sort indexes))"

definition dataToSave :: "events \<Rightarrow> uint64 list \<Rightarrow> (int \<rightharpoonup> indexed_data list)" where
  "dataToSave ev bns =
     foldl (\<lambda>m bn. if block_data ev (int_of_uint64 bn) = [] then m
                   else m(int_of_uint64 bn \<mapsto> block_data ev (int_of_uint64 bn))) Map.empty bns"

definition assemble :: "'t geth \<Rightarrow> string \<Rightarrow> log list \<Rightarrow> header option list \<times> 't option list \<Rightarrow>
    (int \<rightharpoonup> indexed_data list) outcome" where
  "assemble G address logs answer =
     (case answer of (blocks, txs) \<Rightarrow>
        obind (blockToSlice blocks 0 Map.empty) (\<lambda>slices.
        obind (fold_outcome (handle_tx G address (txHashToLog logs) blocks slices) (Map.empty, Map.empty) txs) (\<lambda>ev.
          Return (dataToSave ev (collect_bns logs Map.empty [])))))"

section \<open>Fetching\<close>

definition fetchData :: "('s, 't) balancer_api \<Rightarrow> 't geth \<Rightarrow> config \<Rightarrow> int \<Rightarrow> int \<Rightarrow> 's \<Rightarrow>
    ((int \<rightharpoonup> indexed_data list) outcome \<times> 's) option" where
  "fetchData A G cfg start stop s =
     (case api_GetLogs A start stop (cfg_topic cfg) s of
        None \<Rightarrow> None
      | Some (Fail err, s') \<Rightarrow> Some (Fail err, s')
      | Some (Panic m, s') \<Rightarrow> Some (Panic m, s')
      | Some (Return logs, s') \<Rightarrow>
          if logs = [] then Some (Return Map.empty, s')
          else
            (case api_GetBlocksAndTxs A (collect_bns logs Map.empty []) (map TxHash logs) s' of
               None \<Rightarrow> None
             | Some (answer, s'') \<Rightarrow> Some (obind answer (assemble G (cfg_address cfg) logs), s'')))"

text \<open>How a call of \<^verbatim>\<open>fetchWithRetry\<close> ends: it hands an item to the synchronizer, or starts
  two goroutines for the halves of the range, or panics.\<close>

datatype fetch_end =
    Deliver sync_struct
  | Spawn "(int \<times> int) list"
  | Abort string

definition midBlock :: "int \<Rightarrow> int \<Rightarrow> int" where
  "midBlock start stop = go_div (go_int (start + stop)) 2"

definition after_fetch :: "int \<Rightarrow> int \<Rightarrow> (int \<rightharpoonup> indexed_data list) outcome \<Rightarrow> fetch_end" where
  "after_fetch start stop r =
     (case r of
        Return result \<Rightarrow> Deliver \<lparr>item_start = start, item_end = stop, item_data = result\<rparr>
      | Fail err \<Rightarrow>
          if err = ErrReqTooBig then
            Spawn [(start, midBlock start stop), (go_int (midBlock start stop + 1), stop)]
          else Abort ''DATA WILL BE LOST IF NO PANIC IS RETURNED''
      | Panic m \<Rightarrow> Abort m)"

definition fetchWithRetry :: "('s, 't) balancer_api \<Rightarrow> 't geth \<Rightarrow> config \<Rightarrow> int \<Rightarrow> int \<Rightarrow> 's \<Rightarrow>
    (fetch_end \<times> 's) option" where
  "fetchWithRetry A G cfg start stop s =
     map_option (\<lambda>(r, s'). (after_fetch start stop r, s')) (fetchData A G cfg start stop s)"

section \<open>The blocks of the logs\<close>

lemma collect_bns_ok:
  assumes "\<And>bn. bnsMap bn = Some True \<longleftrightarrow> bn \<in> set bns" and "distinct bns"
  shows "distinct (collect_bns logs bnsMap bns) \<and>
    set (collect_bns logs bnsMap bns) = set bns \<union> BlockNumber ` set logs"
  using assms
proof (induction logs bnsMap bns rule: collect_bns.induct)
  case (2 log logs bnsMap bns)
  show ?case
  proof (cases "bnsMap (BlockNumber log) = Some True")
    case True
    then have "BlockNumber log \<in> set bns" using 2(3) by blast
    with 2(1) [OF True 2(3,4)] True show ?thesis by (simp add: insert_absorb)
  next
    case False
    then have new: "BlockNumber log \<notin> set bns" using 2(3) by blast
    have "(bnsMap(BlockNumber log \<mapsto> True)) bn = Some True \<longleftrightarrow> bn \<in> set (bns @ [BlockNumber log])" for bn
      using 2(3) [of bn] by simp
    from 2(2) [OF False this] 2(4) new False show ?thesis by (simp add: insert_commute del: fun_upd_apply)
  qed
qed simp

lemma int_of_uint64_inj: "int_of_uint64 v = int_of_uint64 w \<longleftrightarrow> v = w"
  by (metis uint64_of_int_of_uint64)

lemma txHashToLog_last: "txHashToLog (logs @ [l]) = (txHashToLog logs)(TxHash l \<mapsto> l)"
  by (simp add: txHashToLog_def)

lemma txHashToLog_lookup:
  assumes "inj_on TxHash (set logs)" and "l \<in> set logs"
  shows "txHashToLog logs (TxHash l) = Some l"
  using assms
proof (induction logs rule: rev_induct)
  case (snoc k logs)
  then show ?case
    by (cases "TxHash l = TxHash k") (auto simp: txHashToLog_last inj_on_def)
qed simp

lemma blockToSlice_ok:
  assumes "distinct bns" and "\<And>bn. bn \<in> set bns \<Longrightarrow> Number (hdr bn) = int_of_uint64 bn"
  shows "\<exists>r. blockToSlice (map (Some \<circ> hdr) bns) i m = Return r \<and>
    (\<forall>k < length bns. r (int_of_uint64 (bns ! k)) = Some (i + int k)) \<and>
    (\<forall>n. n \<notin> int_of_uint64 ` set bns \<longrightarrow> r n = m n)"
  using assms
proof (induction bns arbitrary: i m)
  case (Cons bn bns)
  have num: "go_int (Number (hdr bn)) = int_of_uint64 bn"
    using Cons.prems(2) [of bn] int_of_uint64_range [of bn] by (simp add: go_int_id)
  have "distinct bns" "\<And>k. k \<in> set bns \<Longrightarrow> Number (hdr k) = int_of_uint64 k" using Cons.prems by simp_all
  from Cons.IH [OF this, of "i + 1" "m(int_of_uint64 bn \<mapsto> i)"]
  obtain r where r: "blockToSlice (map (Some \<circ> hdr) bns) (i + 1) (m(int_of_uint64 bn \<mapsto> i)) = Return r"
    "\<forall>k < length bns. r (int_of_uint64 (bns ! k)) = Some (i + 1 + int k)"
    "\<forall>n. n \<notin> int_of_uint64 ` set bns \<longrightarrow> r n = (m(int_of_uint64 bn \<mapsto> i)) n"
    by blast
  have "int_of_uint64 bn \<notin> int_of_uint64 ` set bns"
    using Cons.prems(1) by (auto simp: int_of_uint64_inj)
  with r(3) have "r (int_of_uint64 bn) = Some i" by simp
  then have "\<forall>k < length (bn # bns). r (int_of_uint64 ((bn # bns) ! k)) = Some (i + int k)"
    using r(2) by (auto simp: nth_Cons' algebra_simps of_nat_diff)
  with r(1,3) num show ?case by (auto simp: comp_def)
qed simp

lemma block_at_ok:
  assumes "distinct bns" "\<And>bn. bn \<in> set bns \<Longrightarrow> Number (hdr bn) = int_of_uint64 bn"
    and "blockToSlice (map (Some \<circ> hdr) bns) 0 Map.empty = Return slices" and "bn \<in> set bns"
  shows "block_at (map (Some \<circ> hdr) bns) slices bn = Return (hdr bn)"
proof -
  obtain k where "k < length bns" "bns ! k = bn" using assms(4) by (auto simp: in_set_conv_nth)
  then show ?thesis
    using blockToSlice_ok [OF assms(1,2), of 0 Map.empty] assms(3) by (fastforce simp: block_at_def)
qed

section \<open>The records of the logs\<close>

text \<open>The map of indexes and the map of records agree with the list of added logs.\<close>

abbreviation log_key :: "log \<Rightarrow> int \<times> int" where
  "log_key l \<equiv> (int_of_uint64 (BlockNumber l), int_of_uint64 (Index l))"

definition add_log :: "(log \<Rightarrow> indexed_data) \<Rightarrow> log \<Rightarrow> events \<Rightarrow> events" where
  "add_log rec l = add_event (int_of_uint64 (BlockNumber l)) (int_of_uint64 (Index l)) (rec l)"

definition log_indexes :: "events \<Rightarrow> int \<Rightarrow> int list" where
  "log_indexes ev bn = (case fst ev bn of None \<Rightarrow> [] | Some xs \<Rightarrow> xs)"

definition log_data :: "events \<Rightarrow> int \<Rightarrow> int \<Rightarrow> indexed_data option" where
  "log_data ev bn i = (case snd ev bn of None \<Rightarrow> None | Some m \<Rightarrow> m i)"

lemma add_event_log_indexes:
  "log_indexes (add_event bn i d ev) b =
     (if b = bn \<and> log_data ev bn i = None then log_indexes ev b @ [i] else log_indexes ev b)"
  by (auto simp: log_indexes_def log_data_def add_event_def Let_def split: prod.split option.splits)

lemma add_event_log_data:
  "log_data (add_event bn i d ev) b k = (if b = bn \<and> k = i then Some d else log_data ev b k)"
  by (auto simp: log_data_def add_event_def Let_def split: prod.split option.splits)

lemma block_data_eq: "block_data ev bn = map (\<lambda>i. the (log_data ev bn i)) (sort (log_indexes ev bn))"
  by (simp add: block_data_def log_data_def log_indexes_def split: option.split)

lemma add_event_indexed:
  assumes "\<And>b k. k \<in> set (log_indexes ev b) \<longleftrightarrow> log_data ev b k \<noteq> None"
  shows "k \<in> set (log_indexes (add_event bn i d ev) b) \<longleftrightarrow> log_data (add_event bn i d ev) b k \<noteq> None"
  using assms by (auto simp: add_event_log_indexes add_event_log_data)

lemma fold_add_log:
  assumes "distinct (map log_key ls)"
  shows "log_indexes (fold (add_log rec) ls (Map.empty, Map.empty)) bn =
      map (int_of_uint64 \<circ> Index) (filter (\<lambda>l. int_of_uint64 (BlockNumber l) = bn) ls) \<and>
    (\<forall>l \<in> set ls. log_data (fold (add_log rec) ls (Map.empty, Map.empty))
      (int_of_uint64 (BlockNumber l)) (int_of_uint64 (Index l)) = Some (rec l)) \<and>
    (\<forall>b k. (b, k) \<notin> log_key ` set ls \<longrightarrow> log_data (fold (add_log rec) ls (Map.empty, Map.empty)) b k = None)"
  using assms
proof (induction ls rule: rev_induct)
  case Nil
  then show ?case by (simp add: log_indexes_def log_data_def)
next
  case (snoc l ls)
  then have "log_key l \<notin> log_key ` set ls" and ih: "distinct (map log_key ls)" by simp_all
  with snoc.IH [OF ih] show ?case
    by (auto simp: add_log_def add_event_log_indexes add_event_log_data)
qed

lemma sort_map_key: "sort (map f xs) = map f (sort_key f xs)" for f :: "'a \<Rightarrow> 'b :: linorder"
  by (rule properties_for_sort) simp_all

lemma block_data_fold:
  assumes "distinct (map log_key ls)"
  shows "block_data (fold (add_log rec) ls (Map.empty, Map.empty)) bn =
    map rec (sort_key (int_of_uint64 \<circ> Index) (filter (\<lambda>l. int_of_uint64 (BlockNumber l) = bn) ls))"
  using fold_add_log [OF assms, of rec bn] by (auto simp: block_data_eq sort_map_key)

lemma dataToSave_lookup:
  "(case dataToSave ev bns i of None \<Rightarrow> [] | Some data \<Rightarrow> data) =
     (if i \<in> int_of_uint64 ` set bns then block_data ev i else [])"
  unfolding dataToSave_def
  by (induction bns rule: rev_induct) (auto split: option.splits)

section \<open>A fetch of an honest answer\<close>

text \<open>
  What the chain must look like for the records of a block to be defined: the logs of a block
  carry its number and distinct indexes, a header carries the number of its block, the
  transaction of a log is found under its hash, has a recipient and a sender, and the data of
  the log decodes to a \<^verbatim>\<open>[32]byte\<close> first. \<open>one_log_per_tx\<close> is what the fetcher assumes
  beyond that: no transaction emits two logs with the topic.
\<close>

definition log_ok :: "'t geth \<Rightarrow> 't chain \<Rightarrow> int \<Rightarrow> log \<Rightarrow> bool" where
  "log_ok G C i l \<longleftrightarrow>
     int_of_uint64 (BlockNumber l) = i \<and>
     Number (chain_header C (BlockNumber l)) = i \<and>
     Hash G (chain_tx C (TxHash l)) = TxHash l \<and>
     (\<exists>to. To G (chain_tx C (TxHash l)) = Some to) \<and>
     (\<exists>sender. Sender G i (Time (chain_header C (BlockNumber l))) (chain_tx C (TxHash l)) = Inr sender) \<and>
     (\<exists>root rest. Unpack G (LogData l) = Inr (Bytes32 root # rest))"

definition chain_ok :: "'t geth \<Rightarrow> 't chain \<Rightarrow> bool" where
  "chain_ok G C \<longleftrightarrow>
     (\<forall>i. \<forall>l \<in> set (chain_logs C i). log_ok G C i l) \<and>
     (\<forall>i. distinct (map Index (chain_logs C i)))"

definition one_log_per_tx :: "'t chain \<Rightarrow> bool" where
  "one_log_per_tx C \<longleftrightarrow>
     (\<forall>i j. \<forall>l \<in> set (chain_logs C i). \<forall>k \<in> set (chain_logs C j). TxHash l = TxHash k \<longrightarrow> l = k)"

text \<open>The records of a block: the logs of the configured address in the order of their index.\<close>

definition log_involved :: "'t geth \<Rightarrow> string \<Rightarrow> 't chain \<Rightarrow> log \<Rightarrow> bool" where
  "log_involved G address C l =
     (let tx = chain_tx C (TxHash l); block = chain_header C (BlockNumber l) in
      (case Sender G (Number block) (Time block) tx of
         Inr sender \<Rightarrow> involves G address tx sender = Return True
       | Inl _ \<Rightarrow> False))"

definition log_record :: "'t geth \<Rightarrow> 't chain \<Rightarrow> log \<Rightarrow> indexed_data" where
  "log_record G C l =
     \<lparr>l1_info_root = (case Unpack G (LogData l) of Inr (Bytes32 root # _) \<Rightarrow> root | _ \<Rightarrow> []),
      block_time = Time (chain_header C (BlockNumber l)),
      block_parent_hash = ParentHash (chain_header C (BlockNumber l))\<rparr>"

definition chain_records :: "'t geth \<Rightarrow> string \<Rightarrow> 't chain \<Rightarrow> int \<Rightarrow> indexed_data list" where
  "chain_records G address C i =
     map (log_record G C)
       (sort_key (int_of_uint64 \<circ> Index) (filter (log_involved G address C) (chain_logs C i)))"

lemma set_logs_between: "l \<in> set (logs_between C lo hi) \<longleftrightarrow> (\<exists>i. lo \<le> i \<and> i \<le> hi \<and> l \<in> set (chain_logs C i))"
  by (auto simp: logs_between_def)

lemma distinct_concat_blocks:
  assumes "chain_ok G C" and "distinct is"
  shows "distinct (map log_key (concat (map (chain_logs C) is)))"
  using assms(2)
proof (induction "is")
  case (Cons i "is")
  have block: "int_of_uint64 (BlockNumber l) = j" if "l \<in> set (chain_logs C j)" for l j
    using assms(1) that by (auto simp: chain_ok_def log_ok_def)
  have "distinct (map Index (chain_logs C i))" using assms(1) by (simp add: chain_ok_def)
  then have "distinct (map log_key (chain_logs C i))"
    by (auto simp: distinct_map inj_on_def int_of_uint64_inj)
  moreover have "log_key ` set (chain_logs C i) \<inter> log_key ` set (concat (map (chain_logs C) is)) = {}"
    using block Cons.prems by auto
  ultimately show ?case using Cons by simp
qed simp

lemma filter_block_between:
  assumes "chain_ok G C"
  shows "filter (\<lambda>l. int_of_uint64 (BlockNumber l) = i) (logs_between C lo hi) =
    (if lo \<le> i \<and> i \<le> hi then chain_logs C i else [])"
proof -
  have block: "int_of_uint64 (BlockNumber l) = j" if "l \<in> set (chain_logs C j)" for l j
    using assms that by (auto simp: chain_ok_def log_ok_def)
  have one: "filter (\<lambda>l. int_of_uint64 (BlockNumber l) = i) (chain_logs C j) = (if j = i then chain_logs C j else [])" for j
    using block by (auto simp: filter_id_conv filter_empty_conv)
  have "filter (\<lambda>l. int_of_uint64 (BlockNumber l) = i) (concat (map (chain_logs C) is)) =
      (if i \<in> set is then chain_logs C i else [])" if "distinct is" for "is"
    using that by (induction "is") (auto simp: one)
  from this [of "[lo..hi]"] show ?thesis by (simp add: logs_between_def)
qed

lemma fold_if_filter: "fold (\<lambda>l ev. if P l then f l ev else ev) ls ev = fold f (filter P ls) ev"
  by (induction ls arbitrary: ev) auto

text \<open>One pass of the loop over the transactions, for the transaction of a log of the chain.\<close>

lemma handle_tx_ok:
  assumes "log_ok G C i l" and "logOf (TxHash l) = Some l"
    and "block_at blocks slices (BlockNumber l) = Return (chain_header C (BlockNumber l))"
  shows "handle_tx G address logOf blocks slices ev (Some (chain_tx C (TxHash l))) =
    Return (if log_involved G address C l then add_log (log_record G C) l ev else ev)"
proof -
  let ?tx = "chain_tx C (TxHash l)" and ?block = "chain_header C (BlockNumber l)"
  obtain sender root rest to where "Sender G i (Time ?block) ?tx = Inr sender" "To G ?tx = Some to"
    "Unpack G (LogData l) = Inr (Bytes32 root # rest)" "Number ?block = i" "Hash G ?tx = TxHash l"
    using assms(1) by (auto simp: log_ok_def)
  with assms(2,3) show ?thesis
    by (simp add: handle_tx_def Let_def info_root_def log_involved_def involves_def add_log_def log_record_def)
qed

lemma assemble_ok:
  assumes "chain_ok G C" and "one_log_per_tx C" and "mset logs = mset (logs_between C lo hi)"
  shows "\<exists>data. assemble G address logs (map (Some \<circ> chain_header C) (collect_bns logs Map.empty []),
      map (Some \<circ> chain_tx C) (map TxHash logs)) = Return data \<and>
    (\<forall>i. lo \<le> i \<and> i \<le> hi \<longrightarrow>
      (case data i of None \<Rightarrow> [] | Some rs \<Rightarrow> rs) = chain_records G address C i)"
proof -
  let ?bns = "collect_bns logs Map.empty []"
  let ?blocks = "map (Some \<circ> chain_header C) ?bns"
  let ?inv = "log_involved G address C" and ?rec = "log_record G C"
  let ?ix = "int_of_uint64 \<circ> Index" and ?at = "\<lambda>i l. int_of_uint64 (BlockNumber l) = i"
  have set_logs: "set logs = set (logs_between C lo hi)" using assms(3) by (metis set_mset_mset)
  have in_chain: "\<exists>i. lo \<le> i \<and> i \<le> hi \<and> l \<in> set (chain_logs C i)" if "l \<in> set logs" for l
    using that set_logs by (simp add: set_logs_between)
  then have log_ok: "\<exists>i. log_ok G C i l" if "l \<in> set logs" for l
    using that assms(1) unfolding chain_ok_def by blast
  have bns: "distinct ?bns" "set ?bns = BlockNumber ` set logs"
    using collect_bns_ok [of Map.empty "[]" logs] by simp_all
  have num: "Number (chain_header C bn) = int_of_uint64 bn" if "bn \<in> set ?bns" for bn
    using that bns(2) log_ok by (auto simp: log_ok_def)
  obtain slices where slices: "blockToSlice ?blocks 0 Map.empty = Return slices"
    using blockToSlice_ok [OF bns(1) num, of 0 Map.empty] by blast
  have step: "handle_tx G address (txHashToLog logs) ?blocks slices ev (Some (chain_tx C (TxHash l))) =
      Return ((\<lambda>l ev. if ?inv l then add_log ?rec l ev else ev) l ev)" if "l \<in> set logs" for l ev
  proof -
    have "inj_on TxHash (set logs)"
      using in_chain assms(2) unfolding one_log_per_tx_def inj_on_def by blast
    then have "txHashToLog logs (TxHash l) = Some l" using that by (rule txHashToLog_lookup)
    moreover have "block_at ?blocks slices (BlockNumber l) = Return (chain_header C (BlockNumber l))"
      using bns(2) that by (intro block_at_ok [OF bns(1) num slices]) simp_all
    ultimately show ?thesis using handle_tx_ok log_ok [OF that] by blast
  qed
  define ev where "ev = fold (add_log ?rec) (filter ?inv logs) (Map.empty, Map.empty)"
  have "fold_outcome (\<lambda>ev l. handle_tx G address (txHashToLog logs) ?blocks slices ev (Some (chain_tx C (TxHash l))))
      (Map.empty, Map.empty) logs = Return (fold (\<lambda>l ev. if ?inv l then add_log ?rec l ev else ev) logs (Map.empty, Map.empty))"
    by (rule fold_outcome_Return) (rule step)
  then have loop: "fold_outcome (\<lambda>ev l. handle_tx G address (txHashToLog logs) ?blocks slices ev (Some (chain_tx C (TxHash l))))
      (Map.empty, Map.empty) logs = Return ev"
    by (simp only: fold_if_filter ev_def)
  have "assemble G address logs (?blocks, map (Some \<circ> chain_tx C) (map TxHash logs)) = Return (dataToSave ev ?bns)"
    by (simp add: assemble_def slices loop fold_outcome_map ev_def)
  moreover have "(case dataToSave ev ?bns i of None \<Rightarrow> [] | Some rs \<Rightarrow> rs) = chain_records G address C i"
    if "lo \<le> i \<and> i \<le> hi" for i
  proof -
    have keys: "distinct (map log_key (logs_between C lo hi))"
      unfolding logs_between_def using distinct_concat_blocks [OF assms(1)] by simp
    then have "distinct (map log_key logs)"
      using assms(3) by (metis distinct_count_atmost_1 mset_map mset_eq_imp_distinct_iff)
    then have "distinct (map log_key (filter ?inv logs))" by (simp add: distinct_map inj_on_def)
    then have "block_data ev i = map ?rec (sort_key ?ix (filter (?at i) (filter ?inv logs)))"
      unfolding ev_def by (rule block_data_fold)
    moreover have "sort_key ?ix (filter (?at i) (filter ?inv logs)) = sort_key ?ix (filter ?inv (chain_logs C i))"
    proof (rule sort_key_inj_key_eq)
      have "mset (filter (?at i) logs) = mset (chain_logs C i)"
        using assms(3) that filter_block_between [OF assms(1), of i lo hi] by (simp add: mset_filter [symmetric])
      then have "mset (filter ?inv (filter (?at i) logs)) = mset (filter ?inv (chain_logs C i))"
        by (simp only: mset_filter)
      moreover have "filter (?at i) (filter ?inv logs) = filter ?inv (filter (?at i) logs)"
        by (simp add: conj_commute)
      ultimately show "mset (filter (?at i) (filter ?inv logs)) = mset (sort_key ?ix (filter ?inv (chain_logs C i)))"
        by simp
      have "inj_on ?ix (set (filter (?at i) logs))"
        using \<open>distinct (map log_key logs)\<close> by (auto simp: distinct_map inj_on_def)
      then show "inj_on ?ix (set (filter (?at i) (filter ?inv logs)))" by (auto simp: inj_on_def)
    qed simp
    moreover have "block_data ev i = []" if out: "i \<notin> int_of_uint64 ` set ?bns"
    proof -
      have "filter (?at i) (filter ?inv logs) = []" using out bns(2) by (auto simp: filter_empty_conv)
      then show ?thesis using calculation(1) by simp
    qed
    ultimately show ?thesis by (auto simp: dataToSave_lookup chain_records_def)
  qed
  ultimately show ?thesis by blast
qed

text \<open>A balancer that keeps both contracts.\<close>

locale honest_service = balancer_service A ok + honest_balancer A C tp
  for A :: "('s, 't) balancer_api" and ok and C :: "'t chain" and tp
begin

lemma fetchData_total:
  assumes "chain_ok G C" "one_log_per_tx C" "cfg_topic cfg = tp" "ok (Suc (Suc n)) s"
  shows "\<exists>r s'. fetchData A G cfg lo hi s = Some (r, s') \<and> ok n s' \<and> announced r \<and>
    (\<forall>data. r = Return data \<longrightarrow> (\<forall>i. lo \<le> i \<and> i \<le> hi \<longrightarrow>
      (case data i of None \<Rightarrow> [] | Some rs \<Rightarrow> rs) = chain_records G (cfg_address cfg) C i))"
proof -
  obtain r1 s1 where l: "api_GetLogs A lo hi tp s = Some (r1, s1)" "ok (Suc n) s1" "announced r1"
    using logs_total [OF assms(4)] by blast
  show ?thesis
  proof (cases "\<exists>logs. r1 = Return logs")
    case False
    with l ok_less assms(3) show ?thesis by (auto simp: fetchData_def announced_def)
  next
    case True
    then obtain logs where logs: "r1 = Return logs" by blast
    with l(1) have honest: "mset logs = mset (logs_between C lo hi)" using logs_honest by blast
    show ?thesis
    proof (cases "logs = []")
      case True
      have "chain_logs C i = []" if "lo \<le> i \<and> i \<le> hi" for i
        using filter_block_between [OF assms(1), of i lo hi] honest True that by simp
      then have "chain_records G (cfg_address cfg) C i = []" if "lo \<le> i \<and> i \<le> hi" for i
        using that by (simp add: chain_records_def)
      with True l logs ok_less assms(3) show ?thesis by (auto simp: fetchData_def announced_def)
    next
      case False
      let ?bns = "collect_bns logs Map.empty []"
      obtain r2 s2 where b: "api_GetBlocksAndTxs A ?bns (map TxHash logs) s1 = Some (r2, s2)" "ok n s2" "announced r2"
        using batch_total [OF l(2)] by blast
      have fetch: "fetchData A G cfg lo hi s = Some (obind r2 (assemble G (cfg_address cfg) logs), s2)"
        using l(1) logs b(1) False assms(3) by (simp add: fetchData_def)
      show ?thesis
      proof (cases "\<exists>answer. r2 = Return answer")
        case False
        with fetch b show ?thesis by (auto simp: announced_def)
      next
        case True
        then obtain blocks txs where r2: "r2 = Return (blocks, txs)" by auto
        then have "blocks = map (Some \<circ> chain_header C) ?bns" "txs = map (Some \<circ> chain_tx C) (map TxHash logs)"
          using batch_honest b(1) by blast+
        with assemble_ok [OF assms(1,2) honest, of "cfg_address cfg"] r2 fetch b(2) show ?thesis
          by (auto simp: announced_def)
      qed
    qed
  qed
qed

end

lemma honest_service_balancer:
  assumes "honest_endpoints E C tp"
  shows "honest_service (as_balancer E cfg) (room cfg) C tp"
  by (intro honest_service.intro balancer_service_balancer honest_balancer_balancer assms)

interpretation served_fetch: honest_service "as_balancer (chain_eth C head) cfg" "room cfg" C tp
  for C :: "'t chain" and head cfg tp
  by (rule honest_service_balancer) (rule served.honest_endpoints_axioms)

section \<open>Properties\<close>

text \<open>C7: a fetch returns. With endpoints that show one chain it ends with an error of the
  balancer or with the records of every block of the range: one record for each log with the
  topic whose transaction was sent to or from the configured address, in the order of the log
  indexes, and none for a block without such a log.\<close>

theorem fetchData_records:
  assumes "honest_endpoints E C (cfg_topic cfg)" and "chain_ok G C" and "one_log_per_tx C"
    and "room cfg (Suc (Suc n)) s"
  shows "\<exists>r s'. fetchData (as_balancer E cfg) G cfg lo hi s = Some (r, s') \<and> room cfg n s' \<and>
    (r = Fail ErrReqTooBig \<or> r = Fail ErrMaxRounds \<or>
     (\<exists>data. r = Return data \<and> (\<forall>i. lo \<le> i \<and> i \<le> hi \<longrightarrow>
       (case data i of None \<Rightarrow> [] | Some rs \<Rightarrow> rs) = chain_records G (cfg_address cfg) C i)))"
  using honest_service.fetchData_total [OF honest_service_balancer [OF assms(1), of cfg] assms(2,3) refl assms(4),
      of lo hi]
  by (auto simp: announced_def)

text \<open>A decoder for the chain of the witnesses: every address is written as it is.\<close>

definition ref_geth :: "string geth" where
  "ref_geth =
     \<lparr>Hash = (\<lambda>tx. tx), To = (\<lambda>tx. if tx = ''create'' then None else Some ''0x02''), Hex = (\<lambda>a. a),
      Sender = (\<lambda>n t tx. Inr ''0x01''), Unpack = (\<lambda>data. Inr [Bytes32 (replicate 32 (CHR ''r''))])\<rparr>"

lemma ref_served_ok: "chain_ok ref_geth ref_served" "one_log_per_tx ref_served"
  by (simp_all add: chain_ok_def log_ok_def one_log_per_tx_def ref_served_def ref_geth_def ref_log_def
      int_of_uint64_def)

lemma room_ref_balancer: "room ref_config (Suc (Suc 0)) (ref_balancer 1 1, 5)"
  by (simp add: room_def attempts_def ref_balancer_def ref_config_def bal_ok_def int_of_uint64_def max_int_def)

theorem fetchData_records_witness:
  "\<exists>r s'. fetchData (as_balancer (chain_eth ref_served 9) ref_config) ref_geth ref_config 2 5 (ref_balancer 1 1, 5)
      = Some (r, s') \<and> (\<forall>data. r = Return data \<longrightarrow>
        (case data 3 of None \<Rightarrow> [] | Some rs \<Rightarrow> rs) = [log_record ref_geth ref_served ref_log])"
proof -
  have "log_involved ref_geth ''0x01'' ref_served ref_log"
    by (simp add: log_involved_def ref_geth_def ref_served_def ref_log_def involves_def) code_simp
  then have "chain_records ref_geth (cfg_address ref_config) ref_served 3 = [log_record ref_geth ref_served ref_log]"
    by (simp add: chain_records_def ref_config_def ref_served_def)
  then show ?thesis
    using fetchData_records [OF served.honest_endpoints_axioms ref_served_ok room_ref_balancer, of 9 2 5] by auto
qed

text \<open>C27: a range that is too big is split into two ranges that cover it exactly and without
  overlap; each half of a range of two or more blocks is not empty and strictly shorter, so
  the splits of a range end at single blocks.\<close>

theorem fetch_split_covers:
  assumes "fetchData A G cfg start stop s = Some (Fail ErrReqTooBig, s')"
    and "0 \<le> start" and "start < stop" and "start + stop \<le> max_int"
  shows "\<exists>mid. fetchWithRetry A G cfg start stop s = Some (Spawn [(start, mid), (mid + 1, stop)], s') \<and>
    {start..mid} \<union> {mid + 1..stop} = {start..stop} \<and> {start..mid} \<inter> {mid + 1..stop} = {} \<and>
    start \<le> mid \<and> mid < stop"
proof -
  have "midBlock start stop = (start + stop) div 2"
    using assms(2-4) by (simp add: midBlock_def go_int_id min_int_def go_div_def)
  moreover have "start \<le> (start + stop) div 2" "(start + stop) div 2 < stop" using assms(3) by linarith+
  moreover have "go_int ((start + stop) div 2 + 1) = (start + stop) div 2 + 1"
    using assms(2-4) calculation(2,3) by (intro go_int_id) (simp_all add: min_int_def max_int_def)
  ultimately show ?thesis
    using assms(1) by (auto simp: fetchWithRetry_def after_fetch_def)
qed

text \<open>C28: the split of a single block that is too big starts the same fetch again, with an
  empty range beside it, and the split of an empty range starts that range twice: while the
  endpoints keep answering that the request is too big, these fetches never end.\<close>

theorem single_block_split_repeats:
  assumes "fetchData A G cfg b b s = Some (Fail ErrReqTooBig, s')"
    and "fetchData A G cfg (b + 1) b u = Some (Fail ErrReqTooBig, u')"
    and "0 \<le> b" and "2 * b + 1 < max_int"
  shows "fetchWithRetry A G cfg b b s = Some (Spawn [(b, b), (b + 1, b)], s') \<and>
    fetchWithRetry A G cfg (b + 1) b u = Some (Spawn [(b + 1, b), (b + 1, b)], u')"
proof -
  have "midBlock b b = b" "midBlock (b + 1) b = b" "go_int (b + 1) = b + 1"
    using assms(3,4) by (simp_all add: midBlock_def go_int_id min_int_def go_div_def)
  with assms(1,2) show ?thesis by (simp add: fetchWithRetry_def after_fetch_def)
qed

text \<open>A balancer whose endpoints find every request too big.\<close>

definition ref_too_big :: "(nat, string) balancer_api" where
  "ref_too_big =
     \<lparr>api_GetLogs = (\<lambda>lo hi tp s. Some (Fail ErrReqTooBig, Suc s)),
      api_GetBlockFromTag = (\<lambda>tag s. Some (Return 9, Suc s)),
      api_GetBlocksAndTxs = (\<lambda>bns hashes s. Some (Fail ErrReqTooBig, Suc s))\<rparr>"

lemma fetchData_too_big: "fetchData ref_too_big G cfg lo hi s = Some (Fail ErrReqTooBig, Suc s)"
  by (simp add: fetchData_def ref_too_big_def)

theorem fetch_split_covers_witness:
  "\<exists>mid. fetchWithRetry ref_too_big ref_geth ref_config 4 9 0 = Some (Spawn [(4, mid), (mid + 1, 9)], 1) \<and> mid < 9"
  using fetch_split_covers [OF fetchData_too_big [of ref_geth ref_config 4 9 0]] by (auto simp: max_int_def)

theorem single_block_split_repeats_witness:
  "fetchWithRetry ref_too_big ref_geth ref_config 4 4 0 = Some (Spawn [(4, 4), (5, 4)], 1)"
  using single_block_split_repeats [OF fetchData_too_big fetchData_too_big, of 4] by (simp add: max_int_def)

text \<open>C29: when one transaction emits two logs with the topic, only the later one is indexed:
  the map from transaction hashes to logs keeps one log for each hash, and both passes of the
  loop handle that log. The other event is lost without an error.\<close>

theorem events_of_one_tx_are_lost:
  assumes "chain_logs C i = [k, l]" and "TxHash k = TxHash l" and "Index k \<noteq> Index l"
    and "log_ok G C i k" and "log_ok G C i l"
    and "log_involved G (cfg_address cfg) C k" and "log_involved G (cfg_address cfg) C l"
    and "api_GetLogs A lo hi (cfg_topic cfg) s = Some (Return [k, l], s1)"
    and "api_GetBlocksAndTxs A [BlockNumber l] [TxHash l, TxHash l] s1 =
      Some (Return ([Some (chain_header C (BlockNumber l))],
        [Some (chain_tx C (TxHash l)), Some (chain_tx C (TxHash l))]), s2)"
  shows "\<exists>data. fetchData A G cfg lo hi s = Some (Return data, s2) \<and> data i = Some [log_record G C l] \<and>
    mset (chain_records G (cfg_address cfg) C i) = {#log_record G C k, log_record G C l#}"
proof -
  let ?bn = "BlockNumber l"
  have i: "int_of_uint64 ?bn = i" "int_of_uint64 (BlockNumber k) = i" "Number (chain_header C ?bn) = i"
    using assms(4,5) by (simp_all add: log_ok_def)
  then have bn: "BlockNumber k = ?bn" by (metis int_of_uint64_inj)
  have "go_int i = i" using int_of_uint64_range [of ?bn] i(1) by (simp add: go_int_id)
  then have slices: "blockToSlice [Some (chain_header C ?bn)] 0 Map.empty = Return [i \<mapsto> 0]"
    using i(3) by simp
  have at: "block_at [Some (chain_header C ?bn)] [i \<mapsto> 0] ?bn = Return (chain_header C ?bn)"
    by (simp add: block_at_def i(1))
  have step: "handle_tx G (cfg_address cfg) (txHashToLog [k, l]) [Some (chain_header C ?bn)] [i \<mapsto> 0] ev
      (Some (chain_tx C (TxHash l))) = Return (add_log (log_record G C) l ev)" for ev
    using handle_tx_ok [OF assms(5) _ at, of "txHashToLog [k, l]" "cfg_address cfg" ev] assms(2,7)
    by (simp add: txHashToLog_def)
  have bns: "collect_bns [k, l] Map.empty [] = [?bn]" by (simp add: bn)
  define ev where "ev = add_log (log_record G C) l (add_log (log_record G C) l (Map.empty, Map.empty))"
  have asm: "assemble G (cfg_address cfg) [k, l] ([Some (chain_header C ?bn)],
      [Some (chain_tx C (TxHash l)), Some (chain_tx C (TxHash l))]) = Return (dataToSave ev [?bn])"
    by (simp only: assemble_def prod.case slices obind_simps fold_outcome.simps step bns ev_def)
  have "block_data ev i = [log_record G C l]"
    by (simp add: block_data_eq ev_def add_log_def add_event_log_indexes add_event_log_data i(1))
      (simp add: log_indexes_def log_data_def)
  then have "dataToSave ev [?bn] i = Some [log_record G C l]" by (simp add: dataToSave_def i(1))
  moreover have "fetchData A G cfg lo hi s = Some (Return (dataToSave ev [?bn]), s2)"
    using assms(2,8,9) asm bns by (simp add: fetchData_def del: collect_bns.simps)
  moreover have "mset (chain_records G (cfg_address cfg) C i) = {#log_record G C k, log_record G C l#}"
    using assms(6,7) by (simp add: chain_records_def assms(1))
  ultimately show ?thesis by blast
qed

text \<open>C40: a log whose transaction creates a contract, so that it has no recipient, makes the
  fetch panic, even when the sender is not the configured address.\<close>

theorem contract_creation_panics:
  assumes "api_GetLogs A lo hi (cfg_topic cfg) s = Some (Return [l], s1)"
    and "api_GetBlocksAndTxs A [BlockNumber l] [TxHash l] s1 = Some (Return ([Some block], [Some tx]), s2)"
    and "Hash G tx = TxHash l" and "Number block = int_of_uint64 (BlockNumber l)"
    and "Sender G (Number block) (Time block) tx = Inr sender" and "Unpack G (LogData l) = Inr (Bytes32 root # vs)"
    and "To G tx = None"
  shows "fetchData A G cfg lo hi s = Some (Panic ''nil pointer dereference'', s2)"
proof -
  have "go_int (Number block) = int_of_uint64 (BlockNumber l)"
    using int_of_uint64_range [of "BlockNumber l"] assms(4) by (simp add: go_int_id)
  with assms show ?thesis
    by (simp add: fetchData_def assemble_def handle_tx_def txHashToLog_def block_at_def info_root_def involves_def)
qed

lemma handle_tx_mixed_case:
  "ToLower address \<noteq> address \<Longrightarrow> handle_tx G address logOf blocks slices ev p = Return ev' \<Longrightarrow> ev' = ev"
  using ToLower_idem by (auto simp: handle_tx_def involves_def Let_def obind_eq_Return split: if_splits)

lemma fold_handle_tx_mixed_case:
  assumes "ToLower address \<noteq> address"
  shows "fold_outcome (handle_tx G address logOf blocks slices) ev txs = Return ev' \<Longrightarrow> ev' = ev"
proof (induction txs arbitrary: ev)
  case (Cons p txs)
  then obtain ev1 where "handle_tx G address logOf blocks slices ev p = Return ev1"
    "fold_outcome (handle_tx G address logOf blocks slices) ev1 txs = Return ev'"
    by (auto simp only: fold_outcome.simps obind_eq_Return)
  with Cons.IH [OF this(2)] handle_tx_mixed_case [OF assms this(1)] show ?case by simp
qed simp

text \<open>C39: with an upper-case letter in \<^verbatim>\<open>ADDRESS\<close>, as in the checksummed form of an address, nothing is
  ever indexed: a fetch that returns, whatever logs and transactions its requests were answered
  with, has no record of any block, because the addresses of a transaction are
  lowered before they are compared and the configured one is not.\<close>

theorem mixed_case_address_indexes_nothing:
  assumes "ToLower (cfg_address cfg) \<noteq> cfg_address cfg"
    and "fetchData A G cfg lo hi s = Some (Return data, s')"
  shows "data = Map.empty"
proof -
  have empty: "dataToSave (Map.empty, Map.empty) bns = Map.empty" for bns
    by (induction bns) (simp_all add: dataToSave_def block_data_def)
  have "data' = Map.empty" if "assemble G (cfg_address cfg) logs answer = Return data'" for logs answer data'
    using that fold_handle_tx_mixed_case [OF assms(1)] empty
    by (auto simp: assemble_def obind_eq_Return split: prod.splits) blast
  with assms(2) show ?thesis
    by (auto simp: fetchData_def obind_eq_Return split: option.splits outcome.splits if_splits)
qed

text \<open>A balancer that answers with given logs, headers and transactions.\<close>

definition ref_answers :: "log list \<Rightarrow> header list \<Rightarrow> string list \<Rightarrow> (nat, string) balancer_api" where
  "ref_answers logs blocks txs =
     \<lparr>api_GetLogs = (\<lambda>lo hi tp s. Some (Return logs, Suc s)),
      api_GetBlockFromTag = (\<lambda>tag s. Some (Return 9, Suc s)),
      api_GetBlocksAndTxs = (\<lambda>bns hashes s. Some (Return (map Some blocks, map Some txs), Suc s))\<rparr>"

definition ref_twice :: "string chain" where
  "ref_twice = ref_served\<lparr>chain_logs := (\<lambda>i. if i = 3 then [ref_log, ref_log\<lparr>Index := 4\<rparr>] else [])\<rparr>"

theorem mixed_case_address_indexes_nothing_witness:
  "\<exists>s'. fetchData (ref_answers [ref_log] [chain_header ref_twice 3] [''tx'']) ref_geth
      (ref_config\<lparr>cfg_address := ''0xAB''\<rparr>) 3 3 0 = Some (Return Map.empty, s')"
proof -
  let ?A = "ref_answers [ref_log] [chain_header ref_twice 3] [''tx'']" and ?cfg = "ref_config\<lparr>cfg_address := ''0xAB''\<rparr>"
  obtain data s' where f: "fetchData ?A ref_geth ?cfg 3 3 0 = Some (Return data, s')"
    by (simp add: fetchData_def ref_answers_def assemble_def handle_tx_def txHashToLog_def block_at_def info_root_def
        involves_def ref_geth_def ref_log_def ref_twice_def ref_served_def int_of_uint64_def Let_def go_int_id
        min_int_def max_int_def)
  moreover have "ToLower ''0xAB'' \<noteq> ''0xAB''" by code_simp
  then have "ToLower (cfg_address ?cfg) \<noteq> cfg_address ?cfg" by simp
  ultimately show ?thesis using mixed_case_address_indexes_nothing [of ?cfg ?A ref_geth 3 3 0 data s'] by blast
qed

theorem events_of_one_tx_are_lost_witness:
  "\<exists>data s'. fetchData (ref_answers [ref_log, ref_log\<lparr>Index := 4\<rparr>] [chain_header ref_twice 3] [''tx'', ''tx''])
      ref_geth ref_config 3 3 0 = Some (Return data, s') \<and> length (the (data 3)) = 1 \<and>
    size (mset (chain_records ref_geth (cfg_address ref_config) ref_twice 3)) = 2"
proof -
  let ?l = "ref_log\<lparr>Index := 4\<rparr>"
  let ?A = "ref_answers [ref_log, ?l] [chain_header ref_twice 3] [''tx'', ''tx'']"
  have "ToLower ''0x01'' = ''0x01''" by code_simp
  then have inv: "log_involved ref_geth (cfg_address ref_config) ref_twice ref_log"
    "log_involved ref_geth (cfg_address ref_config) ref_twice ?l"
    by (simp_all add: log_involved_def ref_geth_def ref_twice_def ref_served_def ref_log_def involves_def ref_config_def)
  have ok: "log_ok ref_geth ref_twice 3 ref_log" "log_ok ref_geth ref_twice 3 ?l"
    by (simp_all add: log_ok_def ref_twice_def ref_served_def ref_geth_def ref_log_def int_of_uint64_def)
  have facts: "chain_logs ref_twice 3 = [ref_log, ?l]" "TxHash ref_log = TxHash ?l" "Index ref_log \<noteq> Index ?l"
    by (simp_all add: ref_twice_def ref_log_def)
  have api: "api_GetLogs ?A 3 3 (cfg_topic ref_config) 0 = Some (Return [ref_log, ?l], 1)"
    "api_GetBlocksAndTxs ?A [BlockNumber ?l] [TxHash ?l, TxHash ?l] 1 =
      Some (Return ([Some (chain_header ref_twice (BlockNumber ?l))],
        [Some (chain_tx ref_twice (TxHash ?l)), Some (chain_tx ref_twice (TxHash ?l))]), 2)"
    by (simp_all add: ref_answers_def ref_log_def ref_twice_def ref_served_def)
  from events_of_one_tx_are_lost [OF facts ok inv api]
  obtain data where "fetchData ?A ref_geth ref_config 3 3 0 = Some (Return data, 2)"
    "data 3 = Some [log_record ref_geth ref_twice ?l]"
    "mset (chain_records ref_geth (cfg_address ref_config) ref_twice 3) =
      {#log_record ref_geth ref_twice ref_log, log_record ref_geth ref_twice ?l#}"
    by blast
  then show ?thesis by (intro exI [of _ data] exI [of _ 2]) simp
qed

theorem contract_creation_panics_witness:
  "\<exists>s'. fetchData (ref_answers [ref_log\<lparr>TxHash := ''create''\<rparr>] [chain_header ref_served 3] [''create''])
      ref_geth ref_config 3 3 0 = Some (Panic ''nil pointer dereference'', s')"
proof -
  let ?l = "ref_log\<lparr>TxHash := ''create''\<rparr>" and ?block = "chain_header ref_served 3"
  let ?A = "ref_answers [?l] [?block] [''create'']"
  have api: "api_GetLogs ?A 3 3 tp 0 = Some (Return [?l], 1)"
    "api_GetBlocksAndTxs ?A bns hs 1 = Some (Return ([Some ?block], [Some ''create'']), 2)" for tp bns hs
    by (simp_all add: ref_answers_def)
  show ?thesis
    using contract_creation_panics [OF api, of ref_geth "''0x01''" "replicate 32 (CHR ''r'')" "[]"]
    by (simp add: ref_geth_def ref_log_def ref_served_def int_of_uint64_def)
qed

end
