(* ===== verification/Orchestrator.thy ===== *)
theory Orchestrator
  imports Balancer_Service Synchronizer
begin

text \<open>
  The orchestrator (\<^verbatim>\<open>orchestrator/orchestrator.go\<close>): it chooses between range and full mode,
  starts the database, and starts the synchronizer, the first fetch and, in full mode, a loop
  that requests the next range once everything up to the last known end is saved.

  A run of \<^verbatim>\<open>StartOrchestrator\<close> takes the database and the state of the balancer and returns
  either an error or what it starts in goroutines (\<open>started\<close>), with the new database and
  balancer state; \<open>None\<close> means that the balancer does not return.
\<close>

section \<open>Operations\<close>

record started =
  sync_from :: int
  requested :: "int \<times> int"
  orchestrated_from :: "int option"

definition valid_tag :: "string \<Rightarrow> bool" where
  "valid_tag tag \<longleftrightarrow> tag \<in> {''latest'', ''safe'', ''finalized''}"

definition manageRange :: "'p bolt \<Rightarrow> config \<Rightarrow> 'p \<Rightarrow> started outcome \<times> 'p" where
  "manageRange B cfg db =
     (case StartDB B mode_range db of
        Fail err \<Rightarrow> (Fail err, db)
      | Panic m \<Rightarrow> (Panic m, db)
      | Return db' \<Rightarrow>
          (Return \<lparr>sync_from = cfg_start_block cfg,
                   requested = (cfg_start_block cfg, cfg_end_block cfg),
                   orchestrated_from = None\<rparr>, db'))"

definition manageFull :: "'p bolt \<Rightarrow> ('s, 't) balancer_api \<Rightarrow> config \<Rightarrow> 'p \<Rightarrow> 's \<Rightarrow>
    (started outcome \<times> 'p \<times> 's) option" where
  "manageFull B A cfg db s =
     (case StartDB B mode_full db of
        Fail err \<Rightarrow> Some (Fail err, db, s)
      | Panic m \<Rightarrow> Some (Panic m, db, s)
      | Return db' \<Rightarrow>
          map_option (\<lambda>(r, s').
            (obind r (\<lambda>endBlock.
             obind (GetLastBlockIndex B db') (\<lambda>lastIndex.
               (let startBlock = go_int (lastIndex + 1) in
                Return \<lparr>sync_from = startBlock, requested = (startBlock, endBlock),
                        orchestrated_from = Some endBlock\<rparr>))), db', s'))
            (api_GetBlockFromTag A (cfg_block_tag cfg) s))"

definition StartOrchestrator :: "'p bolt \<Rightarrow> ('s, 't) balancer_api \<Rightarrow> config \<Rightarrow> 'p \<Rightarrow> 's \<Rightarrow>
    (started outcome \<times> 'p \<times> 's) option" where
  "StartOrchestrator B A cfg db s =
     (if cfg_start_block cfg \<noteq> 0 \<and> cfg_end_block cfg \<noteq> 0 then
        (case manageRange B cfg db of (r, db') \<Rightarrow> Some (r, db', s))
      else if \<not> valid_tag (cfg_block_tag cfg) then Some (Fail (NewError ''invalid tag''), db, s)
      else if cfg_block_tag cfg \<noteq> '''' then manageFull B A cfg db s
      else Some (Fail (NewError ''could not identify mode''), db, s))"

text \<open>What the loop of \<^verbatim>\<open>orchestrate\<close> does with the answer to its request for the tag: the new
  end block and the range requested, if any. A failed request gives block 0 and is only
  printed.\<close>

definition after_tag :: "int \<Rightarrow> int \<Rightarrow> int outcome \<Rightarrow> (int \<times> (int \<times> int) option) outcome" where
  "after_tag currEndblock currBlock r =
     (case r of
        Panic m \<Rightarrow> Panic m
      | _ \<Rightarrow>
        (let endBlock = (case r of Return n \<Rightarrow> n | _ \<Rightarrow> 0) in
         if currBlock > endBlock then Return (currEndblock, None)
         else Return (endBlock, Some (currBlock, endBlock))))"

text \<open>One tick of the loop.\<close>

definition orchestrate_tick :: "('s, 't) balancer_api \<Rightarrow> config \<Rightarrow> int \<Rightarrow> int \<Rightarrow> 's \<Rightarrow>
    ((int \<times> (int \<times> int) option) outcome \<times> 's) option" where
  "orchestrate_tick A cfg currEndblock currBlock s =
     (if currBlock > currEndblock then
        map_option (apfst (after_tag currEndblock currBlock)) (api_GetBlockFromTag A (cfg_block_tag cfg) s)
      else Some (Return (currEndblock, None), s))"

section \<open>Facts\<close>

lemma orchestrate_tick_cases:
  assumes "orchestrate_tick A cfg e b s = Some (Return (e', req), s')"
  shows "(e' = e \<and> req = None) \<or>
    (e < b \<and> b \<le> e' \<and> req = Some (b, e') \<and>
     (b \<le> 0 \<or> api_GetBlockFromTag A (cfg_block_tag cfg) s = Some (Return e', s')))"
proof (cases "e < b")
  case True
  show ?thesis
  proof (cases "api_GetBlockFromTag A (cfg_block_tag cfg) s")
    case None
    with True assms show ?thesis by (simp add: orchestrate_tick_def)
  next
    case (Some a)
    obtain r s1 where "a = (r, s1)" by (rule prod.exhaust)
    with True Some assms show ?thesis
      by (cases r) (auto simp: orchestrate_tick_def after_tag_def Let_def split: if_splits)
  qed
qed (use assms in \<open>auto simp: orchestrate_tick_def\<close>)

lemma StartDB_last_block:
  assumes "bolt_store B view" and "StartDB B mode_full db = Return db'"
    and "view db adminBucketName = Some am" and "am modeIndex = Some mode_full"
  shows "view db' = (view db)(dataBucketName \<mapsto> or_empty (view db dataBucketName),
    adminBucketName \<mapsto> am)"
proof -
  have "am(modeIndex \<mapsto> mode_full) = am" using assms(4) by auto
  then show ?thesis
    using bolt_store.StartDB_view [OF assms(1,2)] assms(3,4)
    by (simp add: started_content_def keeps_data_def or_empty_def)
qed

text \<open>A full-mode start reads back the last block.\<close>

lemma manageFull_start:
  assumes "bolt_store B view" and "cfg_start_block cfg = 0 \<or> cfg_end_block cfg = 0"
    and "view db adminBucketName = Some am" and "am modeIndex = Some mode_full"
    and "am lastBlockIndex = (if n = - 1 then None else Some (IntToBytes n))"
    and "- 1 \<le> n" and "n < max_int"
    and "StartOrchestrator B A cfg db s = Some (Return st, db', s')"
  shows "\<exists>tag. st = \<lparr>sync_from = n + 1, requested = (n + 1, tag), orchestrated_from = Some tag\<rparr> \<and>
    api_GetBlockFromTag A (cfg_block_tag cfg) s = Some (Return tag, s') \<and>
    view db' dataBucketName = Some (or_empty (view db dataBucketName)) \<and> view db' adminBucketName = Some am"
proof -
  from assms(2,8) have full: "manageFull B A cfg db s = Some (Return st, db', s')"
    by (auto simp: StartOrchestrator_def valid_tag_def split: if_splits)
  then obtain tag lastIndex where db: "StartDB B mode_full db = Return db'"
    and tag: "api_GetBlockFromTag A (cfg_block_tag cfg) s = Some (Return tag, s')"
    and li: "GetLastBlockIndex B db' = Return lastIndex"
    and st: "st = \<lparr>sync_from = go_int (lastIndex + 1), requested = (go_int (lastIndex + 1), tag),
      orchestrated_from = Some tag\<rparr>"
    by (auto simp: manageFull_def obind_eq_Return Let_def split: outcome.splits)
  note view = StartDB_last_block [OF assms(1) db assms(3,4)]
  from li obtain tx where tx: "b_view B db' = Inr tx"
    by (auto simp: GetLastBlockIndex_def obind_eq_Return of_sum_eq_Return)
  have "lastIndex = n"
    using bolt_store.GetLastBlockIndex_eq [OF assms(1) _ tx, of am] view li assms(5-7) length_IntToBytes [of n]
    by (auto simp: BytesToInt_IntToBytes_go_int go_int_id min_int_def split: if_splits simp del: length_IntToBytes)
  moreover have "go_int (n + 1) = n + 1" using assms(6,7) by (intro go_int_id) (simp_all add: min_int_def)
  ultimately show ?thesis using st tag view by simp
qed

section \<open>Properties\<close>

text \<open>With \<^verbatim>\<open>START_BLOCK\<close> and \<^verbatim>\<open>END_BLOCK\<close> set, the orchestrator empties the database,
  starts the synchronizer at the first block and fetches exactly the configured range, once;
  the balancer is not asked.\<close>

theorem range_mode_starts:
  assumes "bolt_store B view" and "cfg_start_block cfg \<noteq> 0" and "cfg_end_block cfg \<noteq> 0"
    and "StartOrchestrator B A cfg db s = Some (Return st, db', s')"
  shows "st = \<lparr>sync_from = cfg_start_block cfg, requested = (cfg_start_block cfg, cfg_end_block cfg),
      orchestrated_from = None\<rparr> \<and> s' = s \<and> holds_records view G db' []"
  using assms bolt_store.StartDB_view [OF assms(1), of mode_range db db']
  by (auto simp: StartOrchestrator_def manageRange_def started_content_def keeps_data_def holds_records_def
      stored_def put_registers_def split: outcome.splits)

text \<open>For the witnesses: a database of full mode whose last block is 7, and a balancer that
  knows the block of the tag.\<close>

definition ref_after_full :: ref_db where
  "ref_after_full =
     [(adminBucketName, [(lastBlockIndex, IntToBytes 7), (modeIndex, mode_full)]), (dataBucketName, [])]"

definition ref_tag :: "int \<Rightarrow> (nat, unit) balancer_api" where
  "ref_tag n =
     \<lparr>api_GetLogs = (\<lambda>lo hi tp s. Some (Return [], Suc s)),
      api_GetBlockFromTag = (\<lambda>tag s. Some (Return n, Suc s)),
      api_GetBlocksAndTxs = (\<lambda>bns hashes s. Some (Return ([], []), Suc s))\<rparr>"

lemma ref_restart:
  assumes "api_GetBlockFromTag A ''latest'' s = Some (Return n, s')"
  obtains st db' where "StartOrchestrator ref_bolt A ref_config ref_after_full s = Some (Return st, db', s')"
proof -
  obtain db' where db': "StartDB ref_bolt mode_full ref_after_full = Return db'"
    by (simp add: StartDB_def ref_bolt_def ref_after_full_def reset_for_full_def Let_def)
  from StartDB_last_block [OF ref.bolt_store_axioms db', of "map_of [(lastBlockIndex, IntToBytes 7), (modeIndex, mode_full)]"]
  have v: "ref_view db' adminBucketName = Some (map_of [(lastBlockIndex, IntToBytes 7), (modeIndex, mode_full)])"
    by (simp add: ref_view_def ref_after_full_def)
  from ref.GetLastBlockIndex_eq [OF v, of db'] have "GetLastBlockIndex ref_bolt db' = Return 7"
    using length_IntToBytes [of 7]
    by (auto simp: ref_bolt_def BytesToInt_IntToBytes_go_int go_int_id min_int_def max_int_def simp del: length_IntToBytes)
  with db' assms have "\<exists>st. StartOrchestrator ref_bolt A ref_config ref_after_full s = Some (Return st, db', s')"
    by (simp add: StartOrchestrator_def manageFull_def ref_config_def valid_tag_def Let_def)
  with that show ?thesis by blast
qed

lemma ref_start_full:
  obtains st db' where "StartOrchestrator ref_bolt (ref_tag n) ref_config ref_after_full 0 = Some (Return st, db', 1)"
  by (rule ref_restart [of "ref_tag n" 0 n 1]) (simp_all add: ref_tag_def)

theorem range_mode_starts_witness:
  "\<exists>st db'. StartOrchestrator ref_bolt (ref_tag 9) (ref_config\<lparr>cfg_start_block := 3, cfg_end_block := 5\<rparr>)
      ref_after_full 0 = Some (Return st, db', 0) \<and> requested st = (3, 5) \<and> holds_records ref_view ref_types db' []"
proof -
  let ?cfg = "ref_config\<lparr>cfg_start_block := 3, cfg_end_block := 5\<rparr>"
  obtain db' where "StartDB ref_bolt mode_range ref_after_full = Return db'"
    by (simp add: StartDB_def ref_bolt_def ref_after_full_def reset_for_range_def delete_if_present_def Let_def)
  then obtain st where st: "StartOrchestrator ref_bolt (ref_tag 9) ?cfg ref_after_full 0 = Some (Return st, db', 0)"
    by (simp add: StartOrchestrator_def manageRange_def)
  with range_mode_starts [OF ref.bolt_store_axioms _ _ st, of ref_types] show ?thesis by auto
qed

text \<open>C22: in full mode, on a database of full mode whose last saved block is \<open>n\<close>, the records
  and the last block are kept, and the synchronizer and the first fetch start at the block
  after \<open>n\<close>; on a fresh database they start at block 0. The fetch ends at the block of the
  tag, from which the loop goes on.\<close>

theorem full_mode_resumes:
  assumes "bolt_store B view" and "cfg_start_block cfg = 0 \<or> cfg_end_block cfg = 0"
    and "view db adminBucketName = Some am" and "am modeIndex = Some mode_full"
    and "am lastBlockIndex = (if n = - 1 then None else Some (IntToBytes n))"
    and "- 1 \<le> n" and "n < max_int"
    and "StartOrchestrator B A cfg db s = Some (Return st, db', s')"
  shows "\<exists>tag. sync_from st = n + 1 \<and> requested st = (n + 1, tag) \<and> orchestrated_from st = Some tag \<and>
    api_GetBlockFromTag A (cfg_block_tag cfg) s = Some (Return tag, s') \<and>
    view db' dataBucketName = Some (or_empty (view db dataBucketName)) \<and> view db' adminBucketName = Some am"
  using manageFull_start [OF assms] by auto

theorem full_mode_resumes_witness:
  "\<exists>st db' s'. StartOrchestrator ref_bolt (ref_tag 9) ref_config ref_after_full 0 = Some (Return st, db', s') \<and>
    requested st = (8, 9)"
proof -
  obtain st db' where st: "StartOrchestrator ref_bolt (ref_tag 9) ref_config ref_after_full 0 = Some (Return st, db', 1)"
    by (rule ref_start_full)
  have admin: "ref_view ref_after_full adminBucketName =
      Some (map_of [(lastBlockIndex, IntToBytes 7), (modeIndex, mode_full)])"
    by (simp add: ref_view_def ref_after_full_def)
  from full_mode_resumes [OF ref.bolt_store_axioms _ admin _ _ _ _ st, of 7]
  have "requested st = (8, 9)" by (auto simp: ref_config_def max_int_def ref_tag_def)
  with st show ?thesis by blast
qed

text \<open>A full-mode start on a database that is already in sync with the tag requests a
  range whose end is before its start.\<close>

theorem in_sync_start_requests_empty_range:
  assumes "bolt_store B view" and "cfg_start_block cfg = 0 \<or> cfg_end_block cfg = 0"
    and "view db adminBucketName = Some am" and "am modeIndex = Some mode_full"
    and "am lastBlockIndex = Some (IntToBytes n)" and "0 \<le> n" and "n < max_int"
    and "api_GetBlockFromTag A (cfg_block_tag cfg) s = Some (Return n, s')"
    and "StartOrchestrator B A cfg db s = Some (Return st, db', s')"
  shows "requested st = (n + 1, n)"
  using manageFull_start [OF assms(1-4) _ _ assms(7,9)] assms(5,6,8) by auto

theorem in_sync_start_requests_empty_range_witness:
  "\<exists>st db' s'. StartOrchestrator ref_bolt (ref_tag 7) ref_config ref_after_full 0 = Some (Return st, db', s') \<and>
    requested st = (8, 7)"
proof -
  obtain st db' where st: "StartOrchestrator ref_bolt (ref_tag 7) ref_config ref_after_full 0 = Some (Return st, db', 1)"
    by (rule ref_start_full)
  have admin: "ref_view ref_after_full adminBucketName =
      Some (map_of [(lastBlockIndex, IntToBytes 7), (modeIndex, mode_full)])"
    by (simp add: ref_view_def ref_after_full_def)
  from in_sync_start_requests_empty_range [OF ref.bolt_store_axioms _ admin _ _ _ _ _ st, of 7]
  have "requested st = (8, 7)" by (simp add: ref_config_def max_int_def ref_tag_def)
  with st show ?thesis by blast
qed

text \<open>A tick of the orchestrator requests a range only when every block up to the end of
  the previous range has been saved; the range starts at the current block, is not empty and
  ends at the new end block. Otherwise, in particular when the tag cannot be read, the end
  block stays and nothing is requested.\<close>

theorem orchestrate_tick_requests:
  assumes "orchestrate_tick A cfg currEndblock currBlock s = Some (Return (e, req), s')" and "0 < currBlock"
  shows "(case req of
      None \<Rightarrow> e = currEndblock
    | Some (lo, hi) \<Rightarrow> currEndblock < currBlock \<and> lo = currBlock \<and> hi = e \<and> lo \<le> hi \<and>
        api_GetBlockFromTag A (cfg_block_tag cfg) s = Some (Return e, s'))"
  using orchestrate_tick_cases [OF assms(1)] assms(2) by auto

theorem orchestrate_tick_requests_witness:
  "\<exists>e. orchestrate_tick (ref_tag 9) ref_config 4 5 0 = Some (Return (e, Some (5, 9)), 1) \<and> e = 9"
proof -
  have t: "orchestrate_tick (ref_tag 9) ref_config 4 5 0 = Some (Return (9, Some (5, 9)), 1)"
    by (simp add: orchestrate_tick_def after_tag_def ref_tag_def)
  from orchestrate_tick_requests [OF t] t show ?thesis by simp
qed

end
