(* ===== verification/Indexer.thy ===== *)
theory Indexer
  imports Fetcher Orchestrator
begin

text \<open>
  The whole program: what \<^verbatim>\<open>main\<close> builds, and the interleaving of the goroutines it starts.
  A fetch is a task that waits for the semaphore, sends its two requests, and either hands an
  item to the synchronizer, or is replaced by the two halves of its range, or ends the
  process by a panic. Between any two of these steps the other tasks, the synchronizer and the
  orchestrator may act. A call of the balancer and a transaction of the database are one step
  each; the theory \<open>Interleaved\<close> takes the calls of the balancer apart.
\<close>

section \<open>Tasks\<close>

datatype task =
    Queued int int
  | Fetching int int
  | Assembling int int "log list"
  | Sending sync_struct

text \<open>A task holds the semaphore while it fetches.\<close>

fun holds_semaphore :: "task \<Rightarrow> bool" where
  "holds_semaphore (Fetching lo hi) = True"
| "holds_semaphore (Assembling lo hi logs) = True"
| "holds_semaphore _ = False"

definition running :: "task multiset \<Rightarrow> nat" where
  "running ts = size (filter_mset holds_semaphore ts)"

text \<open>What takes the place of a fetch that ends; \<open>None\<close> is a panic.\<close>

definition ended :: "fetch_end \<Rightarrow> task multiset option" where
  "ended r =
     (case r of
        Deliver item \<Rightarrow> Some {#Sending item#}
      | Spawn ranges \<Rightarrow> Some (mset (map (\<lambda>(lo, hi). Queued lo hi) ranges))
      | Abort m \<Rightarrow> None)"

text \<open>The two halves of \<^verbatim>\<open>fetchData\<close>, after each of its requests.\<close>

definition logs_answered :: "int \<Rightarrow> int \<Rightarrow> log list outcome \<Rightarrow> task multiset option" where
  "logs_answered lo hi r =
     (case r of
        Return logs \<Rightarrow>
          if logs = [] then ended (after_fetch lo hi (Return Map.empty)) else Some {#Assembling lo hi logs#}
      | Fail err \<Rightarrow> ended (after_fetch lo hi (Fail err))
      | Panic m \<Rightarrow> ended (after_fetch lo hi (Panic m)))"

definition batch_answered :: "'t geth \<Rightarrow> string \<Rightarrow> int \<Rightarrow> int \<Rightarrow> log list \<Rightarrow>
    (header option list \<times> 't option list) outcome \<Rightarrow> task multiset option" where
  "batch_answered G address lo hi logs answer =
     ended (after_fetch lo hi (obind answer (assemble G address logs)))"

text \<open>Run without interruption, the steps of a fetch task are exactly one call of
  \<^verbatim>\<open>fetchWithRetry\<close>: the two requests and what follows them, cut apart so that other
  goroutines can act in between, end in the same item, split or panic and leave the same
  balancer, for every balancer.\<close>

theorem fetchWithRetry_steps:
  "map_option (\<lambda>(r, s'). (ended r, s')) (fetchWithRetry A G cfg lo hi s) =
    (case api_GetLogs A lo hi (cfg_topic cfg) s of
       None \<Rightarrow> None
     | Some (r, s1) \<Rightarrow>
         (case r of
            Return logs \<Rightarrow>
              if logs = [] then Some (logs_answered lo hi r, s1)
              else map_option (\<lambda>(answer, s2). (batch_answered G (cfg_address cfg) lo hi logs answer, s2))
                (api_GetBlocksAndTxs A (collect_bns logs Map.empty []) (map TxHash logs) s1)
          | _ \<Rightarrow> Some (logs_answered lo hi r, s1)))"
  by (auto simp: fetchWithRetry_def fetchData_def logs_answered_def batch_answered_def
      split: option.split outcome.split)

section \<open>The state of the process and its steps\<close>

record ('s, 'p) process =
  tasks :: "task multiset"
  synchronizer :: sync
  database :: 'p
  bal :: 's
  end_block :: int
  cycling :: bool
  alive :: bool

definition replace_task :: "task \<Rightarrow> task multiset option \<Rightarrow> ('s, 'p) process \<Rightarrow> ('s, 'p) process" where
  "replace_task t new S =
     (case new of
        None \<Rightarrow> S\<lparr>alive := False\<rparr>
      | Some ts \<Rightarrow> S\<lparr>tasks := tasks S - {#t#} + ts\<rparr>)"

definition requested_task :: "(int \<times> int) option \<Rightarrow> task multiset" where
  "requested_task req = (case req of None \<Rightarrow> {#} | Some (lo, hi) \<Rightarrow> {#Queued lo hi#})"

inductive step :: "('s, 't) balancer_api \<Rightarrow> 't geth \<Rightarrow> config \<Rightarrow> 'p saver \<Rightarrow>
    ('s, 'p) process \<Rightarrow> ('s, 'p) process \<Rightarrow> bool"
  for A :: "('s, 't) balancer_api" and G :: "'t geth" and cfg :: config and save_data :: "'p saver" where
  acquire: "alive S \<Longrightarrow> Queued lo hi \<in># tasks S \<Longrightarrow> int (running (tasks S)) < cfg_concurrency cfg \<Longrightarrow>
    step A G cfg save_data S (replace_task (Queued lo hi) (Some {#Fetching lo hi#}) S)"
| logs: "alive S \<Longrightarrow> Fetching lo hi \<in># tasks S \<Longrightarrow> api_GetLogs A lo hi (cfg_topic cfg) (bal S) = Some (r, s') \<Longrightarrow>
    step A G cfg save_data S (replace_task (Fetching lo hi) (logs_answered lo hi r) (S\<lparr>bal := s'\<rparr>))"
| batch: "alive S \<Longrightarrow> Assembling lo hi ls \<in># tasks S \<Longrightarrow>
    api_GetBlocksAndTxs A (collect_bns ls Map.empty []) (map TxHash ls) (bal S) = Some (r, s') \<Longrightarrow>
    step A G cfg save_data S
      (replace_task (Assembling lo hi ls) (batch_answered G (cfg_address cfg) lo hi ls r) (S\<lparr>bal := s'\<rparr>))"
| send: "alive S \<Longrightarrow> Sending item \<in># tasks S \<Longrightarrow> Add item (synchronizer S) = Some s' \<Longrightarrow>
    step A G cfg save_data S (replace_task (Sending item) (Some {#}) (S\<lparr>synchronizer := s'\<rparr>))"
| recv: "alive S \<Longrightarrow> sync_recv (synchronizer S) = Some s' \<Longrightarrow>
    step A G cfg save_data S (S\<lparr>synchronizer := s'\<rparr>)"
| tick: "alive S \<Longrightarrow> sync_tick save_data (synchronizer S, database S) = Some (Return (s', p')) \<Longrightarrow>
    step A G cfg save_data S (S\<lparr>synchronizer := s', database := p'\<rparr>)"
| tick_panic: "alive S \<Longrightarrow> sync_tick save_data (synchronizer S, database S) = Some (Panic m) \<Longrightarrow>
    step A G cfg save_data S (S\<lparr>alive := False\<rparr>)"
| cycle: "alive S \<Longrightarrow> cycling S \<Longrightarrow>
    orchestrate_tick A cfg (end_block S) (GetCurrBlock (synchronizer S)) (bal S) = Some (Return (e, req), b') \<Longrightarrow>
    step A G cfg save_data S (S\<lparr>tasks := tasks S + requested_task req, bal := b', end_block := e\<rparr>)"
| cycle_panic: "alive S \<Longrightarrow> cycling S \<Longrightarrow>
    orchestrate_tick A cfg (end_block S) (GetCurrBlock (synchronizer S)) (bal S) = Some (Panic m, b') \<Longrightarrow>
    step A G cfg save_data S (S\<lparr>alive := False\<rparr>)"

abbreviation run :: "('s, 't) balancer_api \<Rightarrow> 't geth \<Rightarrow> config \<Rightarrow> 'p saver \<Rightarrow>
    ('s, 'p) process \<Rightarrow> ('s, 'p) process \<Rightarrow> bool" where
  "run A G cfg save_data \<equiv> (step A G cfg save_data)\<^sup>*\<^sup>*"

text \<open>The state right after \<^verbatim>\<open>StartOrchestrator\<close>; in range mode nothing cycles.\<close>

definition started_process :: "config \<Rightarrow> started \<Rightarrow> 'p \<Rightarrow> 's \<Rightarrow> ('s, 'p) process" where
  "started_process cfg st db s =
     \<lparr>tasks = {#Queued (fst (requested st)) (snd (requested st))#},
      synchronizer = start_sync (sync_from st) NewSynchronizer,
      database = db, bal = s,
      end_block = (case orchestrated_from st of None \<Rightarrow> snd (requested st) | Some e \<Rightarrow> e),
      cycling = (orchestrated_from st \<noteq> None), alive = True\<rparr>"

text \<open>\<^verbatim>\<open>main\<close> up to the HTTP server: it opens the database, dials the endpoints and starts the
  goroutines; every error is a panic. The result is what the goroutines are started with, and
  the database and the balancer that they share.\<close>

definition main_start :: "(string \<Rightarrow> go_error + 'p) \<Rightarrow> 'p bolt \<Rightarrow> ('c, 't, 'w) eth_api \<Rightarrow> config \<Rightarrow> 'w \<Rightarrow>
    (started \<times> 'p \<times> ('c, 'w) bstate) outcome option" where
  "main_start open_db B E cfg w =
     (case NewPersistor open_db (cfg_db_path cfg) of
        Return db \<Rightarrow>
          (case NewBalancer E cfg w of
             (Return b, w') \<Rightarrow>
               map_option (\<lambda>(r, db', s).
                 (case r of
                    Return st \<Rightarrow> Return (st, db', s)
                  | Fail err \<Rightarrow> Panic ''error''
                  | Panic m \<Rightarrow> Panic m))
                 (StartOrchestrator B (as_balancer E cfg) cfg db (b, w'))
           | (Fail err, w') \<Rightarrow> Some (Panic ''error'')
           | (Panic m, w') \<Rightarrow> Some (Panic m))
      | Fail err \<Rightarrow> Some (Panic ''error'')
      | Panic m \<Rightarrow> Some (Panic m))"

text \<open>Before \<^verbatim>\<open>main\<close> runs, the package-level variables are evaluated, and the \<^verbatim>\<open>init\<close> of the fetcher
  looks up the event of the topic in the ABI. The ABI package is a parameter: what it parses the
  ABI to, the event with an identifier as the decoder of the data of its logs, and the hash of a
  topic.\<close>

type_synonym unpack = "bytes \<Rightarrow> go_error + abi_value list"

record 'abi abi_api =
  ParseABI :: "go_error + 'abi"
  EventByID :: "'abi \<Rightarrow> bytes \<Rightarrow> go_error + unpack"
  TopicHash :: "string \<Rightarrow> bytes"

definition fetcher_init :: "'abi abi_api \<Rightarrow> string \<Rightarrow> unpack outcome" where
  "fetcher_init A tp =
     (case ParseABI A of
        Inl err \<Rightarrow> Panic ''error''
      | Inr abi \<Rightarrow>
          (case EventByID A abi (TopicHash A tp) of
             Inl err \<Rightarrow> Panic ''error''
           | Inr decode \<Rightarrow> Return decode))"

definition process_start :: "'abi abi_api \<Rightarrow> env \<Rightarrow> (string \<Rightarrow> go_error + 'p) \<Rightarrow> 'p bolt \<Rightarrow> ('c, 't, 'w) eth_api \<Rightarrow> 'w \<Rightarrow>
    (config \<times> unpack \<times> started \<times> 'p \<times> ('c, 'w) bstate) outcome option" where
  "process_start A env open_db B E w =
     (case obind (load_config env) (\<lambda>cfg. obind (fetcher_init A (cfg_topic cfg)) (\<lambda>decode. Return (cfg, decode))) of
        Return (cfg, decode) \<Rightarrow>
          map_option (\<lambda>r. obind r (\<lambda>(st, db, s). Return (cfg, decode, st, db, s))) (main_start open_db B E cfg w)
      | Fail err \<Rightarrow> Some (Fail err)
      | Panic m \<Rightarrow> Some (Panic m))"

lemma process_start_Return:
  assumes "process_start A env open_db B E w = Some (Return (cfg, decode, st, db, s))"
  shows "load_config env = Return cfg \<and> fetcher_init A (cfg_topic cfg) = Return decode \<and>
    main_start open_db B E cfg w = Some (Return (st, db, s))"
  using assms
  by (auto simp: process_start_def obind_eq_Return split: outcome.splits prod.splits)

section \<open>The invariant\<close>

fun task_range :: "task \<Rightarrow> int set" where
  "task_range (Queued lo hi) = {lo..hi}"
| "task_range (Fetching lo hi) = {lo..hi}"
| "task_range (Assembling lo hi ls) = {lo..hi}"
| "task_range (Sending item) = {item_start item..item_end item}"

text \<open>A range inside the blocks from \<open>start\<close> to the known end \<open>e\<close>, perhaps empty.\<close>

definition range_ok :: "int \<Rightarrow> int \<Rightarrow> int \<Rightarrow> int \<Rightarrow> bool" where
  "range_ok start e lo hi \<longleftrightarrow> start \<le> lo \<and> lo \<le> hi + 1 \<and> 0 \<le> hi \<and> hi \<le> e"

fun task_ok :: "'t chain \<Rightarrow> (int \<Rightarrow> indexed_data list) \<Rightarrow> int \<Rightarrow> int \<Rightarrow> task \<Rightarrow> bool" where
  "task_ok C D start e (Queued lo hi) = range_ok start e lo hi"
| "task_ok C D start e (Fetching lo hi) = range_ok start e lo hi"
| "task_ok C D start e (Assembling lo hi ls) =
     (range_ok start e lo hi \<and> mset ls = mset (logs_between C lo hi))"
| "task_ok C D start e (Sending item) = item_ok D start e item"

text \<open>A block waits to be saved, or is in an item on its way, or is being fetched.\<close>

definition on_its_way :: "('s, 'p) process \<Rightarrow> int \<Rightarrow> bool" where
  "on_its_way S i \<longleftrightarrow>
     data_to_save (synchronizer S) i \<noteq> None \<or>
     (\<exists>item \<in> set (datachan (synchronizer S)). item_start item \<le> i \<and> i \<le> item_end item) \<or>
     (\<exists>t. t \<in># tasks S \<and> i \<in> task_range t)"

definition process_inv :: "('p \<Rightarrow> indexed_data list \<Rightarrow> bool) \<Rightarrow> ('p \<Rightarrow> int \<Rightarrow> bool) \<Rightarrow> 't chain \<Rightarrow>
    (int \<Rightarrow> indexed_data list) \<Rightarrow> config \<Rightarrow> int \<Rightarrow> ('s, 'p) process \<Rightarrow> bool" where
  "process_inv holds last_block C D cfg start S \<longleftrightarrow>
     sync_inv holds last_block D start (end_block S) (synchronizer S, database S) \<and>
     (\<forall>t. t \<in># tasks S \<longrightarrow> task_ok C D start (end_block S) t) \<and>
     (\<forall>i. GetCurrBlock (synchronizer S) \<le> i \<and> i \<le> end_block S \<longrightarrow> on_its_way S i) \<and>
     (running (tasks S) = 0 \<or> int (running (tasks S)) \<le> cfg_concurrency cfg)"

text \<open>The new tasks are good and cover what the old one covered.\<close>

definition takes_over :: "'t chain \<Rightarrow> (int \<Rightarrow> indexed_data list) \<Rightarrow> int \<Rightarrow> int \<Rightarrow> int set \<Rightarrow> task multiset \<Rightarrow> bool" where
  "takes_over C D start e r ts \<longleftrightarrow>
     (\<forall>t. t \<in># ts \<longrightarrow> task_ok C D start e t) \<and> (\<forall>i \<in> r. \<exists>t. t \<in># ts \<and> i \<in> task_range t)"

lemma midBlock_bounds:
  assumes "0 \<le> lo" "lo \<le> hi + 1" "0 \<le> hi" "2 * hi < max_int"
  shows "midBlock lo hi = (lo + hi) div 2" "lo \<le> midBlock lo hi + 1" "midBlock lo hi \<le> hi" "0 \<le> midBlock lo hi"
    "go_int (midBlock lo hi + 1) = midBlock lo hi + 1"
proof -
  have "lo + hi \<le> max_int" using assms(2,4) by linarith
  then show m: "midBlock lo hi = (lo + hi) div 2"
    using assms by (simp add: midBlock_def go_int_id min_int_def go_div_def)
  show "lo \<le> midBlock lo hi + 1" "midBlock lo hi \<le> hi" "0 \<le> midBlock lo hi" using assms m by linarith+
  then show "go_int (midBlock lo hi + 1) = midBlock lo hi + 1"
    using assms(4) by (intro go_int_id) (simp_all add: min_int_def)
qed

text \<open>However a fetch of a good range ends without a panic, what takes its place covers it.\<close>

lemma after_fetch_takes_over:
  assumes "range_ok start e lo hi" "0 \<le> start" "2 * e < max_int"
    and "\<And>data. r = Return data \<Longrightarrow>
      \<forall>i. lo \<le> i \<and> i \<le> hi \<longrightarrow> (case data i of None \<Rightarrow> [] | Some rs \<Rightarrow> rs) = D i"
    and "ended (after_fetch lo hi r) = Some ts"
  shows "takes_over C D start e {lo..hi} ts \<and> running ts = 0"
proof (cases r)
  case (Return data)
  with assms(1,4,5) show ?thesis
    by (auto simp: after_fetch_def ended_def takes_over_def item_ok_def item_records_def range_ok_def running_def)
next
  case (Panic m)
  with assms(5) show ?thesis by (simp add: after_fetch_def ended_def)
next
  case (Fail err)
  let ?m = "midBlock lo hi"
  have "0 \<le> lo" "2 * hi < max_int" using assms(1-3) by (auto simp: range_ok_def)
  then have m: "lo \<le> ?m + 1" "?m \<le> hi" "0 \<le> ?m" "go_int (?m + 1) = ?m + 1"
    using midBlock_bounds [of lo hi] assms(1) by (auto simp: range_ok_def)
  have ts: "ts = {#Queued lo ?m, Queued (?m + 1) hi#}"
    using assms(5) Fail m(4) by (auto simp: after_fetch_def ended_def split: if_splits)
  have "\<exists>t. t \<in># ts \<and> i \<in> task_range t" if "i \<in> {lo..hi}" for i
    using that
    by (cases "i \<le> ?m") (auto simp: ts intro: exI [of _ "Queued lo ?m"] exI [of _ "Queued (?m + 1) hi"])
  moreover have "task_ok C D start e t" if "t \<in># ts" for t
    using that m assms(1) by (auto simp: ts range_ok_def)
  moreover have "running ts = 0" by (simp add: ts running_def)
  ultimately show ?thesis by (simp add: takes_over_def)
qed

lemma batch_answered_takes_over:
  assumes "chain_ok G C" "one_log_per_tx C" "range_ok start e lo hi" "0 \<le> start" "2 * e < max_int"
    and "mset ls = mset (logs_between C lo hi)"
    and "\<And>blocks txs. answer = Return (blocks, txs) \<Longrightarrow>
      blocks = map (Some \<circ> chain_header C) (collect_bns ls Map.empty []) \<and>
      txs = map (Some \<circ> chain_tx C) (map TxHash ls)"
    and "batch_answered G address lo hi ls answer = Some ts"
  shows "takes_over C (chain_records G address C) start e {lo..hi} ts \<and> running ts = 0"
proof (rule after_fetch_takes_over [OF assms(3-5) _ assms(8) [unfolded batch_answered_def]])
  fix data
  assume "obind answer (assemble G address ls) = Return data"
  with assms(7) have "assemble G address ls (map (Some \<circ> chain_header C) (collect_bns ls Map.empty []),
      map (Some \<circ> chain_tx C) (map TxHash ls)) = Return data"
    by (cases answer) auto
  with assemble_ok [OF assms(1,2,6), of address]
  show "\<forall>i. lo \<le> i \<and> i \<le> hi \<longrightarrow> (case data i of None \<Rightarrow> [] | Some rs \<Rightarrow> rs) = chain_records G address C i"
    by auto
qed

lemma logs_answered_takes_over:
  assumes "chain_ok G C" "range_ok start e lo hi" "0 \<le> start" "2 * e < max_int"
    and "\<And>ls. r = Return ls \<Longrightarrow> mset ls = mset (logs_between C lo hi)"
    and "logs_answered lo hi r = Some ts"
  shows "takes_over C (chain_records G address C) start e {lo..hi} ts \<and> running ts \<le> 1"
proof (cases "\<exists>ls. r = Return ls \<and> ls \<noteq> []")
  case True
  then obtain ls where "r = Return ls" "ls \<noteq> []" by blast
  with assms(2,5,6) show ?thesis
    by (auto simp: logs_answered_def takes_over_def running_def)
next
  case False
  define r' :: "(int \<rightharpoonup> indexed_data list) outcome" where
    "r' = (case r of Return ls \<Rightarrow> Return Map.empty | Fail err \<Rightarrow> Fail err | Panic m \<Rightarrow> Panic m)"
  have "ended (after_fetch lo hi r') = Some ts"
    using False assms(6) by (cases r) (auto simp: logs_answered_def r'_def)
  moreover have "\<forall>i. lo \<le> i \<and> i \<le> hi \<longrightarrow> (case data i of None \<Rightarrow> [] | Some rs \<Rightarrow> rs) = chain_records G address C i"
    if "r' = Return data" for data
  proof -
    have r: "r = Return []" and data: "data = Map.empty"
      using that False by (simp_all add: r'_def split: outcome.splits)
    from assms(5) [OF r] have "mset (logs_between C lo hi) = {#}" by simp
    then have "chain_logs C i = []" if "lo \<le> i \<and> i \<le> hi" for i
      using filter_block_between [OF assms(1), of i lo hi] that by simp
    then show ?thesis using data by (simp add: chain_records_def)
  qed
  ultimately have "takes_over C (chain_records G address C) start e {lo..hi} ts \<and> running ts = 0"
    using after_fetch_takes_over [OF assms(2-4), of r' "chain_records G address C" ts C] by blast
  then show ?thesis by simp
qed

lemma horizon_ok_less:
  assumes "horizon_ok D start H" "start \<le> e + 1" "e \<le> H"
  shows "horizon_ok D start e"
  using assms records_between_append [of start "e + 1" "H + 1" D] by (auto simp: horizon_ok_def)

lemma sync_inv_extend:
  assumes "sync_inv holds last_block D start e sp" "e \<le> e'"
  shows "sync_inv holds last_block D start e' sp"
  using assms by (fastforce simp: sync_inv_def Let_def pending_ok_def item_ok_def split: prod.splits)

lemma task_ok_extend: "task_ok C D start e t \<Longrightarrow> e \<le> e' \<Longrightarrow> task_ok C D start e' t"
  by (cases t) (auto simp: range_ok_def item_ok_def)

lemma in_remove: "u \<in># M \<Longrightarrow> u \<noteq> t \<Longrightarrow> u \<in># M - {#t#}"
  by (auto simp: in_diff_count)

lemma running_replace:
  assumes "t \<in># ts"
  shows "running (ts - {#t#} + us) = running ts - (if holds_semaphore t then 1 else 0) + running us"
proof -
  from assms obtain vs where "ts = add_mset t vs" by (auto dest: multi_member_split)
  then show ?thesis by (simp add: running_def)
qed

text \<open>Replacing a task by tasks that take over its range keeps the invariant.\<close>

lemma replace_task_inv:
  assumes "process_inv holds last_block C D cfg start S" "t \<in># tasks S"
    and "takes_over C D start (end_block S) (task_range t) ts"
    and "running ts = 0 \<or> (holds_semaphore t \<and> running ts \<le> 1) \<or>
      (running ts \<le> 1 \<and> int (running (tasks S)) < cfg_concurrency cfg)"
  shows "process_inv holds last_block C D cfg start (replace_task t (Some ts) (S\<lparr>bal := b\<rparr>))"
proof -
  let ?S = "replace_task t (Some ts) (S\<lparr>bal := b\<rparr>)"
  have new: "tasks ?S = tasks S - {#t#} + ts" "synchronizer ?S = synchronizer S"
    "database ?S = database S" "end_block ?S = end_block S"
    by (simp_all add: replace_task_def)
  have "task_ok C D start (end_block S) u" if "u \<in># tasks ?S" for u
    using that assms(1,3) by (auto simp: new(1) process_inv_def takes_over_def dest: in_diffD)
  moreover have "on_its_way ?S i" if "on_its_way S i" for i
  proof -
    have "\<exists>u. u \<in># tasks ?S \<and> i \<in> task_range u" if u: "u \<in># tasks S" "i \<in> task_range u" for u
    proof (cases "u = t")
      case True
      with u(2) assms(3) show ?thesis by (auto simp: takes_over_def new(1))
    next
      case False
      with u show ?thesis by (auto simp: new(1) in_diff_count)
    qed
    with that show ?thesis unfolding on_its_way_def new(2) by blast
  qed
  moreover have "running (tasks ?S) = 0 \<or> int (running (tasks ?S)) \<le> cfg_concurrency cfg"
  proof -
    have pos: "holds_semaphore t \<Longrightarrow> 0 < running (tasks S)"
      using assms(2) by (auto simp: running_def dest: multi_member_split)
    have "running (tasks S) = 0 \<or> int (running (tasks S)) \<le> cfg_concurrency cfg"
      using assms(1) by (simp add: process_inv_def)
    with pos assms(4) show ?thesis by (auto simp: new(1) running_replace [OF assms(2)])
  qed
  ultimately show ?thesis using assms(1) by (simp add: process_inv_def new)
qed

text \<open>The goroutines are started for the blocks from \<open>start\<close> to \<open>e\<close>.\<close>

definition starts_at :: "started \<Rightarrow> int \<Rightarrow> int \<Rightarrow> bool" where
  "starts_at st start e \<longleftrightarrow>
     sync_from st = start \<and> requested st = (start, e) \<and>
     (orchestrated_from st = None \<or> orchestrated_from st = Some e) \<and> 0 \<le> e \<and> start \<le> e + 1"

text \<open>What the whole program relies on: a persistor that keeps its contract, a balancer that
  shows the chain \<open>C\<close>, tags that do not pass the horizon \<open>H\<close>, and block numbers far enough
  below the largest integer.\<close>

locale indexer = persistor_contract save_data holds last_block + honest_balancer A C "cfg_topic cfg"
  for save_data :: "'p saver" and holds and last_block and A :: "('s, 't) balancer_api"
    and C :: "'t chain" and cfg :: config +
  fixes G :: "'t geth" and start :: int and H :: int
  assumes chain: "chain_ok G C" and one_log: "one_log_per_tx C"
    and hor: "horizon_ok (chain_records G (cfg_address cfg) C) start H" and far: "2 * H < max_int"
    and tag_bounded: "api_GetBlockFromTag A tag s = Some (Return n, s') \<Longrightarrow> n \<le> H"
begin

abbreviation D :: "int \<Rightarrow> indexed_data list" where
  "D \<equiv> chain_records G (cfg_address cfg) C"

definition inv :: "('s, 'p) process \<Rightarrow> bool" where
  "inv S \<longleftrightarrow> process_inv holds last_block C D cfg start S \<and> 0 \<le> end_block S \<and> end_block S \<le> H"

lemma start_nonneg: "0 \<le> start"
  using hor by (simp add: horizon_ok_def)

lemma inv_horizon:
  assumes "inv S"
  shows "horizon_ok D start (end_block S)" "2 * end_block S < max_int"
proof -
  have "start \<le> end_block S + 1"
    using assms by (auto simp: inv_def process_inv_def sync_inv_def Let_def)
  with assms show "horizon_ok D start (end_block S)"
    by (intro horizon_ok_less [OF hor]) (simp_all add: inv_def)
  show "2 * end_block S < max_int" using assms far by (simp add: inv_def)
qed

lemma inv_task: "inv S \<Longrightarrow> t \<in># tasks S \<Longrightarrow> task_ok C D start (end_block S) t"
  by (simp add: inv_def process_inv_def)

lemma inv_replace:
  assumes "inv S" "t \<in># tasks S" "takes_over C D start (end_block S) (task_range t) ts"
    and "running ts = 0 \<or> (holds_semaphore t \<and> running ts \<le> 1) \<or>
      (running ts \<le> 1 \<and> int (running (tasks S)) < cfg_concurrency cfg)"
  shows "inv (replace_task t (Some ts) (S\<lparr>bal := b\<rparr>))"
  using replace_task_inv [of holds last_block C D cfg start S t ts b] assms
  by (simp add: inv_def) (simp add: replace_task_def)

lemma inv_dead: "inv S \<Longrightarrow> inv (S\<lparr>alive := b\<rparr>)" "inv S \<Longrightarrow> inv (S\<lparr>bal := s'\<rparr>)"
  by (simp_all add: inv_def process_inv_def on_its_way_def)

lemma inv_request:
  assumes "inv S" "t \<in># tasks S" "holds_semaphore t"
    and "\<And>ts. new = Some ts \<Longrightarrow> takes_over C D start (end_block S) (task_range t) ts \<and> running ts \<le> 1"
  shows "inv (replace_task t new (S\<lparr>bal := s'\<rparr>))"
proof (cases new)
  case None
  then show ?thesis using assms(1) inv_dead by (simp add: replace_task_def)
next
  case (Some ts)
  with assms(4) [OF Some] inv_replace [OF assms(1,2), of ts s'] assms(3) show ?thesis by auto
qed

lemma inv_sync:
  assumes "inv S" "sync_inv holds last_block D start (end_block S) (s', p')"
    and "\<And>i. GetCurrBlock s' \<le> i \<Longrightarrow> i \<le> end_block S \<Longrightarrow> on_its_way S i \<Longrightarrow> on_its_way (S\<lparr>synchronizer := s', database := p'\<rparr>) i"
    and "GetCurrBlock (synchronizer S) \<le> GetCurrBlock s'"
  shows "inv (S\<lparr>synchronizer := s', database := p'\<rparr>)"
proof -
  have "on_its_way S i" if "GetCurrBlock s' \<le> i \<and> i \<le> end_block S" for i
    using assms(1,4) that by (auto simp: inv_def process_inv_def)
  with assms show ?thesis by (simp add: inv_def process_inv_def)
qed

lemma inv_recv:
  assumes "inv S" "sync_recv (synchronizer S) = Some s'"
  shows "inv (S\<lparr>synchronizer := s'\<rparr>)"
proof -
  let ?s = "synchronizer S"
  have ne: "datachan ?s \<noteq> []" using assms(2) by (rule sync_recv_nonempty)
  have si: "sync_inv holds last_block D start (end_block S) (?s, database S)"
    using assms(1) by (simp add: inv_def process_inv_def)
  from sync_recv_inv [OF si inv_horizon(1) [OF assms(1)] ne] assms(2)
  have s': "sync_inv holds last_block D start (end_block S) (s', database S)"
    "datachan s' = tl (datachan ?s)" "curr_block s' = curr_block ?s"
    "\<And>j. item_start (hd (datachan ?s)) \<le> j \<and> j \<le> item_end (hd (datachan ?s)) \<or> data_to_save ?s j \<noteq> None \<Longrightarrow>
      data_to_save s' j \<noteq> None"
    by auto
  have "on_its_way (S\<lparr>synchronizer := s', database := database S\<rparr>) i" if i: "on_its_way S i" for i
  proof -
    have "set (datachan ?s) = insert (hd (datachan ?s)) (set (datachan s'))"
      using ne s'(2) by (cases "datachan ?s") simp_all
    with i s'(4) [of i] show ?thesis by (auto simp: on_its_way_def)
  qed
  from inv_sync [OF assms(1) s'(1) this] s'(3) show ?thesis by (simp add: GetCurrBlock_def)
qed

lemma inv_tick:
  assumes "inv S" "sync_tick save_data (synchronizer S, database S) = Some (Return (s', p'))"
  shows "inv (S\<lparr>synchronizer := s', database := p'\<rparr>)"
proof -
  have si: "sync_inv holds last_block D start (end_block S) (synchronizer S, database S)"
    using assms(1) by (simp add: inv_def process_inv_def)
  show ?thesis
    by (rule sync_tick_inv [OF si inv_horizon(1) [OF assms(1)]], rule inv_sync [OF assms(1)])
      (use assms(2) in \<open>auto simp: on_its_way_def\<close>)
qed

lemma tick_no_Panic:
  assumes "inv S"
  shows "sync_tick save_data (synchronizer S, database S) \<noteq> Some (Panic m)"
proof -
  have si: "sync_inv holds last_block D start (end_block S) (synchronizer S, database S)"
    using assms by (simp add: inv_def process_inv_def)
  show ?thesis
    by (rule sync_tick_inv [OF si inv_horizon(1) [OF assms]]) simp
qed

lemma inv_send:
  assumes "inv S" "Sending item \<in># tasks S" "Add item (synchronizer S) = Some s'"
  shows "inv (replace_task (Sending item) (Some {#}) (S\<lparr>synchronizer := s'\<rparr>))"
proof -
  let ?S = "replace_task (Sending item) (Some {#}) (S\<lparr>synchronizer := s'\<rparr>)"
  have ok: "item_ok D start (end_block S) item" using inv_task [OF assms(1,2)] by simp
  have new: "tasks ?S = tasks S - {#Sending item#}" "synchronizer ?S = s'" "database ?S = database S"
    "end_block ?S = end_block S" by (simp_all add: replace_task_def)
  have s': "datachan s' = datachan (synchronizer S) @ [item]" "data_to_save s' = data_to_save (synchronizer S)"
    "GetCurrBlock s' = GetCurrBlock (synchronizer S)"
    using assms(3) by (auto simp: Add_def GetCurrBlock_def split: if_splits)
  have "sync_inv holds last_block D start (end_block S) (s', database S)"
    using assms(1,3) ok by (auto simp: inv_def process_inv_def intro: Add_inv)
  moreover have "on_its_way ?S i" if "on_its_way S i" for i
  proof -
    have "i \<in> task_range (Sending item) \<or> (\<exists>u. u \<in># tasks ?S \<and> i \<in> task_range u)"
      if u: "u \<in># tasks S" "i \<in> task_range u" for u
    proof (cases "u = Sending item")
      case False
      then have "u \<in># tasks ?S" using u(1) unfolding new(1) by (intro in_remove)
      with u(2) show ?thesis by blast
    qed (use u in blast)
    then have "(\<exists>u. u \<in># tasks S \<and> i \<in> task_range u) \<Longrightarrow>
        item_start item \<le> i \<and> i \<le> item_end item \<or> (\<exists>u. u \<in># tasks ?S \<and> i \<in> task_range u)"
      unfolding task_range.simps atLeastAtMost_iff by blast
    with that show ?thesis unfolding on_its_way_def new(2) s'(1,2) set_append list.set(2) by blast
  qed
  moreover have "running (tasks ?S) = running (tasks S)"
    using running_replace [OF assms(2), of "{#}"] by (simp add: new(1) running_def)
  ultimately show ?thesis
    using assms(1) s'(3) by (auto simp: inv_def process_inv_def new dest: in_diffD)
qed

lemma inv_cycle:
  assumes "inv S"
    and "orchestrate_tick A cfg (end_block S) (GetCurrBlock (synchronizer S)) (bal S) = Some (Return (e, req), b')"
  shows "inv (S\<lparr>tasks := tasks S + requested_task req, bal := b', end_block := e\<rparr>)"
proof -
  let ?b = "GetCurrBlock (synchronizer S)"
  have si: "sync_inv holds last_block D start (end_block S) (synchronizer S, database S)"
    using assms(1) by (simp add: inv_def process_inv_def)
  then have b: "start \<le> ?b" by (simp add: sync_inv_def Let_def)
  consider "e = end_block S" "req = None"
    | "end_block S < ?b" "?b \<le> e" "req = Some (?b, e)" "?b \<le> 0 \<or> (\<exists>s'. api_GetBlockFromTag A (cfg_block_tag cfg) (bal S) = Some (Return e, s'))"
    using orchestrate_tick_cases [OF assms(2)] by blast
  then show ?thesis
  proof cases
    case 1
    with assms(1) show ?thesis
      by (simp add: inv_def process_inv_def requested_task_def on_its_way_def)
  next
    case 2
    with assms(1) have "0 < ?b" by (simp add: inv_def)
    with 2 have e: "e \<le> H" "end_block S \<le> e" using tag_bounded by auto
    let ?S = "S\<lparr>tasks := tasks S + requested_task req, bal := b', end_block := e\<rparr>"
    have "tasks ?S = tasks S + {#Queued ?b e#}" using 2(3) by (simp add: requested_task_def)
    moreover have "sync_inv holds last_block D start e (synchronizer S, database S)"
      using sync_inv_extend [OF si e(2)] .
    moreover have "on_its_way ?S i" if "?b \<le> i \<and> i \<le> e" for i
      using that 2(3) by (auto simp: on_its_way_def requested_task_def intro!: exI [of _ "Queued ?b e"])
    moreover have "task_ok C D start e (Queued ?b e)" using 2(2) b \<open>0 < ?b\<close> by (simp add: range_ok_def)
    moreover have "task_ok C D start e t" if "t \<in># tasks S" for t
      using inv_task [OF assms(1) that] e(2) by (rule task_ok_extend)
    moreover have "running (tasks S + {#Queued ?b e#}) = running (tasks S)" by (simp add: running_def)
    ultimately show ?thesis
      using assms(1) e by (auto simp: inv_def process_inv_def)
  qed
qed

lemma range_facts:
  assumes "inv S" "t \<in># tasks S" "task_range t = {lo..hi}"
    and "task_ok C D start (end_block S) t \<Longrightarrow> range_ok start (end_block S) lo hi"
  shows "range_ok start (end_block S) lo hi"
  using assms inv_task by blast

lemma step_inv:
  assumes "step A G cfg save_data S S'" "inv S"
  shows "inv S'"
  using assms
proof (induction rule: step.induct)
  case (acquire S lo hi)
  from inv_task [OF acquire(4,2)] have "takes_over C D start (end_block S) (task_range (Queued lo hi)) {#Fetching lo hi#}"
    by (simp add: takes_over_def)
  from inv_replace [OF acquire(4,2) this, of "bal S"] acquire(3) show ?case by (simp add: running_def)
next
  case (logs S lo hi r s')
  have ok: "range_ok start (end_block S) lo hi" using inv_task [OF logs(4,2)] by simp
  have honest: "mset ls = mset (logs_between C lo hi)" if "r = Return ls" for ls
    using logs_honest logs(3) that by blast
  show ?case
    using logs_answered_takes_over [OF chain ok start_nonneg inv_horizon(2) [OF logs(4)] honest]
    by (intro inv_request [OF logs(4,2)]) simp_all
next
  case (batch S lo hi ls r s')
  have ok: "range_ok start (end_block S) lo hi" "mset ls = mset (logs_between C lo hi)"
    using inv_task [OF batch(4,2)] by simp_all
  have honest: "blocks = map (Some \<circ> chain_header C) (collect_bns ls Map.empty []) \<and>
      txs = map (Some \<circ> chain_tx C) (map TxHash ls)" if "r = Return (blocks, txs)" for blocks txs
    using batch_honest batch(3) that by blast
  show ?case
    using batch_answered_takes_over [OF chain one_log ok(1) start_nonneg inv_horizon(2) [OF batch(4)] ok(2) honest]
    by (intro inv_request [OF batch(4,2)]) simp_all
next
  case (send S item s')
  then show ?case using inv_send by blast
next
  case (recv S s')
  then show ?case using inv_recv by blast
next
  case (tick S s' p')
  then show ?case using inv_tick by blast
next
  case (cycle S e req b')
  then show ?case using inv_cycle by blast
qed (auto intro: inv_dead)

lemma run_inv:
  assumes "run A G cfg save_data S S'" "inv S"
  shows "inv S'"
  using assms by (induction rule: rtranclp_induct) (auto intro: step_inv)

lemma inv_started:
  assumes "starts_at st start e" "e \<le> H" "holds db []"
  shows "inv (started_process cfg st db s)"
proof -
  let ?S = "started_process cfg st db s"
  have S: "tasks ?S = {#Queued start e#}" "synchronizer ?S = start_sync start NewSynchronizer" "database ?S = db"
    "end_block ?S = e"
    using assms(1) by (auto simp: started_process_def starts_at_def)
  have "sync_inv holds last_block D start e (start_sync start NewSynchronizer, db)"
    by (rule sync_inv_start [where holds = holds]) (rule horizon_ok_less [OF hor _ assms(2)], use assms(1,3) in \<open>simp_all add: starts_at_def\<close>)
  moreover have "on_its_way ?S i" if "GetCurrBlock (start_sync start NewSynchronizer) \<le> i \<and> i \<le> e" for i
  proof -
    have "start \<le> GetCurrBlock (start_sync start NewSynchronizer)"
      using calculation by (simp add: sync_inv_def Let_def)
    with that show ?thesis by (auto simp: on_its_way_def S intro!: exI [of _ "Queued start e"])
  qed
  ultimately show ?thesis
    using assms(1,2) by (simp add: inv_def process_inv_def S running_def range_ok_def starts_at_def)
qed

lemma inv_saved:
  assumes "inv S"
  defines "b \<equiv> GetCurrBlock (synchronizer S)"
  shows "start \<le> b" "b \<le> end_block S + 1" "holds (database S) (records_between D start b)"
    "start < b \<Longrightarrow> last_block (database S) (b - 1)"
  using assms by (auto simp: inv_def process_inv_def sync_inv_def Let_def saved_upto_def)

lemma step_curr_block:
  assumes "step A G cfg save_data S S'" "inv S"
  shows "GetCurrBlock (synchronizer S) \<le> GetCurrBlock (synchronizer S')"
  using assms
proof (induction rule: step.induct)
  case (send S item s')
  then have "GetCurrBlock s' = GetCurrBlock (synchronizer S)"
    by (auto simp: Add_def GetCurrBlock_def split: if_splits)
  then show ?case by (simp add: replace_task_def)
next
  case (recv S s')
  have si: "sync_inv holds last_block D start (end_block S) (synchronizer S, database S)"
    using recv(3) by (simp add: inv_def process_inv_def)
  from sync_recv_inv [OF si inv_horizon(1) [OF recv(3)] sync_recv_nonempty [OF recv(2)]] recv(2)
  show ?case by (simp add: GetCurrBlock_def)
next
  case (tick S s' p')
  have si: "sync_inv holds last_block D start (end_block S) (synchronizer S, database S)"
    using tick(3) by (simp add: inv_def process_inv_def)
  show ?case
    by (rule sync_tick_inv [OF si inv_horizon(1) [OF tick(3)]]) (use tick(2) in simp)
qed (simp_all add: replace_task_def split: option.split)

text \<open>Every step appends to the log of records, or leaves it alone.\<close>

lemma step_appends:
  assumes "step A G cfg save_data S S'" "inv S"
  defines "b \<equiv> GetCurrBlock (synchronizer S)" and "b' \<equiv> GetCurrBlock (synchronizer S')"
  shows "b \<le> b'" "holds (database S') (records_between D start b @ records_between D b b')"
proof -
  have inv': "inv S'" using step_inv [OF assms(1,2)] .
  show le: "b \<le> b'" unfolding b_def b'_def by (rule step_curr_block [OF assms(1,2)])
  have "start \<le> b" using inv_saved(1) [OF assms(2)] by (simp add: b_def)
  then have "records_between D start b' = records_between D start b @ records_between D b b'"
    using le by (rule records_between_append)
  with inv_saved(3) [OF inv'] show "holds (database S') (records_between D start b @ records_between D b b')"
    by (simp add: b'_def)
qed

lemma inv_complete:
  assumes "inv S" "tasks S = {#}" "datachan (synchronizer S) = []"
    and "\<And>rs n e'. save_data rs n (database S) \<noteq> Fail e'"
    and "sync_tick save_data (synchronizer S, database S) = Some (Return (s', p'))"
  shows "GetCurrBlock s' = end_block S + 1 \<and> holds p' (records_between D start (end_block S + 1))"
proof -
  let ?b = "GetCurrBlock (synchronizer S)"
  have si: "sync_inv holds last_block D start (end_block S) (synchronizer S, database S)"
    using assms(1) by (simp add: inv_def process_inv_def)
  have pending: "data_to_save (synchronizer S) i \<noteq> None" if "?b \<le> i" "i \<le> end_block S" for i
    using assms(1-3) that by (auto simp: inv_def process_inv_def on_its_way_def)
  have inv': "inv (S\<lparr>synchronizer := s', database := p'\<rparr>)" by (rule inv_tick [OF assms(1,5)])
  note saved = inv_saved [OF inv', simplified]
  have "end_block S < GetCurrBlock s'"
  proof (cases "?b \<le> end_block S")
    case True
    show ?thesis
      by (rule sync_tick_progress [OF si inv_horizon(1) [OF assms(1)] pending True assms(4,5)]) simp_all
  next
    case False
    have "?b \<le> GetCurrBlock s'"
      by (rule sync_tick_inv [OF si inv_horizon(1) [OF assms(1)]]) (use assms(5) in simp)
    with False show ?thesis by simp
  qed
  then have "GetCurrBlock s' = end_block S + 1" using saved(2) by simp
  with saved(3) show ?thesis by simp
qed

end

section \<open>The program on its endpoints and its database\<close>

text \<open>The endpoints show one chain, which is as the fetcher needs it, and no block number
  passes the horizon \<open>H\<close>.\<close>

definition world_ok :: "('c, 't, 'w) eth_api \<Rightarrow> 't chain \<Rightarrow> 't geth \<Rightarrow> config \<Rightarrow> int \<Rightarrow> int \<Rightarrow> bool" where
  "world_ok E C G cfg start H \<longleftrightarrow>
     honest_endpoints E C (cfg_topic cfg) \<and> chain_ok G C \<and> one_log_per_tx C \<and>
     horizon_ok (chain_records G (cfg_address cfg) C) start H \<and> 2 * H < max_int \<and>
     (\<forall>c n w k w'. BlockByNumber E c n w = (Inr k, w') \<longrightarrow> int_of_uint64 k \<le> H)"

lemma indexer_model:
  assumes "bolt_store B view" and "world_ok E C G cfg start H"
  shows "indexer (SaveData B T) (holds_records view T) (last_block_saved view) (as_balancer E cfg) C cfg G start H"
proof -
  have "n \<le> H" if "api_GetBlockFromTag (as_balancer E cfg) tag s = Some (Return n, s')" for tag s n s'
  proof -
    from that have "GetBlockFromTag E cfg tag s = Some (Return n, s')" by (simp add: as_balancer_def)
    from GetBlockFromTag_answer [OF this] assms(2) show ?thesis unfolding world_ok_def by blast
  qed
  then show ?thesis
    using assms bolt_store.saving_contract [OF assms(1)] honest_balancer_balancer [of E C "cfg_topic cfg" cfg]
    by (intro indexer.intro indexer_axioms.intro) (auto simp: world_ok_def)
qed

lemma ref_world_ok: "world_ok (chain_eth ref_served 9) ref_served ref_geth ref_config 0 9"
proof -
  have "int (length (records_between (chain_records ref_geth (cfg_address ref_config) ref_served) 0 10)) \<le> 10"
    by (simp add: records_between_def upto.simps chain_records_def ref_served_def)
  then show ?thesis
    using served.honest_endpoints_axioms ref_served_ok
    by (simp add: world_ok_def horizon_ok_def max_int_def) (auto simp: chain_eth_def int_of_uint64_def)
qed

interpretation model: indexer "SaveData ref_bolt ref_types" "holds_records ref_view ref_types"
    "last_block_saved ref_view" "as_balancer (chain_eth ref_served 9) ref_config" ref_served ref_config ref_geth 0 9
  by (rule indexer_model [OF ref.bolt_store_axioms ref_world_ok])

lemma run_model_inv:
  assumes "bolt_store B view" and "world_ok E C G cfg start H"
    and "starts_at st start e" and "e \<le> H" and "holds_records view T db []"
    and "run (as_balancer E cfg) G cfg (SaveData B T) (started_process cfg st db s) S"
  shows "indexer.inv (holds_records view T) (last_block_saved view) C cfg G start H S"
  using indexer.run_inv [OF indexer_model [OF assms(1,2)] assms(6)]
    indexer.inv_started [OF indexer_model [OF assms(1,2)] assms(3-5)]
  by blast

end
