(* ===== verification/Completion.thy ===== *)
theory Completion
  imports Indexer
begin

text \<open>
  Liveness of the process in large steps, for any balancer that keeps its contracts (the theory
  \<open>Interleaved\<close> carries it over to overlapping calls): it can finish the range, provided that
  one endpoint is healthy, the endpoints find only requests for several blocks too big, the
  database accepts the batches and the semaphore lets at least one fetch through. The measure
  \<open>weight\<close> counts the work left; while some is left a step that decreases it is possible, and
  when none is left a tick saves the rest.
\<close>

section \<open>The work left\<close>

definition width :: "int \<Rightarrow> int \<Rightarrow> nat" where
  "width lo hi = max 1 (nat (hi - lo + 1))"

fun task_weight :: "task \<Rightarrow> nat" where
  "task_weight (Queued lo hi) = 8 * width lo hi - 3"
| "task_weight (Fetching lo hi) = 8 * width lo hi - 4"
| "task_weight (Assembling lo hi ls) = 8 * width lo hi - 5"
| "task_weight (Sending item) = 2"

definition tasks_weight :: "task multiset \<Rightarrow> nat" where
  "tasks_weight ts = sum_mset (image_mset task_weight ts)"

definition weight :: "('s, 'p) process \<Rightarrow> nat" where
  "weight S = tasks_weight (tasks S) + length (datachan (synchronizer S))"

lemma width_pos: "1 \<le> width lo hi"
  by (simp add: width_def)

lemma task_weight_pos: "0 < task_weight t"
proof (cases t)
  case (Queued lo hi)
  then show ?thesis using width_pos [of lo hi] by simp
next
  case (Fetching lo hi)
  then show ?thesis using width_pos [of lo hi] by simp
next
  case (Assembling lo hi ls)
  then show ?thesis using width_pos [of lo hi] by simp
qed simp

lemma tasks_weight_add [simp]:
  "tasks_weight {#} = 0" "tasks_weight (add_mset t ts) = task_weight t + tasks_weight ts"
  "tasks_weight (ts + us) = tasks_weight ts + tasks_weight us"
  by (simp_all add: tasks_weight_def)

lemma tasks_weight_replace:
  assumes "t \<in># ts" "tasks_weight us < task_weight t"
  shows "tasks_weight (ts - {#t#} + us) < tasks_weight ts"
proof -
  from assms(1) obtain vs where "ts = add_mset t vs" by (auto dest: multi_member_split)
  with assms(2) show ?thesis by simp
qed

text \<open>An answer ends a fetch with less work than it had.\<close>

lemma after_fetch_weight:
  assumes "range_ok start e lo hi" "0 \<le> start" "2 * e < max_int"
    and "(\<exists>data. r = Return data) \<or> (r = Fail ErrReqTooBig \<and> lo < hi)"
  shows "\<exists>ts. ended (after_fetch lo hi r) = Some ts \<and> tasks_weight ts < 8 * width lo hi - 5"
  using assms(4)
proof (elim disjE exE conjE)
  fix data
  assume "r = Return data"
  then show ?thesis using width_pos [of lo hi] by (simp add: after_fetch_def ended_def)
next
  assume r: "r = Fail ErrReqTooBig" and lt: "lo < hi"
  let ?m = "midBlock lo hi"
  have "0 \<le> lo" "0 \<le> hi" "2 * hi < max_int" using assms(1-3) by (auto simp: range_ok_def)
  with lt have "?m = (lo + hi) div 2" and g: "go_int (?m + 1) = ?m + 1"
    using midBlock_bounds [of lo hi] by simp_all
  with lt have m: "lo \<le> ?m" "?m < hi" by linarith+
  then have "width lo ?m + width (?m + 1) hi = width lo hi"
    by (simp add: width_def nat_add_distrib [symmetric])
  then show ?thesis
    using r g width_pos [of lo ?m] width_pos [of "?m + 1" hi] by (simp add: after_fetch_def ended_def)
qed

lemma blocks_in_range:
  assumes "chain_ok G C" "mset ls = mset (logs_between C lo hi)" "1 < length (collect_bns ls Map.empty [])"
  shows "lo < hi"
proof -
  let ?bns = "collect_bns ls Map.empty []"
  have bns: "distinct ?bns" "set ?bns = BlockNumber ` set ls"
    using collect_bns_ok [of Map.empty "[]" ls] by simp_all
  have "set ls = set (logs_between C lo hi)" using assms(2) by (metis set_mset_mset)
  then have "int_of_uint64 ` set ?bns \<subseteq> {lo..hi}"
    using assms(1) unfolding bns(2) by (auto simp: set_logs_between chain_ok_def log_ok_def)
  then have "card (int_of_uint64 ` set ?bns) \<le> card {lo..hi}" by (intro card_mono) simp_all
  moreover have "card (int_of_uint64 ` set ?bns) = length ?bns"
    using bns(1) by (simp add: card_image inj_on_def int_of_uint64_inj distinct_card)
  ultimately show ?thesis using assms(3) by simp
qed

text \<open>So do the answers to the two requests, when they are answers or say that more than one block
  is too much. At most two tasks take the place of one.\<close>

lemma ended_size: "ended (after_fetch lo hi r) = Some ts \<Longrightarrow> size ts \<le> 2"
  by (auto simp: ended_def after_fetch_def split: outcome.splits if_splits)

lemma logs_answered_size: "logs_answered lo hi r = Some ts \<Longrightarrow> size ts \<le> 2"
  by (auto simp: logs_answered_def dest: ended_size split: outcome.splits if_splits)

lemma logs_answered_weight:
  assumes "range_ok start e lo hi" "0 \<le> start" "2 * e < max_int"
    and "(\<exists>ls. r = Return ls) \<or> (r = Fail ErrReqTooBig \<and> lo < hi)"
  shows "\<exists>ts. logs_answered lo hi r = Some ts \<and> tasks_weight ts < task_weight (Fetching lo hi)"
proof -
  note fetched = after_fetch_weight [OF assms(1-3)]
  show ?thesis
    using assms(4)
  proof (elim disjE exE conjE)
    fix ls
    assume r: "r = Return ls"
    obtain ts where "ended (after_fetch lo hi (Return Map.empty)) = Some ts" "tasks_weight ts < 8 * width lo hi - 5"
      using fetched [of "Return Map.empty"] by blast
    moreover have "8 * width lo hi - 5 < 8 * width lo hi - 4" using width_pos [of lo hi] by arith
    ultimately show ?thesis using r by (auto simp: logs_answered_def)
  next
    assume r: "r = Fail ErrReqTooBig" and "lo < hi"
    then obtain ts where "ended (after_fetch lo hi (Fail ErrReqTooBig)) = Some ts" "tasks_weight ts < 8 * width lo hi - 5"
      using fetched [of "Fail ErrReqTooBig"] by blast
    with r show ?thesis by (simp add: logs_answered_def)
  qed
qed

lemma batch_answered_weight:
  fixes C :: "'t chain"
  assumes "chain_ok G C" "one_log_per_tx C" "mset ls = mset (logs_between C lo hi)"
    and "range_ok start e lo hi" "0 \<le> start" "2 * e < max_int"
    and "(\<exists>answer. r = Return answer) \<or> (r = Fail ErrReqTooBig \<and> 1 < length (collect_bns ls Map.empty []))"
    and "\<And>blocks txs. r = Return (blocks, txs) \<Longrightarrow> blocks = map (Some \<circ> chain_header C) (collect_bns ls Map.empty []) \<and>
      txs = map (Some \<circ> chain_tx C) (map TxHash ls)"
  shows "\<exists>ts. batch_answered G address lo hi ls r = Some ts \<and> tasks_weight ts < task_weight (Assembling lo hi ls)"
proof -
  let ?r = "obind r (assemble G address ls)"
  have "(\<exists>data. ?r = Return data) \<or> (?r = Fail ErrReqTooBig \<and> lo < hi)"
    using assms(7)
  proof (elim disjE exE conjE)
    fix answer
    assume r: "r = Return answer"
    obtain blocks txs where "answer = (blocks, txs)" by fastforce
    with r assms(8) assemble_ok [OF assms(1-3), of address] show ?thesis by auto
  qed (use blocks_in_range [OF assms(1,3)] in simp)
  from after_fetch_weight [OF assms(4-6) this] show ?thesis by (auto simp: batch_answered_def)
qed

section \<open>Progress\<close>

locale completing = indexer save_data holds last_block A C cfg G start H + answering_balancer A ok
  for save_data :: "'p saver" and holds and last_block and A :: "('s, 't) balancer_api"
    and C :: "'t chain" and cfg :: config and G :: "'t geth" and start :: int and H :: int
    and ok :: "nat \<Rightarrow> 's \<Rightarrow> bool" +
  assumes save_works: "save_data rs n p \<noteq> Fail e'" and concurrent: "0 < cfg_concurrency cfg"
begin

definition works_to :: "('s, 'p) process \<Rightarrow> nat \<Rightarrow> ('s, 'p) process \<Rightarrow> bool" where
  "works_to S n S' \<longleftrightarrow>
     step A G cfg save_data S S' \<and> alive S' \<and> end_block S' = end_block S \<and> weight S' < weight S \<and> ok n (bal S')"

lemma work_replace:
  assumes "step A G cfg save_data S (replace_task t new (S\<lparr>bal := s'\<rparr>))" "alive S" "t \<in># tasks S"
    and "new = Some ts" "tasks_weight ts < task_weight t" "ok n s'"
  shows "\<exists>S'. works_to S n S'"
  using assms tasks_weight_replace [OF assms(3,5)]
  by (intro exI [of _ "replace_task t new (S\<lparr>bal := s'\<rparr>)"]) (simp add: works_to_def replace_task_def weight_def)

lemma work_acquire:
  assumes "alive S" "Queued lo hi \<in># tasks S" "running (tasks S) = 0" "ok (Suc n) (bal S)"
  shows "\<exists>S'. works_to S n S'"
proof -
  have "tasks_weight {#Fetching lo hi#} < task_weight (Queued lo hi)" using width_pos [of lo hi] by simp
  moreover have "int (running (tasks S)) < cfg_concurrency cfg" using assms(3) concurrent by simp
  ultimately show ?thesis
    using work_replace [of S "Queued lo hi" _ "bal S", OF _ assms(1,2) refl _ ok_less [OF assms(4)]]
      acquire [OF assms(1,2), of cfg A G save_data] by simp
qed

lemma work_logs:
  assumes "inv S" "alive S" "Fetching lo hi \<in># tasks S" "ok (Suc n) (bal S)"
  shows "\<exists>S'. works_to S n S'"
proof -
  obtain r s' where l: "api_GetLogs A lo hi (cfg_topic cfg) (bal S) = Some (r, s')" "ok n s'"
    using logs_total [OF assms(4)] by blast
  have ok: "range_ok start (end_block S) lo hi" using inv_task [OF assms(1,3)] by simp
  from logs_answered_weight [OF ok start_nonneg inv_horizon(2) [OF assms(1)] logs_prompt [OF assms(4) l(1)]]
  show ?thesis using work_replace [OF logs [OF assms(2,3) l(1)] assms(2,3) _ _ l(2)] by blast
qed

lemma work_batch:
  assumes "inv S" "alive S" "Assembling lo hi ls \<in># tasks S" "ok (Suc n) (bal S)"
  shows "\<exists>S'. works_to S n S'"
proof -
  let ?bns = "collect_bns ls Map.empty []"
  obtain r s' where l: "api_GetBlocksAndTxs A ?bns (map TxHash ls) (bal S) = Some (r, s')" "ok n s'"
    using batch_total [OF assms(4)] by blast
  have ok: "range_ok start (end_block S) lo hi" "mset ls = mset (logs_between C lo hi)"
    using inv_task [OF assms(1,3)] by simp_all
  have shown: "blocks = map (Some \<circ> chain_header C) ?bns \<and> txs = map (Some \<circ> chain_tx C) (map TxHash ls)"
    if "r = Return (blocks, txs)" for blocks txs
    using batch_honest l(1) that by blast
  from batch_answered_weight [OF chain one_log ok(2,1) start_nonneg inv_horizon(2) [OF assms(1)]
      batch_prompt [OF assms(4) l(1)] shown]
  show ?thesis using work_replace [OF batch [OF assms(2,3) l(1)] assms(2,3) _ _ l(2)] by blast
qed

lemma work_recv:
  assumes "inv S" "alive S" "datachan (synchronizer S) \<noteq> []" "ok (Suc n) (bal S)"
  shows "\<exists>S'. works_to S n S'"
proof -
  have si: "sync_inv holds last_block D start (end_block S) (synchronizer S, database S)"
    using assms(1) by (simp add: inv_def process_inv_def)
  from sync_recv_inv [OF si inv_horizon(1) [OF assms(1)] assms(3)] obtain s' where
    s': "sync_recv (synchronizer S) = Some s'" "datachan s' = tl (datachan (synchronizer S))" by blast
  have "weight (S\<lparr>synchronizer := s'\<rparr>) < weight S" using s'(2) assms(3) by (simp add: weight_def)
  then show ?thesis
    using recv [OF assms(2) s'(1)] assms(2) ok_less [OF assms(4)]
    by (intro exI [of _ "S\<lparr>synchronizer := s'\<rparr>"]) (simp add: works_to_def)
qed

lemma work_send:
  assumes "alive S" "Sending item \<in># tasks S" "datachan (synchronizer S) = []" "ok (Suc n) (bal S)"
  shows "\<exists>S'. works_to S n S'"
proof -
  obtain s' where s': "Add item (synchronizer S) = Some s'" "datachan s' = [item]"
    using assms(3) by (simp add: Add_def datachan_capacity_def)
  let ?S = "replace_task (Sending item) (Some {#}) (S\<lparr>synchronizer := s'\<rparr>)"
  from assms(2) obtain vs where "tasks S = add_mset (Sending item) vs" by (auto dest: multi_member_split)
  then have "weight ?S < weight S" using s'(2) assms(3) by (simp add: weight_def replace_task_def)
  then show ?thesis
    using send [OF assms(1,2) s'(1)] assms(1) ok_less [OF assms(4)]
    by (intro exI [of _ ?S]) (simp add: works_to_def replace_task_def)
qed

lemma progress:
  assumes "inv S" "alive S" "ok (Suc n) (bal S)" "tasks S \<noteq> {#} \<or> datachan (synchronizer S) \<noteq> []"
  shows "\<exists>S'. works_to S n S'"
proof (cases "datachan (synchronizer S) = []")
  case False
  then show ?thesis by (rule work_recv [OF assms(1,2) _ assms(3)])
next
  case True
  show ?thesis
  proof (cases "\<exists>t. t \<in># tasks S \<and> (\<forall>lo hi. t \<noteq> Queued lo hi)")
    case True
    then obtain t where t: "t \<in># tasks S" "\<forall>lo hi. t \<noteq> Queued lo hi" by blast
    show ?thesis
    proof (cases t)
      case (Fetching lo hi)
      with t show ?thesis using work_logs [OF assms(1,2) _ assms(3)] by blast
    next
      case (Assembling lo hi ls)
      with t show ?thesis using work_batch [OF assms(1,2) _ assms(3)] by blast
    next
      case (Sending item)
      with t show ?thesis using work_send [OF assms(2) _ \<open>datachan (synchronizer S) = []\<close> assms(3)] by blast
    qed (use t in blast)
  next
    case False
    from assms(4) True obtain t where t: "t \<in># tasks S" by (auto simp: multiset_nonemptyE)
    with False obtain lo hi where q: "Queued lo hi \<in># tasks S" by blast
    have "filter_mset holds_semaphore (tasks S) = {#}"
      using False by (force simp: filter_mset_eq_conv)
    then have "running (tasks S) = 0" by (simp add: running_def)
    then show ?thesis using work_acquire [OF assms(2) q _ assms(3)] by blast
  qed
qed

text \<open>All the work left can be done.\<close>

lemma work_done:
  assumes "inv S" "alive S" "ok (weight S) (bal S)"
  shows "\<exists>S'. run A G cfg save_data S S' \<and> alive S' \<and> end_block S' = end_block S \<and>
    tasks S' = {#} \<and> datachan (synchronizer S') = []"
  using assms
proof (induction "weight S" arbitrary: S rule: less_induct)
  case less
  show ?case
  proof (cases "tasks S = {#} \<and> datachan (synchronizer S) = []")
    case True
    with less.prems show ?thesis by blast
  next
    case False
    then have "weight S \<noteq> 0"
    proof -
      show ?thesis using False task_weight_pos by (cases "tasks S") (auto simp: weight_def)
    qed
    then obtain n where n: "weight S = Suc n" by (cases "weight S") auto
    from progress [OF less.prems(1,2), of n] less.prems(3) n False
    obtain S1 where w: "works_to S n S1" by auto
    then have s1: "step A G cfg save_data S S1" "alive S1" "end_block S1 = end_block S" "weight S1 < weight S"
      "ok n (bal S1)" by (simp_all add: works_to_def)
    have "ok m (bal S1)" if "m \<le> n" for m
      using that s1(5) by (induction rule: inc_induct) (auto intro: ok_less)
    then have "ok (weight S1) (bal S1)" using s1(4) n by simp
    from less.hyps [OF s1(4) step_inv [OF s1(1) less.prems(1)] s1(2) this] s1(1,3)
    show ?thesis by (metis converse_rtranclp_into_rtranclp)
  qed
qed

lemma completes:
  assumes "inv S" "alive S" "ok (weight S) (bal S)"
  shows "\<exists>S'. run A G cfg save_data S S' \<and> alive S' \<and> end_block S' = end_block S \<and>
    GetCurrBlock (synchronizer S') = end_block S + 1 \<and>
    holds (database S') (records_between D start (end_block S + 1))"
proof -
  from work_done [OF assms] obtain S1 where s1: "run A G cfg save_data S S1" "alive S1"
    "end_block S1 = end_block S" "tasks S1 = {#}" "datachan (synchronizer S1) = []" by blast
  have inv1: "inv S1" by (rule run_inv [OF s1(1) assms(1)])
  then have si: "sync_inv holds last_block D start (end_block S1) (synchronizer S1, database S1)"
    by (simp add: inv_def process_inv_def)
  obtain s' p' where t: "sync_tick save_data (synchronizer S1, database S1) = Some (Return (s', p'))"
    by (rule sync_tick_inv [OF si inv_horizon(1) [OF inv1]])
  from inv_complete [OF inv1 s1(4,5) save_works t] tick [OF s1(2) t, of A G cfg] s1(1-3)
  show ?thesis
    by (intro exI [of _ "S1\<lparr>synchronizer := s', database := p'\<rparr>"]) auto
qed

end

section \<open>The program\<close>

lemma completing_model:
  assumes "bolt_store B view" and "world_ok E C G cfg start H" and "reasonable_limits E"
    and "\<And>rs n p e. SaveData B T rs n p \<noteq> Fail e" and "0 < cfg_concurrency cfg"
  shows "completing (SaveData B T) (holds_records view T) (last_block_saved view) (as_balancer E cfg) C cfg G start H
    (served_by_one E cfg)"
  by (intro completing.intro completing_axioms.intro indexer_model [OF assms(1,2)] answering_balancer_balancer assms)

lemma ref_save_works: "SaveData ref_bolt T rs n p \<noteq> Fail e"
proof -
  have "put_in ref_bolt nm k v tx \<noteq> Fail e'" for nm k v tx e'
    by (auto simp: put_in_def ref_bolt_def split: option.splits)
  then have "fold_outcome (\<lambda>tx r. put_in ref_bolt nm (k r) (v r) tx) tx rs \<noteq> Fail e'" for nm k v tx e' rs
    by (induction rs arbitrary: tx) (auto simp: obind_eq_Fail)
  then show ?thesis
    using \<open>\<And>nm k v tx e'. put_in ref_bolt nm k v tx \<noteq> Fail e'\<close>
    by (simp add: SaveData_def obind_eq_Fail) (simp add: ref_bolt_def obind_eq_Fail)
qed

interpretation finishing: completing "SaveData ref_bolt ref_types" "holds_records ref_view ref_types"
    "last_block_saved ref_view" "as_balancer (chain_eth ref_served 9) ref_config" ref_served ref_config ref_geth 0 9
    "served_by_one (chain_eth ref_served 9) ref_config"
  by (rule completing_model [OF ref.bolt_store_axioms ref_world_ok served_reasonable ref_save_works])
    (simp add: ref_config_def)

section \<open>A finished run, for the witnesses\<close>

definition ref_started :: started where
  "ref_started = \<lparr>sync_from = 0, requested = (0, 4), orchestrated_from = Some 4\<rparr>"

definition ref_process :: "((string, int) bstate, ref_db) process" where
  "ref_process = started_process ref_config ref_started ref_empty (ref_balancer 1 (- 1), 5)"

lemma starts_at_ref: "starts_at ref_started 0 4" "(4 :: int) \<le> 9"
  by (simp_all add: starts_at_def ref_started_def)

abbreviation ref_run :: "((string, int) bstate, ref_db) process \<Rightarrow> ((string, int) bstate, ref_db) process \<Rightarrow> bool" where
  "ref_run \<equiv> run (as_balancer (chain_eth ref_served 9) ref_config) ref_geth ref_config (SaveData ref_bolt ref_types)"

lemma ref_run_start: "ref_run ref_process ref_process"
  by simp

lemma ref_process_end: "end_block ref_process = 4"
  by (simp add: ref_process_def started_process_def ref_started_def)

lemma ref_process_facts:
  "alive ref_process" "served_by_one (chain_eth ref_served 9) ref_config (weight ref_process) (bal ref_process)"
proof -
  have "weight ref_process = 37"
    by (simp add: weight_def ref_process_def started_process_def ref_started_def width_def start_sync_def NewSynchronizer_def)
  then show "served_by_one (chain_eth ref_served 9) ref_config (weight ref_process) (bal ref_process)"
    using served_ref_balancer [of 37] by (simp add: ref_process_def started_process_def max_int_def)
qed (simp add: ref_process_def started_process_def)

lemma ref_process_inv: "model.inv ref_process"
  unfolding ref_process_def using starts_at_ref holds_records_ref_empty by (rule model.inv_started)

lemma ref_run_completes: "\<exists>S. ref_run ref_process S \<and> alive S \<and> GetCurrBlock (synchronizer S) = 5"
  using finishing.completes [OF ref_process_inv ref_process_facts] ref_process_end by auto

lemma ref_run_quiescent:
  "\<exists>S s' p'. ref_run ref_process S \<and> tasks S = {#} \<and> datachan (synchronizer S) = [] \<and> end_block S = 4 \<and>
    sync_tick (SaveData ref_bolt ref_types) (synchronizer S, database S) = Some (Return (s', p'))"
proof -
  from finishing.work_done [OF ref_process_inv ref_process_facts] ref_process_end
  obtain S where S: "ref_run ref_process S" "end_block S = 4" "tasks S = {#}" "datachan (synchronizer S) = []"
    by auto
  have inv: "model.inv S" by (rule model.run_inv [OF S(1) ref_process_inv])
  then have "sync_inv (holds_records ref_view ref_types) (last_block_saved ref_view)
      (chain_records ref_geth (cfg_address ref_config) ref_served) 0 (end_block S) (synchronizer S, database S)"
    by (simp add: model.inv_def process_inv_def)
  from ref.saving.sync_tick_inv [OF this model.inv_horizon(1) [OF inv]] S show ?thesis by metis
qed

section \<open>Properties\<close>

text \<open>When no fetch is left and the channel is empty, the next tick with a working
  database completes the range: everything up to the known end is saved.\<close>

theorem quiescent_tick_completes:
  assumes "bolt_store B view" and "world_ok E C G cfg start H"
    and "starts_at st start e" and "e \<le> H" and "holds_records view T db []"
    and "run (as_balancer E cfg) G cfg (SaveData B T) (started_process cfg st db s) S"
    and "tasks S = {#}" and "datachan (synchronizer S) = []"
    and "\<forall>rs n e'. SaveData B T rs n (database S) \<noteq> Fail e'"
    and "sync_tick (SaveData B T) (synchronizer S, database S) = Some (Return (s', p'))"
  shows "GetCurrBlock s' = end_block S + 1 \<and>
    holds_records view T p' (records_between (chain_records G (cfg_address cfg) C) start (end_block S + 1))"
  using indexer.inv_complete [OF indexer_model [OF assms(1,2)] run_model_inv [OF assms(1-6)] assms(7,8) _ assms(10)]
    assms(9) by blast

theorem quiescent_tick_completes_witness:
  "\<exists>S s' p'. ref_run ref_process S \<and> tasks S = {#} \<and>
    sync_tick (SaveData ref_bolt ref_types) (synchronizer S, database S) = Some (Return (s', p')) \<and> GetCurrBlock s' = 5"
proof -
  obtain S s' p' where S: "ref_run ref_process S" "tasks S = {#}" "datachan (synchronizer S) = []" "end_block S = 4"
    "sync_tick (SaveData ref_bolt ref_types) (synchronizer S, database S) = Some (Return (s', p'))"
    using ref_run_quiescent by blast
  from quiescent_tick_completes [OF ref.bolt_store_axioms ref_world_ok starts_at_ref holds_records_ref_empty
      S(1) [unfolded ref_process_def] S(2,3) _ S(5)] ref_save_works S show ?thesis by auto
qed

text \<open>From every state that the running program reaches it can finish: if one client is
  healthy and has room for the work left, no endpoint finds a single block too big, and the
  database accepts what it is given, then some run saves every block up to the known end.\<close>

theorem range_completes:
  assumes "bolt_store B view" and "world_ok E C G cfg start H" and "reasonable_limits E"
    and "\<forall>rs n p e. SaveData B T rs n p \<noteq> Fail e" and "0 < cfg_concurrency cfg"
    and "starts_at st start e" and "e \<le> H" and "holds_records view T db []"
    and "run (as_balancer E cfg) G cfg (SaveData B T) (started_process cfg st db s) S"
    and "alive S" and "served_by_one E cfg (weight S) (bal S)"
  shows "\<exists>S'. run (as_balancer E cfg) G cfg (SaveData B T) S S' \<and> end_block S' = end_block S \<and>
    GetCurrBlock (synchronizer S') = end_block S + 1 \<and>
    holds_records view T (database S')
      (records_between (chain_records G (cfg_address cfg) C) start (end_block S + 1))"
  using completing.completes [OF completing_model [OF assms(1-3) _ assms(5)]
      run_model_inv [OF assms(1,2,6-9)] assms(10,11)] assms(4)
  by blast

theorem range_completes_witness:
  "\<exists>S. ref_run ref_process S \<and> GetCurrBlock (synchronizer S) = 5"
proof -
  have conc: "0 < cfg_concurrency ref_config" by (simp add: ref_config_def)
  have "\<forall>rs n p e. SaveData ref_bolt ref_types rs n p \<noteq> Fail e" using ref_save_works by blast
  from range_completes [OF ref.bolt_store_axioms ref_world_ok served_reasonable this conc starts_at_ref
      holds_records_ref_empty ref_run_start [unfolded ref_process_def] ref_process_facts [unfolded ref_process_def]]
    ref_process_end
  show ?thesis unfolding ref_process_def by auto
qed

end
