(* ===== verification/Balancer_Calls.thy ===== *)
theory Balancer_Calls
  imports Balancer_Service
begin

text \<open>
  Calls of the balancer that overlap. Every goroutine runs its own \<^verbatim>\<open>handleRounds\<close>; the
  clients and the counter are shared. A call is a point in that code, and its step is one
  access to the shared state: the load of the counter, one section under the mutex, the
  request, the deferred increment, the sleep. A schedule says whose step comes next. The
  theory shows that a call alone is \<open>handleRounds\<close> of the theory \<open>Balancer\<close>, what survives
  every interleaving, and what does not.
\<close>

section \<open>The clients\<close>

text \<open>The clients and their handles; only the deadlines may change.\<close>

definition same_clients :: "'c balancer \<Rightarrow> 'c balancer \<Rightarrow> bool" where
  "same_clients b b' \<longleftrightarrow>
     lenClients b' = lenClients b \<and>
     map ethClient (clients b') = map ethClient (clients b) \<and>
     map url (clients b') = map url (clients b)"

lemma same_clients_refl [simp]: "same_clients b b" "same_clients b (b\<lparr>counter := k\<rparr>)"
  by (simp_all add: same_clients_def)

lemma same_clients_trans: "same_clients b b' \<Longrightarrow> same_clients b' b'' \<Longrightarrow> same_clients b b''"
  by (simp add: same_clients_def)

lemma same_clients_length: "same_clients b b' \<Longrightarrow> length (clients b') = length (clients b)"
  by (metis length_map same_clients_def)

lemma same_clients_bal_ok: "same_clients b b' \<Longrightarrow> bal_ok b \<Longrightarrow> bal_ok b'"
  using same_clients_length [of b b'] by (auto simp: bal_ok_def same_clients_def)

lemma same_clients_set_blocked: "nat i < length (clients b) \<Longrightarrow> same_clients b (set_blocked i t b)"
  by (auto simp: same_clients_def set_blocked_def map_update list_update_same_conv)

section \<open>The points of a call\<close>

text \<open>\<open>Retry\<close> is the head of the loop of \<^verbatim>\<open>handleRetries\<close>; \<open>Attempt\<close>, \<open>Check\<close>,
  \<open>Requesting\<close> and \<open>Counting\<close> are in \<^verbatim>\<open>doRetry\<close>, before the client is read, before
  \<^verbatim>\<open>isBlocked\<close>, before the request, and before the deferred increment; \<open>React\<close> is the
  rest of the body of the loop, \<open>Pause\<close> the sleep of \<^verbatim>\<open>handleRounds\<close>.\<close>

datatype ('c, 't) call_point =
    Round int
  | Retry int int
  | Attempt int int int
  | Check int int int 'c
  | Requesting int int int 'c
  | Counting int int int "'t genericOutput outcome"
  | React int int int "'t genericOutput outcome"
  | Pause int
  | Done "'t genericOutput outcome"

fun call_step :: "('c, 't, 'w) eth_api \<Rightarrow> config \<Rightarrow> genericInput \<Rightarrow> ('c, 't) call_point \<times> ('c, 'w) bstate \<Rightarrow>
    ('c, 't) call_point \<times> ('c, 'w) bstate" where
  "call_step E cfg input (Round rounds, s) =
     (if rounds = cfg_max_rounds cfg then Done (Fail ErrMaxRounds) else Retry rounds 0, s)"
| "call_step E cfg input (Retry rounds retry, s) =
     (if retry < lenClients (fst s) then Attempt rounds retry (client_index (fst s)) else Pause rounds, s)"
| "call_step E cfg input (Attempt rounds retry index, s) =
     (case getEthClient index s of
        (Return eClient, s') \<Rightarrow> (Check rounds retry index eClient, s')
      | (Fail e, s') \<Rightarrow> (React rounds retry index (Fail e), s')
      | (Panic m, s') \<Rightarrow> (React rounds retry index (Panic m), s'))"
| "call_step E cfg input (Check rounds retry index eClient, s) =
     (case isBlocked E index s of
        (Return blocked, s') \<Rightarrow>
          (if blocked then Counting rounds retry index (Fail ErrClientBlocked)
           else Requesting rounds retry index eClient, s')
      | (Fail e, s') \<Rightarrow> (Counting rounds retry index (Fail e), s')
      | (Panic m, s') \<Rightarrow> (Counting rounds retry index (Panic m), s'))"
| "call_step E cfg input (Requesting rounds retry index eClient, s) =
     (case timed_request E cfg input eClient s of (r, s') \<Rightarrow> (Counting rounds retry index r, s'))"
| "call_step E cfg input (Counting rounds retry index r, s) = (React rounds retry index r, bump_counter s)"
| "call_step E cfg input (React rounds retry index r, s) =
     (case after_retry E cfg index r s of
        (Return (Some r'), s') \<Rightarrow> (Done r', s')
      | (Return None, s') \<Rightarrow> (Retry rounds (go_int (retry + 1)), s')
      | (Fail e, s') \<Rightarrow> (Done (Fail e), s')
      | (Panic m, s') \<Rightarrow> (Done (Panic m), s'))"
| "call_step E cfg input (Pause rounds, s) = (Round (go_int (rounds + 1)), sleep E cfg s)"
| "call_step E cfg input (Done r, s) = (Done r, s)"

section \<open>A call alone\<close>

definition gets_to :: "('c, 't, 'w) eth_api \<Rightarrow> config \<Rightarrow> genericInput \<Rightarrow> ('c, 't) call_point \<times> ('c, 'w) bstate \<Rightarrow>
    ('c, 't) call_point \<times> ('c, 'w) bstate \<Rightarrow> bool" where
  "gets_to E cfg input x y \<longleftrightarrow> (\<exists>n. (call_step E cfg input ^^ n) x = y)"

lemma gets_to_refl: "gets_to E cfg input x x"
  by (auto simp: gets_to_def intro: exI [of _ 0])

lemma gets_to_step: "gets_to E cfg input (call_step E cfg input x) y \<Longrightarrow> gets_to E cfg input x y"
  unfolding gets_to_def by (metis comp_apply funpow_Suc_right)

lemma gets_to_trans: "gets_to E cfg input x y \<Longrightarrow> gets_to E cfg input y z \<Longrightarrow> gets_to E cfg input x z"
  unfolding gets_to_def by (metis comp_apply funpow_add)

lemma Done_stays: "(call_step E cfg input ^^ n) (Done r, s) = (Done r, s)"
  by (induction n) simp_all

lemma gets_to_Done_unique:
  assumes "gets_to E cfg input x (Done r, s)" "gets_to E cfg input x (Done r', s')"
  shows "r' = r \<and> s' = s"
proof -
  obtain n m where n: "(call_step E cfg input ^^ n) x = (Done r, s)"
    and m: "(call_step E cfg input ^^ m) x = (Done r', s')"
    using assms by (auto simp: gets_to_def)
  have "(call_step E cfg input ^^ (m + n)) x = (Done r, s)" "(call_step E cfg input ^^ (n + m)) x = (Done r', s')"
    by (simp_all add: funpow_add n m Done_stays)
  then show ?thesis by (simp add: add.commute)
qed

text \<open>An attempt, from the head of the loop to the next one or to the end.\<close>

lemma gets_to_retry:
  assumes "retry < lenClients (fst s)"
  shows "gets_to E cfg input (Retry rounds retry, s)
    (case retry_step E cfg input s of
       (Return (Some r'), s') \<Rightarrow> (Done r', s')
     | (Return None, s') \<Rightarrow> (Retry rounds (go_int (retry + 1)), s')
     | (Fail e, s') \<Rightarrow> (Done (Fail e), s')
     | (Panic m, s') \<Rightarrow> (Done (Panic m), s'))"
proof -
  let ?i = "client_index (fst s)" and ?g = "gets_to E cfg input"
  obtain r s1 where d: "doRetry E cfg input ?i s = (r, s1)" by (rule prod.exhaust)
  have react: "?g (React rounds retry ?i r, s1) (call_step E cfg input (React rounds retry ?i r, s1))"
    by (rule gets_to_step) (rule gets_to_refl)
  have "?g (Attempt rounds retry ?i, s) (React rounds retry ?i r, s1)"
  proof (cases "fst (getEthClient ?i s)")
    case (Return c)
    then have g: "getEthClient ?i s = (Return c, s)" by (simp add: getEthClient_def)
    obtain bl s2 where bl: "isBlocked E ?i s = (bl, s2)" by (rule prod.exhaust)
    from g have ok: "client_at (fst s) ?i \<noteq> Panic m" "client_at (fst s) ?i \<noteq> Fail e" for m e
      by (auto simp: getEthClient_def)
    with bl obtain blocked where blocked: "bl = Return blocked"
      by (auto simp: isBlocked_def split: prod.splits outcome.splits if_splits)
    obtain r' s3 where t: "timed_request E cfg input c s2 = (r', s3)" by (rule prod.exhaust)
    have d': "(r, s1) = (if blocked then (Fail ErrClientBlocked, bump_counter s2) else (r', bump_counter s3))"
      using d g bl blocked t by (cases blocked) (simp_all add: doRetry_def call_bind_def call_lift_def)
    show ?thesis
    proof (cases blocked)
      case True
      with d' have r: "r = Fail ErrClientBlocked" "s1 = bump_counter s2" by simp_all
      show ?thesis
        by (rule gets_to_step, simp add: g, rule gets_to_step, simp add: bl blocked True,
            rule gets_to_step, simp add: r gets_to_refl)
    next
      case False
      with d' have r: "r = r'" "s1 = bump_counter s3" by simp_all
      show ?thesis
        by (rule gets_to_step, simp add: g, rule gets_to_step, simp add: bl blocked False,
            rule gets_to_step, simp add: t, rule gets_to_step, simp add: r gets_to_refl)
    qed
  next
    case (Fail e)
    then have "client_at (fst s) ?i = Fail e" by (auto simp: getEthClient_def obind_eq_Fail)
    then show ?thesis by (simp add: client_at_def split: if_splits)
  next
    case (Panic m)
    then have g: "getEthClient ?i s = (Panic m, s)" by (simp add: getEthClient_def)
    with d have "r = Panic m" "s1 = s" by (simp_all add: doRetry_def call_bind_def)
    then show ?thesis by (intro gets_to_step [of E cfg input "(Attempt rounds retry ?i, s)"]) (simp add: g gets_to_refl)
  qed
  from gets_to_trans [OF this react] have "?g (Attempt rounds retry ?i, s)
      (call_step E cfg input (React rounds retry ?i r, s1))" .
  then show ?thesis
    using assms by (intro gets_to_step [of E cfg input "(Retry rounds retry, s)"]) (simp add: retry_step_def Let_def d)
qed

lemma set_blocked_same [simp]:
  "lenClients (set_blocked i t b) = lenClients b" "counter (set_blocked i t b) = counter b"
  by (simp_all add: set_blocked_def)

lemma client_at_Return: "client_at b i = Return c \<Longrightarrow> nat i < length (clients b)"
  by (auto simp: client_at_def split: if_splits)

lemma retry_step_same_clients: "retry_step E cfg input s = (r, s') \<Longrightarrow> same_clients (fst s) (fst s')"
  by (auto simp: retry_step_def Let_def doRetry_def after_retry_def call_bind_def call_return_def call_lift_def
      getEthClient_def isBlocked_def timed_request_def bump_counter_def temporaryBlock_def indefiniteBlock_def
      dest!: client_at_Return intro!: same_clients_trans [OF same_clients_refl(2) same_clients_set_blocked]
      split: prod.splits outcome.splits if_splits)

lemma retry_step_result: "retry_step E cfg input s = (Return (Some r), s') \<Longrightarrow> r \<noteq> Fail ErrMaxRetries"
  by (auto simp: retry_step_def Let_def after_retry_def call_bind_def call_return_def
      split: prod.splits outcome.splits if_splits)

lemma gets_to_retries:
  assumes "n = nat (lenClients (fst s) - retry)" "0 \<le> retry" "lenClients (fst s) \<le> max_int"
  shows "gets_to E cfg input (Retry rounds retry, s)
    (case retry_loop E cfg input n s of
       (r, s') \<Rightarrow> if r = Fail ErrMaxRetries then (Pause rounds, s') else (Done r, s'))"
  using assms
proof (induction n arbitrary: retry s)
  case 0
  then show ?case by (intro gets_to_step [of E cfg input "(Retry rounds retry, s)"]) (simp add: gets_to_refl)
next
  case (Suc n)
  then have lt: "retry < lenClients (fst s)" by simp
  obtain r s1 where r: "retry_step E cfg input s = (r, s1)" by (rule prod.exhaust)
  have step: "gets_to E cfg input (Retry rounds retry, s)
      (case r of Return (Some r') \<Rightarrow> (Done r', s1) | Return None \<Rightarrow> (Retry rounds (go_int (retry + 1)), s1)
       | Fail e \<Rightarrow> (Done (Fail e), s1) | Panic m \<Rightarrow> (Done (Panic m), s1))"
    using gets_to_retry [OF lt, of E cfg input rounds] by (simp add: r)
  show ?case
  proof (cases "r = Return None")
    case False
    with step r retry_step_no_Fail [of E cfg input s] retry_step_result [of E cfg input s] show ?thesis
      by (auto simp: retry_loop.simps(2) split: outcome.splits option.splits)
  next
    case True
    have "go_int (retry + 1) = retry + 1" using Suc.prems lt by (intro go_int_id) (simp_all add: min_int_def)
    with step True have "gets_to E cfg input (Retry rounds retry, s) (Retry rounds (retry + 1), s1)" by simp
    moreover have "n = nat (lenClients (fst s1) - (retry + 1))" "lenClients (fst s1) \<le> max_int"
      using Suc.prems lt retry_step_same_clients [OF r] by (simp_all add: same_clients_def)
    ultimately show ?thesis
      using Suc.IH [of s1 "retry + 1"] Suc.prems(2) True r
      by (auto simp: retry_loop.simps(2) intro: gets_to_trans)
  qed
qed

lemma retry_loop_same_clients: "retry_loop E cfg input n s = (r, s') \<Longrightarrow> same_clients (fst s) (fst s')"
proof (induction n arbitrary: s)
  case (Suc n)
  obtain q s1 where q: "retry_step E cfg input s = (q, s1)" by (rule prod.exhaust)
  note step = retry_step_same_clients [OF q]
  show ?case
  proof (cases "q = Return None")
    case True
    with Suc.prems q have "retry_loop E cfg input n s1 = (r, s')" by (simp add: retry_loop.simps(2))
    from same_clients_trans [OF step Suc.IH [OF this]] show ?thesis .
  next
    case False
    with Suc.prems q step show ?thesis
      by (auto simp: retry_loop.simps(2) split: outcome.splits option.splits)
  qed
qed simp

text \<open>One round, given that the rounds after it reach their end.\<close>

lemma gets_to_round:
  assumes rest: "\<And>E cfg input rounds s y. loop E cfg input rounds s = Some y \<Longrightarrow>
      lenClients (fst s) \<le> max_int \<longrightarrow> gets_to E cfg input (Round rounds, s) (Done (fst y), snd y)"
    and body: "(if rounds = cfg_max_rounds cfg then Some (Fail ErrMaxRounds, s)
      else case handleRetries E cfg input s of (r, s') \<Rightarrow>
        if r = Fail ErrMaxRetries then loop E cfg input (go_int (rounds + 1)) (sleep E cfg s')
        else Some (r, s')) = Some y"
    and len: "lenClients (fst s) \<le> max_int"
  shows "gets_to E cfg input (Round rounds, s) (Done (fst y), snd y)"
proof (rule gets_to_step, cases "rounds = cfg_max_rounds cfg")
  case True
  with body show "gets_to E cfg input (call_step E cfg input (Round rounds, s)) (Done (fst y), snd y)"
    by (auto simp: gets_to_refl)
next
  case False
  obtain r s1 where r: "handleRetries E cfg input s = (r, s1)" by (rule prod.exhaust)
  have loop: "gets_to E cfg input (Retry rounds 0, s)
      (if r = Fail ErrMaxRetries then (Pause rounds, s1) else (Done r, s1))"
    using gets_to_retries [of "nat (lenClients (fst s))" s 0 E cfg input rounds] len r
    by (simp add: handleRetries_def)
  have "gets_to E cfg input (Pause rounds, s1) (Done (fst y), snd y)" if "r = Fail ErrMaxRetries"
  proof (rule gets_to_step)
    have "lenClients (fst s1) = lenClients (fst s)"
      using r retry_loop_same_clients by (fastforce simp: handleRetries_def same_clients_def)
    then have "lenClients (fst (sleep E cfg s1)) \<le> max_int"
      using len by (cases s1) (simp add: sleep_def)
    with rest body False r that show "gets_to E cfg input (call_step E cfg input (Pause rounds, s1)) (Done (fst y), snd y)"
      by auto
  qed
  with loop body False r show "gets_to E cfg input (call_step E cfg input (Round rounds, s)) (Done (fst y), snd y)"
    by (auto split: if_splits intro: gets_to_trans)
qed

lemma gets_to_rounds:
  assumes "rounds_loop E cfg input rounds s = Some x" "lenClients (fst s) \<le> max_int"
  shows "gets_to E cfg input (Round rounds, s) (Done (fst x), snd x)"
proof -
  have "lenClients (fst s) \<le> max_int \<longrightarrow> gets_to E cfg input (Round rounds, s) (Done (fst y), snd y)"
    if "rounds_loop E cfg input rounds s = Some y" for y
    using that
    by (rule rounds_loop.raw_induct [rotated]) (rule impI, rule gets_to_round)
  with assms show ?thesis by blast
qed

section \<open>Calls that overlap\<close>

text \<open>The calls with their requests and points, and the shared state. A turn of a call that does
  not exist or is done changes nothing.\<close>

type_synonym ('c, 't, 'w) calls = "(genericInput \<times> ('c, 't) call_point) list \<times> ('c, 'w) bstate"

definition turn :: "('c, 't, 'w) eth_api \<Rightarrow> config \<Rightarrow> nat \<Rightarrow> ('c, 't, 'w) calls \<Rightarrow> ('c, 't, 'w) calls" where
  "turn E cfg i x =
     (case x of (cs, s) \<Rightarrow>
        if i < length cs then
          (case cs ! i of (input, p) \<Rightarrow>
             (case call_step E cfg input (p, s) of (p', s') \<Rightarrow> (cs[i := (input, p')], s')))
        else (cs, s))"

definition schedule :: "('c, 't, 'w) eth_api \<Rightarrow> config \<Rightarrow> nat list \<Rightarrow> ('c, 't, 'w) calls \<Rightarrow> ('c, 't, 'w) calls" where
  "schedule E cfg turns x = fold (turn E cfg) turns x"

definition starting :: "genericInput list \<Rightarrow> (genericInput \<times> ('c, 't) call_point) list" where
  "starting inputs = map (\<lambda>input. (input, Round 0)) inputs"

section \<open>What every interleaving keeps\<close>

text \<open>A reply is an answer of some client to this very request, or an error.\<close>

definition reply_ok :: "('c, 't, 'w) eth_api \<Rightarrow> genericInput \<Rightarrow> 't genericOutput outcome \<Rightarrow> bool" where
  "reply_ok E input r \<longleftrightarrow>
     (case r of
        Return out \<Rightarrow> \<exists>c w w'. doGenericReq E input c w = (Return out, w')
      | Fail e \<Rightarrow> True
      | Panic m \<Rightarrow> False)"

text \<open>\<open>n\<close> is the number of clients and \<open>R\<close> the number of rounds.\<close>

fun point_ok :: "('c, 't, 'w) eth_api \<Rightarrow> int \<Rightarrow> int \<Rightarrow> genericInput \<Rightarrow> ('c, 't) call_point \<Rightarrow> bool" where
  "point_ok E R n input (Round rounds) \<longleftrightarrow> 0 \<le> rounds \<and> rounds \<le> R"
| "point_ok E R n input (Retry rounds retry) \<longleftrightarrow> 0 \<le> rounds \<and> rounds < R \<and> 0 \<le> retry \<and> retry \<le> n"
| "point_ok E R n input (Attempt rounds retry index) \<longleftrightarrow>
     0 \<le> rounds \<and> rounds < R \<and> 0 \<le> retry \<and> retry < n \<and> 0 \<le> index \<and> index < n"
| "point_ok E R n input (Check rounds retry index c) \<longleftrightarrow>
     0 \<le> rounds \<and> rounds < R \<and> 0 \<le> retry \<and> retry < n \<and> 0 \<le> index \<and> index < n"
| "point_ok E R n input (Requesting rounds retry index c) \<longleftrightarrow>
     0 \<le> rounds \<and> rounds < R \<and> 0 \<le> retry \<and> retry < n \<and> 0 \<le> index \<and> index < n"
| "point_ok E R n input (Counting rounds retry index r) \<longleftrightarrow>
     0 \<le> rounds \<and> rounds < R \<and> 0 \<le> retry \<and> retry < n \<and> 0 \<le> index \<and> index < n \<and> reply_ok E input r"
| "point_ok E R n input (React rounds retry index r) \<longleftrightarrow>
     0 \<le> rounds \<and> rounds < R \<and> 0 \<le> retry \<and> retry < n \<and> 0 \<le> index \<and> index < n \<and> reply_ok E input r"
| "point_ok E R n input (Pause rounds) \<longleftrightarrow> 0 \<le> rounds \<and> rounds < R"
| "point_ok E R n input (Done r) \<longleftrightarrow> reply_ok E input r \<and> announced r"

text \<open>The attempts that a call still counts.\<close>

fun attempts_left :: "int \<Rightarrow> int \<Rightarrow> ('c, 't) call_point \<Rightarrow> int" where
  "attempts_left R n (Round rounds) = (R - rounds) * n"
| "attempts_left R n (Retry rounds retry) = (R - rounds) * n - retry"
| "attempts_left R n (Attempt rounds retry index) = (R - rounds) * n - retry"
| "attempts_left R n (Check rounds retry index c) = (R - rounds) * n - retry"
| "attempts_left R n (Requesting rounds retry index c) = (R - rounds) * n - retry"
| "attempts_left R n (Counting rounds retry index r) = (R - rounds) * n - retry"
| "attempts_left R n (React rounds retry index r) = (R - rounds) * n - retry - 1"
| "attempts_left R n (Pause rounds) = (R - rounds - 1) * n"
| "attempts_left R n (Done r) = 0"

text \<open>The steps that a call can still make.\<close>

fun steps_left :: "int \<Rightarrow> int \<Rightarrow> ('c, 't) call_point \<Rightarrow> int" where
  "steps_left R n (Round rounds) = (R - rounds) * (6 * n + 3) + 1"
| "steps_left R n (Retry rounds retry) = (R - rounds) * (6 * n + 3) - 6 * retry"
| "steps_left R n (Attempt rounds retry index) = (R - rounds) * (6 * n + 3) - 6 * retry - 1"
| "steps_left R n (Check rounds retry index c) = (R - rounds) * (6 * n + 3) - 6 * retry - 2"
| "steps_left R n (Requesting rounds retry index c) = (R - rounds) * (6 * n + 3) - 6 * retry - 3"
| "steps_left R n (Counting rounds retry index r) = (R - rounds) * (6 * n + 3) - 6 * retry - 4"
| "steps_left R n (React rounds retry index r) = (R - rounds) * (6 * n + 3) - 6 * retry - 5"
| "steps_left R n (Pause rounds) = (R - rounds - 1) * (6 * n + 3) + 2"
| "steps_left R n (Done r) = 0"

fun round_of :: "('c, 't) call_point \<Rightarrow> int" where
  "round_of (Round rounds) = rounds"
| "round_of (Retry rounds retry) = rounds"
| "round_of (Attempt rounds retry index) = rounds"
| "round_of (Check rounds retry index c) = rounds"
| "round_of (Requesting rounds retry index c) = rounds"
| "round_of (Counting rounds retry index r) = rounds"
| "round_of (React rounds retry index r) = rounds"
| "round_of (Pause rounds) = rounds"
| "round_of (Done r) = 0"

fun retry_of :: "('c, 't) call_point \<Rightarrow> int" where
  "retry_of (Retry rounds retry) = retry"
| "retry_of (Attempt rounds retry index) = retry"
| "retry_of (Check rounds retry index c) = retry"
| "retry_of (Requesting rounds retry index c) = retry"
| "retry_of (Counting rounds retry index r) = retry"
| "retry_of (React rounds retry index r) = retry"
| "retry_of _ = 0"

lemma left_bounds:
  assumes "point_ok E R n input p" "0 \<le> n"
  shows "0 \<le> attempts_left R n p" "0 \<le> steps_left R n p" "(\<forall>r. p \<noteq> Done r) \<Longrightarrow> 0 < steps_left R n p"
proof -
  let ?k = "R - round_of p" and ?t = "retry_of p"
  have k: "n \<le> ?k * n" "6 * n + 3 \<le> ?k * (6 * n + 3)" if "round_of p < R"
    using mult_right_mono [of 1 ?k n] mult_right_mono [of 1 ?k "6 * n + 3"] that assms(2)
    by simp_all
  have a: "?t < n \<Longrightarrow> ?t < ?k * n" "?t < n \<Longrightarrow> 6 * ?t + 5 < ?k * (6 * n + 3)"
    "?t \<le> n \<Longrightarrow> ?t \<le> ?k * n" "?t \<le> n \<Longrightarrow> 6 * ?t < ?k * (6 * n + 3)" if "round_of p < R"
    using k [OF that] by linarith+
  have b: "0 \<le> ?k * n" "0 \<le> ?k * (6 * n + 3)" if "round_of p \<le> R"
    using that assms(2) by simp_all
  have c: "0 \<le> (?k - 1) * n" "0 \<le> (?k - 1) * (6 * n + 3)" if "round_of p < R"
    using that assms(2) by simp_all
  show "0 \<le> attempts_left R n p"
    using assms(1) a(1,3) b(1) c(1) by (cases p) auto
  show "0 \<le> steps_left R n p"
    using assms(1) a(2,4) b(2) c(2) by (cases p) auto
  show "0 < steps_left R n p" if "\<forall>r. p \<noteq> Done r"
    using assms(1) that a(2,4) b(2) c(2) by (cases p) auto
qed

lemma after_retry_shared:
  assumes "bal_ok b" "0 \<le> index" "index < lenClients b" "reply_ok E input r"
  obtains r' b' w' where "after_retry E cfg index r (b, w) = (Return r', (b', w'))"
    "same_clients b b'" "counter b' = counter b" "\<And>x. r' = Some x \<Longrightarrow> reply_ok E input x \<and> announced x"
proof -
  have len: "nat index < length (clients b)" "index < int (length (clients b))"
    using assms(1-3) by (auto simp: bal_ok_def)
  then have at: "client_at b index = Return (clients b ! nat index)"
    using assms(2) by (simp add: client_at_def)
  have same: "same_clients b (set_blocked index t b)" for t using len(1) by (rule same_clients_set_blocked)
  obtain now w1 where now: "Now E w = (now, w1)" by fastforce
  have ok: "reply_ok E input (Fail e)" for e by (simp add: reply_ok_def)
  have ann: "announced (Return x)" "announced (Fail ErrReqTooBig)" for x :: "'b genericOutput"
    by (simp_all add: announced_def)
  show ?thesis
  proof (cases r)
    case (Return out)
    then show ?thesis using that [of "Some r" b w] assms(4) ann by (simp add: after_retry_def call_return_def)
  next
    case (Panic m)
    with assms(4) show ?thesis by (simp add: reply_ok_def)
  next
    case (Fail err)
    with that [of None b w] that [of "Some (Fail ErrReqTooBig)" b w]
      that [of None "set_blocked index (now + cfg_block_time cfg) b" w1] that [of None "set_blocked index 0 b" w]
      after_retry_Fail [OF at now, of cfg err] ok ann(2) same
    show ?thesis by (auto split: if_splits)
  qed
qed

lemma call_step_ok:
  assumes "bal_ok b" "0 \<le> count b" "n = lenClients b" "R = cfg_max_rounds cfg" "0 \<le> R" "R \<le> max_int"
    and "0 < R \<Longrightarrow> n \<le> max_int" and "point_ok E R n input p" "count b + attempts_left R n p \<le> max_int"
  obtains p' b' w' where "call_step E cfg input (p, (b, w)) = (p', (b', w'))" "point_ok E R n input p'"
    "same_clients b b'" "count b \<le> count b'" "count b' + attempts_left R n p' \<le> count b + attempts_left R n p"
    "(\<forall>r. p \<noteq> Done r) \<Longrightarrow> steps_left R n p' < steps_left R n p"
proof -
  have n: "n = int (length (clients b))" "0 < n" using assms(1,3) by (auto simp: bal_ok_def)
  have at: "client_at b index = Return (clients b ! nat index)" if "0 \<le> index" "index < n" for index
    using that n by (simp add: client_at_def)
  have go: "go_int (k + 1) = k + 1" if "0 \<le> k" "k < n \<and> 0 < R \<or> k < R" for k
    using that assms(6,7) by (intro go_int_id) (auto simp: min_int_def)
  show ?thesis
  proof (cases p)
    case (Round rounds)
    then show ?thesis
      using that [of "Done (Fail ErrMaxRounds)" b w] that [of "Retry rounds 0" b w] assms n
      by (cases "rounds = R") (auto simp: reply_ok_def announced_def)
  next
    case (Retry rounds retry)
    then show ?thesis
      using that [of "Attempt rounds retry (client_index b)" b w] that [of "Pause rounds" b w] assms n
        client_index_ok [OF assms(1,2)]
      by (cases "retry < n") (auto simp: algebra_simps)
  next
    case (Attempt rounds retry index)
    then show ?thesis
      using that [of "Check rounds retry index (ethClient (clients b ! nat index))" b w] assms at [of index]
      by (simp add: getEthClient_def)
  next
    case (Check rounds retry index c)
    have ok: "reply_ok E input (Fail ErrClientBlocked)" by (simp add: reply_ok_def)
    obtain now w1 where "Now E w = (now, w1)" by fastforce
    then show ?thesis
      using that [of "Counting rounds retry index (Fail ErrClientBlocked)" b w]
        that [of "Counting rounds retry index (Fail ErrClientBlocked)" b w1]
        that [of "Requesting rounds retry index c" b w1] assms at [of index] Check ok
      by (cases "blockedUntil (clients b ! nat index) = 0"; cases "now < blockedUntil (clients b ! nat index)")
        (simp_all add: isBlocked_def)
  next
    case (Requesting rounds retry index c)
    obtain r w1 where r: "doGenericReq E input c w = (r, w1)" by fastforce
    let ?r = "if TimerFirst E (cfg_rpc_timeout cfg) c w then Fail ErrClientTimeout else r"
    have "reply_ok E input ?r"
      using r doGenericReq_no_Panic [of E input c w] by (cases r) (auto simp: reply_ok_def)
    then show ?thesis
      using that [of "Counting rounds retry index ?r" b w1] assms Requesting r
      by (simp add: timed_request_def Let_def)
  next
    case (Counting rounds retry index r)
    have "1 \<le> attempts_left R n p"
      using left_bounds(1) [of E R n input "React rounds retry index r"] assms(8) Counting n by simp
    then have "count (b\<lparr>counter := counter b + 1\<rparr>) = count b + 1"
      using assms(2,9) by (intro count_bump) simp_all
    then show ?thesis
      using that [of "React rounds retry index r" "b\<lparr>counter := counter b + 1\<rparr>" w] assms Counting
      by (simp add: bump_counter_def)
  next
    case (React rounds retry index r)
    with assms(8) have i: "0 \<le> index" "index < lenClients b" "reply_ok E input r" using assms(3) by simp_all
    obtain r' b' w' where a: "after_retry E cfg index r (b, w) = (Return r', (b', w'))"
      "same_clients b b'" "counter b' = counter b" "\<And>x. r' = Some x \<Longrightarrow> reply_ok E input x \<and> announced x"
      by (rule after_retry_shared [OF assms(1) i, of cfg w]) auto
    have left: "0 \<le> attempts_left R n p" "0 < steps_left R n p"
      using left_bounds [OF assms(8)] n React by auto
    show ?thesis
    proof (cases r')
      case None
      then show ?thesis
        using that [of "Retry rounds (retry + 1)" b' w'] a(1-3) assms React go [of retry] by simp
    next
      case (Some x)
      then show ?thesis
        using that [of "Done x" b' w'] a assms React left by simp
    qed
  next
    case (Pause rounds)
    then show ?thesis
      using that [of "Round (rounds + 1)" b "Sleep E (cfg_block_time cfg) w"] assms go [of rounds]
      by (simp add: sleep_def algebra_simps)
  next
    case (Done r)
    then show ?thesis using that [of p b w] assms by simp
  qed
qed

section \<open>The invariant of a schedule\<close>

lemma sum_list_replace:
  fixes xs :: "int list"
  assumes "i < length xs"
  shows "sum_list (xs[i := x]) = sum_list xs - xs ! i + x"
  using assms by (induction xs arbitrary: i) (auto split: nat.split simp: nth_Cons)

lemma nth_le_sum_list:
  fixes xs :: "int list"
  assumes "i < length xs" "\<forall>x \<in> set xs. 0 \<le> x"
  shows "xs ! i \<le> sum_list xs"
  using assms
proof (induction xs arbitrary: i)
  case (Cons x xs)
  moreover have "0 \<le> sum_list xs" using Cons.prems(2) by (intro sum_list_nonneg) simp
  ultimately show ?case by (cases i) fastforce+
qed simp

definition calls_inv :: "('c, 't, 'w) eth_api \<Rightarrow> config \<Rightarrow> 'c balancer \<Rightarrow> genericInput list \<Rightarrow>
    ('c, 't, 'w) calls \<Rightarrow> bool" where
  "calls_inv E cfg b0 inputs x \<longleftrightarrow>
     (case x of (cs, (b, w)) \<Rightarrow>
        map fst cs = inputs \<and> same_clients b0 b \<and> 0 \<le> count b \<and>
        (\<forall>(input, p) \<in> set cs. point_ok E (cfg_max_rounds cfg) (lenClients b0) input p) \<and>
        count b + sum_list (map (attempts_left (cfg_max_rounds cfg) (lenClients b0) \<circ> snd) cs) \<le> max_int)"

lemma turn_ok:
  assumes "calls_inv E cfg b0 inputs (cs, (b, w))" "bal_ok b0" "0 \<le> cfg_max_rounds cfg"
    "cfg_max_rounds cfg \<le> max_int" "0 < cfg_max_rounds cfg \<Longrightarrow> lenClients b0 \<le> max_int" "i < length cs"
  obtains p' b' w' where "turn E cfg i (cs, (b, w)) = (cs[i := (fst (cs ! i), p')], (b', w'))"
    "calls_inv E cfg b0 inputs (cs[i := (fst (cs ! i), p')], (b', w'))"
    "(\<forall>r. snd (cs ! i) \<noteq> Done r) \<Longrightarrow>
      steps_left (cfg_max_rounds cfg) (lenClients b0) p' < steps_left (cfg_max_rounds cfg) (lenClients b0) (snd (cs ! i))"
    "\<exists>r. snd (cs ! i) = Done r \<Longrightarrow> p' = snd (cs ! i)"
proof -
  let ?R = "cfg_max_rounds cfg" and ?n = "lenClients b0"
  let ?f = "attempts_left ?R ?n \<circ> snd"
  obtain input p where ip: "cs ! i = (input, p)" by fastforce
  have n: "0 \<le> ?n" using assms(2) by (simp add: bal_ok_def)
  from assms(1) have inv: "map fst cs = inputs" "same_clients b0 b" "0 \<le> count b"
    "\<forall>(input, p) \<in> set cs. point_ok E ?R ?n input p" "count b + sum_list (map ?f cs) \<le> max_int"
    by (simp_all add: calls_inv_def)
  have p: "point_ok E ?R ?n input p" using inv(4) assms(6) ip by (metis case_prodD nth_mem)
  have "\<forall>x \<in> set (map ?f cs). 0 \<le> x" using inv(4) left_bounds(1) [OF _ n] by fastforce
  with nth_le_sum_list [of i "map ?f cs"] assms(6) ip have le: "attempts_left ?R ?n p \<le> sum_list (map ?f cs)" by simp
  have b: "bal_ok b" "?n = lenClients b"
    using same_clients_bal_ok [OF inv(2) assms(2)] inv(2) by (simp_all add: same_clients_def)
  have room: "count b + attempts_left ?R ?n p \<le> max_int" using le inv(5) by linarith
  obtain p' b' w' where st: "call_step E cfg input (p, (b, w)) = (p', (b', w'))" "point_ok E ?R ?n input p'"
    "same_clients b b'" "count b \<le> count b'" "count b' + attempts_left ?R ?n p' \<le> count b + attempts_left ?R ?n p"
    "(\<forall>r. p \<noteq> Done r) \<Longrightarrow> steps_left ?R ?n p' < steps_left ?R ?n p"
    by (rule call_step_ok [OF b(1) inv(3) b(2) refl assms(3,4,5) p room, of w]) auto
  show ?thesis
  proof (rule that [of p' b' w'])
    show "turn E cfg i (cs, (b, w)) = (cs[i := (fst (cs ! i), p')], (b', w'))"
      using st(1) assms(6) by (simp add: turn_def ip)
    have "sum_list (map ?f (cs[i := (input, p')])) =
        sum_list (map ?f cs) - attempts_left ?R ?n p + attempts_left ?R ?n p'"
      using sum_list_replace [of i "map ?f cs"] assms(6) ip by (simp add: map_update)
    moreover have "map fst (cs[i := (input, p')]) = map fst cs"
      using assms(6) ip by (simp add: map_update list_update_same_conv)
    moreover have "\<forall>(input, p) \<in> set (cs[i := (input, p')]). point_ok E ?R ?n input p"
      using inv(4) st(2) set_update_subset_insert [of cs i] by fastforce
    ultimately show "calls_inv E cfg b0 inputs (cs[i := (fst (cs ! i), p')], (b', w'))"
      using inv st same_clients_trans [OF inv(2) st(3)] by (simp add: calls_inv_def ip)
    show "\<exists>r. snd (cs ! i) = Done r \<Longrightarrow> p' = snd (cs ! i)" using st(1) ip by auto
  qed (use st(6) ip in simp)
qed

text \<open>Enough room in the counter for all calls.\<close>

lemma calls_inv_start:
  assumes "room cfg (length inputs) (b, w)"
  shows "calls_inv E cfg b inputs (starting inputs, (b, w))"
proof -
  have "sum_list (map (attempts_left (cfg_max_rounds cfg) (lenClients b) \<circ> snd)
      (starting inputs :: (genericInput \<times> ('b, 'c) call_point) list)) = int (length inputs) * attempts cfg b"
    by (induction inputs) (simp_all add: starting_def attempts_def algebra_simps)
  with assms show ?thesis
    by (auto simp: calls_inv_def room_def Let_def starting_def comp_def)
qed

lemma room_clients:
  assumes "room cfg n (b, w)" "0 < n" "0 < cfg_max_rounds cfg"
  shows "lenClients b \<le> max_int"
proof -
  have len: "0 \<le> lenClients b" using assms(1) by (simp add: room_def Let_def bal_ok_def)
  have "1 * lenClients b \<le> (int n * cfg_max_rounds cfg) * lenClients b"
    using assms(2,3) len by (intro mult_right_mono) (simp_all add: int_one_le_iff_zero_less)
  with assms(1) show ?thesis by (simp add: room_def Let_def attempts_def mult.assoc)
qed

lemma schedule_ok:
  assumes "room cfg (length inputs) (b, w)"
  shows "calls_inv E cfg b inputs (schedule E cfg turns (starting inputs, (b, w))) \<and>
    (\<forall>i < length inputs.
       nat (steps_left (cfg_max_rounds cfg) (lenClients b)
         (snd (fst (schedule E cfg turns (starting inputs, (b, w))) ! i)))
       \<le> nat (cfg_max_rounds cfg * (6 * lenClients b + 3) + 1) - count_list turns i)"
proof (induction turns rule: rev_induct)
  case Nil
  then show ?case using calls_inv_start [OF assms] by (simp add: schedule_def starting_def)
next
  case (snoc k turns)
  let ?R = "cfg_max_rounds cfg" and ?n = "lenClients b"
  obtain cs b1 w1 where x: "schedule E cfg turns (starting inputs, (b, w)) = (cs, (b1, w1))" by (metis prod.exhaust)
  then have y: "schedule E cfg (turns @ [k]) (starting inputs, (b, w)) = turn E cfg k (cs, (b1, w1))"
    by (simp add: schedule_def)
  from snoc x have inv: "calls_inv E cfg b inputs (cs, (b1, w1))" by simp
  then have len: "length cs = length inputs" by (auto simp: calls_inv_def)
  show ?case
  proof (cases "k < length cs")
    case False
    then show ?thesis using snoc x y len by (auto simp: turn_def)
  next
    case True
    with len have k: "0 < length inputs" by auto
    have ok: "bal_ok b" "0 \<le> ?R" "?R \<le> max_int" using assms by (simp_all add: room_def Let_def)
    obtain p' b' w' where t: "turn E cfg k (cs, (b1, w1)) = (cs[k := (fst (cs ! k), p')], (b', w'))"
      "calls_inv E cfg b inputs (cs[k := (fst (cs ! k), p')], (b', w'))"
      "(\<forall>r. snd (cs ! k) \<noteq> Done r) \<Longrightarrow> steps_left ?R ?n p' < steps_left ?R ?n (snd (cs ! k))"
      "\<exists>r. snd (cs ! k) = Done r \<Longrightarrow> p' = snd (cs ! k)"
      using turn_ok [OF inv ok room_clients [OF assms k] True] by blast
    have "nat (steps_left ?R ?n p') \<le> nat (steps_left ?R ?n (snd (cs ! k))) - 1"
      using t(3,4) by (cases "\<exists>r. snd (cs ! k) = Done r") auto
    with snoc x y t(1,2) len True show ?thesis
      by (auto simp: nth_list_update)
  qed
qed

text \<open>The two models of a call agree: the steps of a call that no other call interrupts reach an
  end exactly with the result and the state that \<^verbatim>\<open>handleRounds\<close> has.\<close>

lemma call_alone_is_handleRounds:
  assumes "ready cfg b"
  shows "gets_to E cfg input (Round 0, (b, w)) (Done r, s) \<longleftrightarrow> handleRounds E cfg input (b, w) = Some (r, s)"
proof -
  have reach: "gets_to E cfg input (Round 0, (b, w)) (Done (fst x), snd x)"
    if x: "handleRounds E cfg input (b, w) = Some x" for x
  proof (cases "cfg_max_rounds cfg = 0")
    case True
    with x have "x = (Fail ErrMaxRounds, (b, w))" by (simp add: handleRounds_def rounds_loop.simps)
    then show ?thesis using True by (intro gets_to_step [of E cfg input "(Round 0, (b, w))"]) (simp add: gets_to_refl)
  next
    case False
    with assms have "room cfg 1 (b, w)" "0 < cfg_max_rounds cfg"
      by (simp_all add: ready_def room_def attempts_def)
    with room_clients [of cfg 1 b w] x show ?thesis
      using gets_to_rounds [of E cfg input 0 "(b, w)" x] by (simp add: handleRounds_def)
  qed
  obtain x where x: "handleRounds E cfg input (b, w) = Some x"
    using handleRounds_ok [OF assms, of E input w] by blast
  with reach gets_to_Done_unique [OF reach [OF x], of r s] show ?thesis
    by (cases x) auto
qed

section \<open>Properties\<close>

text \<open>C14: whatever calls overlap and however their steps interleave, none of them panics, and
  each that ends does so with an answer that some client gave to this very request, or with
  one of the two announced errors; the clients and their handles stay the same.\<close>

theorem interleaved_calls_safe:
  assumes "room cfg (length inputs) (b, w)"
    and "schedule E cfg turns (starting inputs, (b, w)) = (cs, (b', w'))"
    and "i < length inputs" and "cs ! i = (input, Done r)"
  shows "input = inputs ! i \<and>
    ((\<exists>out. r = Return out \<and> answers input out \<and> (\<exists>c v v'. doGenericReq E input c v = (Return out, v'))) \<or>
     r = Fail ErrReqTooBig \<or> r = Fail ErrMaxRounds) \<and>
    map ethClient (clients b') = map ethClient (clients b) \<and> map url (clients b') = map url (clients b)"
proof -
  from schedule_ok [OF assms(1), of E turns] assms(2) have inv: "map fst cs = inputs" "same_clients b b'"
    "\<forall>(input, p) \<in> set cs. point_ok E (cfg_max_rounds cfg) (lenClients b) input p"
    by (simp_all add: calls_inv_def)
  from inv(1) have len: "length cs = length inputs" by auto
  with inv(3) assms(3,4) have ok: "reply_ok E input r" "announced r"
    by (metis case_prodD nth_mem point_ok.simps(9))+
  have "input = inputs ! i" using inv(1) assms(3,4) len by (metis fst_conv nth_map)
  with ok inv(2) show ?thesis
    by (auto simp: reply_ok_def announced_def same_clients_def dest: doGenericReq_answers split: outcome.splits)
qed

text \<open>C15: every call returns, however it is interleaved with others: after
  \<^verbatim>\<open>MAX_ROUNDS * (6 * clients + 3) + 1\<close> turns of its own it is done, whatever the other calls
  and the endpoints do.\<close>

theorem interleaved_calls_return:
  assumes "room cfg (length inputs) (b, w)" and "i < length inputs"
    and "cfg_max_rounds cfg * (6 * lenClients b + 3) + 1 \<le> int (count_list turns i)"
  shows "\<exists>input r. fst (schedule E cfg turns (starting inputs, (b, w))) ! i = (input, Done r)"
proof -
  obtain cs b' w' where x: "schedule E cfg turns (starting inputs, (b, w)) = (cs, (b', w'))" by (metis prod.exhaust)
  from schedule_ok [OF assms(1), of E turns] x
  have inv: "map fst cs = inputs"
    "\<forall>(input, p) \<in> set cs. point_ok E (cfg_max_rounds cfg) (lenClients b) input p"
    and left: "nat (steps_left (cfg_max_rounds cfg) (lenClients b) (snd (cs ! i)))
      \<le> nat (cfg_max_rounds cfg * (6 * lenClients b + 3) + 1) - count_list turns i"
    using assms(2) by (auto simp: calls_inv_def)
  have "i < length cs" using inv(1) assms(2) by auto
  with inv(2) have "point_ok E (cfg_max_rounds cfg) (lenClients b) (fst (cs ! i)) (snd (cs ! i))"
    by (metis case_prod_beta nth_mem)
  moreover have "0 \<le> lenClients b" using assms(1) by (simp add: room_def Let_def bal_ok_def)
  moreover have "steps_left (cfg_max_rounds cfg) (lenClients b) (snd (cs ! i)) \<le> 0" using left assms(3) by linarith
  ultimately have "\<exists>r. snd (cs ! i) = Done r" using left_bounds(3) by fastforce
  with x show ?thesis by (metis fst_conv prod.collapse)
qed

text \<open>Two requests that the endpoint \<open>limited\<close> of the witnesses refuses, the first for its rate and
  the second for good.\<close>

definition logs_request :: genericInput where
  "logs_request = no_request\<lparr>in_logs := Some \<lparr>startBlock = 1, endBlock = 2, topic = ''t''\<rparr>\<rparr>"

definition batch_request :: genericInput where
  "batch_request = no_request\<lparr>in_blockAndTxs := Some \<lparr>blockNumbers = [1], txHashes = [''x'']\<rparr>\<rparr>"

lemma room_ref_calls: "0 \<le> n \<Longrightarrow> n \<le> 1000 \<Longrightarrow> room ref_config n (ref_balancer t u, w)"
  by (simp add: room_def attempts_def ref_balancer_def ref_config_def bal_ok_def int_of_uint64_def max_int_def)

lemma ref_schedule_done:
  "fst (schedule ref_eth ref_config (replicate 7 0 @ replicate 7 1) (starting [logs_request, logs_request], (ref_balancer 1 1, 5))) ! 1
    = (logs_request, Done (Return \<lparr>res_logs = Some [], res_blockAndTxs = None, res_blockTag = None\<rparr>))"
  by code_simp

theorem interleaved_calls_safe_witness:
  "\<exists>turns cs b' w' out. schedule ref_eth ref_config turns (starting [logs_request, logs_request], (ref_balancer 1 1, 5)) =
      (cs, (b', w')) \<and> cs ! 1 = (logs_request, Done (Return out)) \<and> answers logs_request out \<and>
    map ethClient (clients b') = [''limited'', ''good'']"
proof -
  let ?turns = "replicate 7 0 @ replicate 7 1 :: nat list"
  obtain cs b' w' where x: "schedule ref_eth ref_config ?turns (starting [logs_request, logs_request], (ref_balancer 1 1, 5)) =
      (cs, (b', w'))" by (metis prod.exhaust)
  with ref_schedule_done have at: "cs ! 1 =
      (logs_request, Done (Return \<lparr>res_logs = Some [], res_blockAndTxs = None, res_blockTag = None\<rparr>))" by simp
  have "room ref_config (length [logs_request, logs_request]) (ref_balancer 1 1, 5)" by (rule room_ref_calls) simp_all
  from interleaved_calls_safe [OF this x _ at] x at show ?thesis
    by (force simp: ref_balancer_def ref_client_def)
qed

theorem interleaved_calls_return_witness:
  "\<exists>input r. fst (schedule ref_eth ref_config (concat (replicate 46 [0, 1]))
      (starting [logs_request, batch_request], (ref_balancer 1 1, 5))) ! 1 = (input, Done r)"
proof -
  have "room ref_config (length [logs_request, batch_request]) (ref_balancer 1 1, 5)"
    by (rule room_ref_calls) simp_all
  moreover have "count_list (concat (replicate n [0, 1])) (1 :: nat) = n" for n
    by (induction n) simp_all
  ultimately show ?thesis
    using interleaved_calls_return [of ref_config "[logs_request, batch_request]" "ref_balancer 1 1" 5 1
        "concat (replicate 46 [0, 1])" ref_eth]
    by (simp add: ref_config_def ref_balancer_def)
qed

text \<open>C31: a block for good can be undone. If two calls have asked the same client, one with an
  error that blocks it for good and one with a rate limit or a timeout, the later of the two
  reactions decides: when the temporary block comes last, the client is only blocked until
  the end of \<^verbatim>\<open>BLOCK_TIME\<close>.\<close>

theorem indefinite_block_undone:
  assumes "i < length cs" and "j < length cs" and "i \<noteq> j"
    and "cs ! i = (input, React rounds retry index (Fail err))"
    and "cs ! j = (input', React rounds' retry' index (Fail err'))"
    and "err \<noteq> ErrClientTimeout" and "err \<noteq> ErrClientBlocked" and "handleRPCError err \<noteq> ErrRateLimit"
    and "handleRPCError err \<noteq> ErrReqTooBig"
    and "err' = ErrClientTimeout \<or> err' \<noteq> ErrClientBlocked \<and> handleRPCError err' = ErrRateLimit"
    and "0 \<le> index" and "index < int (length (clients b))" and "Now E w = (now, w1)"
  shows "blockedUntil (clients (fst (snd (schedule E cfg [i] (cs, (b, w))))) ! nat index) = 0 \<and>
    blockedUntil (clients (fst (snd (schedule E cfg [i, j] (cs, (b, w))))) ! nat index) = now + cfg_block_time cfg"
proof -
  have n: "nat index < length (clients b)" using assms(11,12) by simp
  have at: "client_at (set_blocked index 0 b) index = Return (clients (set_blocked index 0 b) ! nat index)"
    "client_at b index = Return (clients b ! nat index)"
    using assms(11,12) by (simp_all add: client_at_def set_blocked_def)
  have first: "turn E cfg i (cs, (b, w)) =
      (cs[i := (input, Retry rounds (go_int (retry + 1)))], (set_blocked index 0 b, w))"
    using after_retry_Fail [OF at(2) assms(13), of cfg err] assms(1,4,6-9) by (simp add: turn_def)
  have second: "turn E cfg j (cs[i := (input, Retry rounds (go_int (retry + 1)))], (set_blocked index 0 b, w)) =
      (cs[i := (input, Retry rounds (go_int (retry + 1))), j := (input', Retry rounds' (go_int (retry' + 1)))],
       (set_blocked index (now + cfg_block_time cfg) (set_blocked index 0 b), w1))"
    using after_retry_Fail [OF at(1) assms(13), of cfg err'] assms(1-3,5,10) by (simp add: turn_def)
  show ?thesis
    unfolding schedule_def by (simp add: first second) (simp add: set_blocked_def n)
qed

lemma ref_race:
  "schedule ref_eth ref_config ([0, 0, 1, 1] @ replicate 4 0 @ replicate 4 1)
      (starting [logs_request, batch_request], (ref_balancer 1 1, 5)) =
    ([(logs_request, React 0 0 0 (Fail (Foreign ''429 Too Many Requests'' None))),
      (batch_request, React 0 0 0 (Fail (Foreign ''connection refused'' (Some ''{}''))))],
     ((ref_balancer 1 1)\<lparr>counter := 2\<rparr>, 5))"
  by code_simp

lemma ref_race_errors:
  "handleRPCError (Foreign ''429 Too Many Requests'' None) = ErrRateLimit"
  "handleRPCError (Foreign ''connection refused'' (Some ''{}'')) = Foreign ''connection refused'' (Some ''{}'')"
  by code_simp+

theorem indefinite_block_undone_witness:
  "\<exists>turns x. schedule ref_eth ref_config turns (starting [logs_request, batch_request], (ref_balancer 1 1, 5)) = x \<and>
    blockedUntil (clients (fst (snd (schedule ref_eth ref_config [1] x))) ! 0) = 0 \<and>
    blockedUntil (clients (fst (snd (schedule ref_eth ref_config [1, 0] x))) ! 0) = 5 + 20 * second"
proof -
  let ?cs = "[(logs_request, React 0 0 0 (Fail (Foreign ''429 Too Many Requests'' None))),
      (batch_request, React 0 0 0 (Fail (Foreign ''connection refused'' (Some ''{}''))))]
    :: (genericInput \<times> (string, nat) call_point) list"
  let ?b = "(ref_balancer 1 1)\<lparr>counter := 2\<rparr>"
  have now: "Now ref_eth 5 = (5, 5)" by (simp add: ref_eth_def)
  have "blockedUntil (clients (fst (snd (schedule ref_eth ref_config [1] (?cs, (?b, 5))))) ! 0) = 0 \<and>
      blockedUntil (clients (fst (snd (schedule ref_eth ref_config [1, 0] (?cs, (?b, 5))))) ! 0) =
        5 + cfg_block_time ref_config"
    using indefinite_block_undone [of 1 ?cs 0 batch_request 0 0 0 _ logs_request 0 0 _ ?b ref_eth 5 5 5 ref_config]
      ref_race_errors now
    by (simp add: ref_balancer_def)
  then show ?thesis using ref_race by (metis (no_types, lifting) config.select_convs(1) ref_config_def)
qed

section \<open>How a call is made to miss the healthy clients\<close>

text \<open>What some schedule reaches.\<close>

definition reaches :: "('c, 't, 'w) eth_api \<Rightarrow> config \<Rightarrow> ('c, 't, 'w) calls \<Rightarrow> ('c, 't, 'w) calls \<Rightarrow> bool" where
  "reaches E cfg x y \<longleftrightarrow> (\<exists>turns. schedule E cfg turns x = y)"

lemma reaches_refl: "reaches E cfg x x"
  by (auto simp: reaches_def schedule_def intro: exI [of _ "[]"])

lemma reaches_trans: "reaches E cfg x y \<Longrightarrow> reaches E cfg y z \<Longrightarrow> reaches E cfg x z"
  unfolding reaches_def schedule_def by (metis comp_apply fold_append)

text \<open>A call moves alone when only its own turns are scheduled.\<close>

lemma reaches_call:
  assumes "gets_to E cfg input (p, s) (p', s')" and "i < length cs" and "cs ! i = (input, p)"
  shows "reaches E cfg (cs, s) (cs[i := (input, p')], s')"
proof -
  from assms(1) obtain m where "(call_step E cfg input ^^ m) (p, s) = (p', s')" by (auto simp: gets_to_def)
  moreover have "schedule E cfg (replicate m i) (cs, s) =
      (case (call_step E cfg input ^^ m) (p, s) of (q, u) \<Rightarrow> (cs[i := (input, q)], u))"
  proof (induction m)
    case 0
    then show ?case using assms(2,3) by (simp add: schedule_def) (metis list_update_id)
  next
    case (Suc m)
    obtain q u where q: "(call_step E cfg input ^^ m) (p, s) = (q, u)" by (rule prod.exhaust)
    have "schedule E cfg (replicate (Suc m) i) (cs, s) = turn E cfg i (schedule E cfg (replicate m i) (cs, s))"
      by (simp add: schedule_def replicate_append_same [symmetric] del: replicate.simps)
    also have "\<dots> = turn E cfg i (cs[i := (input, q)], u)" using Suc q by simp
    finally show ?case using assms(2) q by (simp add: turn_def split: prod.split)
  qed
  ultimately show ?thesis unfolding reaches_def by auto
qed

lemma retry_step_blocked:
  assumes "bal_ok b" "0 \<le> count b" "blockedUntil (clients b ! nat (client_index b)) = 0"
  shows "retry_step E cfg input (b, w) = (Return None, (b\<lparr>counter := counter b + 1\<rparr>, w))"
  using doRetry_eq [OF client_index_ok(1,2) [OF assms(1,2)], of E cfg input w] assms(3)
  by (simp add: retry_step_def after_retry_def call_return_def Let_def)

text \<open>The hypotheses: the counter points at a client that is blocked for good, all other
  clients are healthy for the requests of the helpers, and the helpers are as many as there are
  attempts to spoil, with one pass over the other clients for each.\<close>

definition unlucky :: "('c, 't, 'w) eth_api \<Rightarrow> config \<Rightarrow> 'c balancer \<Rightarrow> nat \<Rightarrow> genericInput list \<Rightarrow> bool" where
  "unlucky E cfg b i helpers \<longleftrightarrow>
     (let n = length (clients b); R = nat (cfg_max_rounds cfg) in
      bal_ok b \<and> 0 \<le> count b \<and> nat (client_index b) = i \<and> blockedUntil (clients b ! i) = 0 \<and>
      (\<forall>k < n. k \<noteq> i \<longrightarrow> (\<forall>h \<in> set helpers. healthy E cfg h (clients b ! k))) \<and>
      0 \<le> cfg_max_rounds cfg \<and> cfg_max_rounds cfg \<le> max_int \<and> int n \<le> max_int \<and>
      length helpers = R * n * (n - 1) \<and> count b + int (R * n * n) \<le> max_int)"

text \<open>A state on the way: the victim is at the point \<open>p\<close>, \<open>d\<close> helpers are answered and the
  others have not started, and \<open>a\<close> attempts have been counted.\<close>

definition on_the_way :: "'c balancer \<Rightarrow> genericInput \<Rightarrow> genericInput list \<Rightarrow> ('c, 't) call_point \<Rightarrow> nat \<Rightarrow> nat \<Rightarrow>
    ('c, 't, 'w) calls \<Rightarrow> bool" where
  "on_the_way b input helpers p d a x \<longleftrightarrow>
     (case x of (cs, (b', w)) \<Rightarrow>
        length cs = Suc (length helpers) \<and> cs ! 0 = (input, p) \<and>
        (\<forall>k < length helpers. if k < d
           then \<exists>out. cs ! Suc k = (helpers ! k, Done (Return out)) \<and> answers (helpers ! k) out
           else cs ! Suc k = (helpers ! k, Round 0)) \<and>
        clients b' = clients b \<and> lenClients b' = lenClients b \<and> count b' = count b + int a)"

lemma on_the_way_index:
  assumes "unlucky E cfg b i helpers" and "on_the_way b input helpers p d a (cs, (b', w))"
  shows "bal_ok b'" "0 \<le> count b'" "nat (client_index b') = (i + a) mod length (clients b)"
    "i < length (clients b)" "a < nat (cfg_max_rounds cfg) * length (clients b) * length (clients b) \<Longrightarrow> count b' < max_int"
proof -
  let ?n = "length (clients b)"
  from assms have b: "bal_ok b" "0 \<le> count b" "nat (client_index b) = i" "clients b' = clients b"
    "lenClients b' = lenClients b" "count b' = count b + int a"
    "count b + int (nat (cfg_max_rounds cfg) * ?n * ?n) \<le> max_int"
    by (auto simp: unlucky_def on_the_way_def Let_def simp del: of_nat_mult)
  show b': "bal_ok b'" "0 \<le> count b'" using b(1,2,4-6) by (simp_all add: bal_ok_def)
  have "client_index b' = (count b + int a) mod int ?n" "client_index b = count b mod int ?n"
    using client_index_ok(3) [OF b'] client_index_ok(3) [OF b(1,2)] b(4,6) by simp_all
  moreover have "nat ((count b + int a) mod int ?n) = (nat (count b mod int ?n) + a) mod ?n"
    using b(2) by (simp add: nat_mod_distrib nat_add_distrib mod_simps)
  ultimately show "nat (client_index b') = (i + a) mod ?n" using b(3) by simp
  show "i < ?n" using client_index_ok(1,2) [OF b(1,2)] b(3) by linarith
  show "count b' < max_int" if "a < nat (cfg_max_rounds cfg) * ?n * ?n" using that b(6,7) by linarith
qed

text \<open>The victim moves.\<close>

lemma on_the_way_victim:
  assumes "on_the_way b input helpers p d a (cs, (b1, w1))"
    and "gets_to E cfg input (p, (b1, w1)) (p', (b2, w2))"
    and "clients b2 = clients b1" "lenClients b2 = lenClients b1" "count b2 = count b1 + int e"
  shows "\<exists>y. reaches E cfg (cs, (b1, w1)) y \<and> on_the_way b input helpers p' d (a + e) y"
proof -
  from assms(1) have cs: "cs ! 0 = (input, p)" "0 < length cs" by (auto simp: on_the_way_def)
  have "on_the_way b input helpers p' d (a + e) (cs[0 := (input, p')], (b2, w2))"
    using assms(1,3-5) cs by (simp add: on_the_way_def)
  with reaches_call [OF assms(2) cs(2,1)] show ?thesis by blast
qed

text \<open>A helper runs from its start to its answer.\<close>

lemma on_the_way_helper:
  assumes u: "unlucky E cfg b i helpers" and at: "on_the_way b input helpers p d a (cs, (b1, w1))"
    and d: "d < length helpers" and a: "a < nat (cfg_max_rounds cfg) * length (clients b) * length (clients b)"
    and other: "(i + a) mod length (clients b) \<noteq> i"
  shows "\<exists>y. reaches E cfg (cs, (b1, w1)) y \<and> on_the_way b input helpers p (Suc d) (Suc a) y"
proof -
  note b1 = on_the_way_index [OF u at]
  let ?h = "helpers ! d" and ?b2 = "b1\<lparr>counter := counter b1 + 1\<rparr>"
  from u have R: "cfg_max_rounds cfg \<noteq> 0" using a by auto
  have len: "0 < lenClients b1" using b1(1) by (auto simp: bal_ok_def)
  from at have cl: "clients b1 = clients b" by (simp add: on_the_way_def)
  have "(i + a) mod length (clients b) < length (clients b)"
    using b1(4) by (intro mod_less_divisor) linarith
  with u other d b1(3) have "healthy E cfg ?h (clients b1 ! nat (client_index b1))"
    by (auto simp: unlucky_def Let_def cl)
  from retry_step_healthy [OF b1(1,2) this, of w1] obtain out w2 where
    st: "retry_step E cfg ?h (b1, w1) = (Return (Some (Return out)), (?b2, w2))" by blast
  have "gets_to E cfg ?h (Retry 0 0, (b1, w1)) (Done (Return out), (?b2, w2))"
    using gets_to_retry [of 0 "(b1, w1)" E cfg ?h 0] len st by simp
  then have run: "gets_to E cfg ?h (Round 0, (b1, w1)) (Done (Return out), (?b2, w2))"
    using R by (intro gets_to_step [of E cfg ?h "(Round 0, (b1, w1))"]) simp
  have answers: "answers ?h out"
    by (rule retry_step_ok [OF b1(1,2) b1(5) [OF a], of E cfg ?h w1]) (auto simp: st final_result_def)
  from at d have cs: "cs ! Suc d = (?h, Round 0)" "Suc d < length cs" by (auto simp: on_the_way_def)
  have "on_the_way b input helpers p (Suc d) (Suc a) (cs[Suc d := (?h, Done (Return out))], (?b2, w2))"
    using at cs answers count_bump [OF b1(2) b1(5) [OF a]] by (auto simp: on_the_way_def nth_list_update)
  with reaches_call [OF run cs(2,1)] show ?thesis by blast
qed

text \<open>One pass over the other clients.\<close>

lemma on_the_way_pass:
  assumes u: "unlucky E cfg b i helpers" and at: "on_the_way b input helpers p d (q * length (clients b) + 1) x"
    and "m < length (clients b)" "d + m \<le> length helpers" "q < nat (cfg_max_rounds cfg) * length (clients b)"
  shows "\<exists>y. reaches E cfg x y \<and> on_the_way b input helpers p (d + m) (q * length (clients b) + 1 + m) y"
  using assms(3,4)
proof (induction m)
  case 0
  then show ?case using at reaches_refl by fastforce
next
  case (Suc m)
  let ?n = "length (clients b)" and ?a = "q * length (clients b) + 1 + m"
  from Suc obtain cs b1 w1 where y: "reaches E cfg x (cs, (b1, w1))"
    "on_the_way b input helpers p (d + m) ?a (cs, (b1, w1))" by (auto dest!: Suc_lessD)
  have "Suc q * ?n \<le> nat (cfg_max_rounds cfg) * ?n * ?n" using assms(5) by (intro mult_right_mono) simp_all
  moreover have "?a < Suc q * ?n" using Suc.prems(1) by simp
  ultimately have a: "?a < nat (cfg_max_rounds cfg) * ?n * ?n" by linarith
  have i: "i < ?n" by (rule on_the_way_index(4) [OF u y(2)])
  have "(i + ?a) mod ?n = (i + Suc m) mod ?n"
    using mod_mult_self3 [of q "?n" "i + Suc m"] by (simp add: algebra_simps)
  moreover have "(i + Suc m) mod ?n \<noteq> i"
  proof (cases "i + Suc m < ?n")
    case False
    then have "(i + Suc m) mod ?n = i + Suc m - ?n" using i Suc.prems(1) by (simp add: le_mod_geq)
    then show ?thesis using False Suc.prems(1) by linarith
  qed simp
  ultimately have other: "(i + ?a) mod ?n \<noteq> i" by simp
  have "d + m < length helpers" using Suc.prems(2) by simp
  from on_the_way_helper [OF u y(2) this a other] obtain z where z: "reaches E cfg (cs, (b1, w1)) z"
    "on_the_way b input helpers p (Suc (d + m)) (Suc ?a) z" by blast
  have "Suc (d + m) = d + Suc m" "Suc ?a = q * ?n + 1 + Suc m" by simp_all
  with z reaches_trans [OF y(1) z(1)] show ?case by metis
qed

text \<open>One attempt of the victim, spoiled by a pass of the helpers.\<close>

lemma on_the_way_attempt:
  assumes u: "unlucky E cfg b i helpers" and n: "n = length (clients b)"
    and at: "on_the_way b input helpers (Retry r (int t)) (q * (n - 1)) (q * n) x"
    and t: "t < n" and q: "q < nat (cfg_max_rounds cfg) * n"
  shows "\<exists>y. reaches E cfg x y \<and> on_the_way b input helpers (Retry r (int (Suc t))) (Suc q * (n - 1)) (Suc q * n) y"
proof -
  obtain cs b1 w1 where x: "x = (cs, (b1, w1))" by (metis prod.exhaust)
  note b1 = on_the_way_index [OF u at [unfolded x]]
  let ?b2 = "b1\<lparr>counter := counter b1 + 1\<rparr>"
  have cl: "clients b1 = clients b" "lenClients b1 = int n"
    using at u by (simp_all add: x on_the_way_def unlucky_def Let_def bal_ok_def n)
  have "nat (client_index b1) = i" using b1(3,4) n by simp
  with u cl have "retry_step E cfg input (b1, w1) = (Return None, (?b2, w1))"
    by (intro retry_step_blocked [OF b1(1,2)]) (simp add: unlucky_def Let_def)
  moreover have "go_int (int t + 1) = int (Suc t)"
    using u t n by (subst go_int_id) (auto simp: unlucky_def Let_def min_int_def)
  ultimately have run: "gets_to E cfg input (Retry r (int t), (b1, w1)) (Retry r (int (Suc t)), (?b2, w1))"
    using gets_to_retry [of "int t" "(b1, w1)" E cfg input r] t cl by simp
  have "Suc q * n \<le> nat (cfg_max_rounds cfg) * n * n" using q by (intro mult_right_mono) simp_all
  then have "q * n < nat (cfg_max_rounds cfg) * n * n" using t by (simp only: mult_Suc)
  then have "count b1 < max_int" using b1(5) n by simp
  with count_bump [OF b1(2)] on_the_way_victim [OF at [unfolded x] run, of 1]
  obtain y where y: "reaches E cfg x y" "on_the_way b input helpers (Retry r (int (Suc t))) (q * (n - 1)) (q * n + 1) y"
    by (auto simp: x)
  have "Suc q * (n - 1) \<le> nat (cfg_max_rounds cfg) * n * (n - 1)" using q by (intro mult_right_mono) simp_all
  then have "q * (n - 1) + (n - 1) \<le> length helpers" using u n by (simp add: unlucky_def Let_def)
  moreover have "n - 1 < length (clients b)" using t n by simp
  ultimately obtain z where z: "reaches E cfg y z"
    "on_the_way b input helpers (Retry r (int (Suc t))) (q * (n - 1) + (n - 1)) (q * n + 1 + (n - 1)) z"
    using on_the_way_pass [OF u y(2) [unfolded n]] q unfolding n by blast
  have "q * (n - 1) + (n - 1) = Suc q * (n - 1)" "q * n + 1 + (n - 1) = Suc q * n" using t by simp_all
  with z reaches_trans [OF y(1) z(1)] show ?thesis by metis
qed

lemma on_the_way_attempts:
  assumes u: "unlucky E cfg b i helpers" and n: "n = length (clients b)"
    and at: "on_the_way b input helpers (Retry (int r) 0) (r * n * (n - 1)) (r * n * n) x"
    and r: "r < nat (cfg_max_rounds cfg)" and t: "t \<le> n"
  shows "\<exists>y. reaches E cfg x y \<and>
    on_the_way b input helpers (Retry (int r) (int t)) ((r * n + t) * (n - 1)) ((r * n + t) * n) y"
  using t
proof (induction t)
  case 0
  then show ?case using at reaches_refl by fastforce
next
  case (Suc t)
  then obtain y where y: "reaches E cfg x y"
    "on_the_way b input helpers (Retry (int r) (int t)) ((r * n + t) * (n - 1)) ((r * n + t) * n) y" by auto
  have "Suc r * n \<le> nat (cfg_max_rounds cfg) * n" using r by (intro mult_right_mono) simp_all
  then have "r * n + t < nat (cfg_max_rounds cfg) * n" using Suc.prems by simp
  from on_the_way_attempt [OF u n y(2) _ this] Suc.prems obtain z where z: "reaches E cfg y z"
    "on_the_way b input helpers (Retry (int r) (int (Suc t))) (Suc (r * n + t) * (n - 1)) (Suc (r * n + t) * n) z"
    by (metis Suc_le_lessD)
  have "Suc (r * n + t) = r * n + Suc t" by simp
  with z reaches_trans [OF y(1) z(1)] show ?case by metis
qed

lemma on_the_way_rounds:
  assumes u: "unlucky E cfg b i helpers" and n: "n = length (clients b)"
    and at: "on_the_way b input helpers (Round 0) 0 0 x" and r: "r \<le> nat (cfg_max_rounds cfg)"
  shows "\<exists>y. reaches E cfg x y \<and> on_the_way b input helpers (Round (int r)) (r * n * (n - 1)) (r * n * n) y"
  using r
proof (induction r)
  case 0
  then show ?case using at reaches_refl by fastforce
next
  case (Suc r)
  have R: "cfg_max_rounds cfg \<le> max_int" "0 \<le> cfg_max_rounds cfg" using u by (simp_all add: unlucky_def Let_def)
  have r: "int r < cfg_max_rounds cfg" using Suc.prems by linarith
  from Suc obtain cs b1 w1 where y: "reaches E cfg x (cs, (b1, w1))"
    "on_the_way b input helpers (Round (int r)) (r * n * (n - 1)) (r * n * n) (cs, (b1, w1))"
    by (auto dest!: Suc_leD)
  have "gets_to E cfg input (Round (int r), (b1, w1)) (Retry (int r) 0, (b1, w1))"
    using r by (intro gets_to_step [of E cfg input "(Round (int r), (b1, w1))"]) (simp add: gets_to_refl)
  from on_the_way_victim [OF y(2) this, of 0] obtain y1 where y1: "reaches E cfg (cs, (b1, w1)) y1"
    "on_the_way b input helpers (Retry (int r) 0) (r * n * (n - 1)) (r * n * n) y1" by auto
  from on_the_way_attempts [OF u n y1(2), of n] Suc.prems obtain cs2 b2 w2 where y2: "reaches E cfg y1 (cs2, (b2, w2))"
    "on_the_way b input helpers (Retry (int r) (int n)) ((r * n + n) * (n - 1)) ((r * n + n) * n) (cs2, (b2, w2))"
    by auto
  have "lenClients b2 = int n" using y2(2) u n by (simp add: on_the_way_def unlucky_def Let_def bal_ok_def)
  moreover have "go_int (int r + 1) = int (Suc r)"
    using R r by (subst go_int_id) (auto simp: min_int_def)
  ultimately have "gets_to E cfg input (Retry (int r) (int n), (b2, w2))
      (Round (int (Suc r)), (b2, Sleep E (cfg_block_time cfg) w2))"
    by (intro gets_to_step [of E cfg input "(Retry (int r) (int n), (b2, w2))"], simp,
        intro gets_to_step [of E cfg input "(Pause (int r), (b2, w2))"]) (simp add: gets_to_refl sleep_def)
  from on_the_way_victim [OF y2(2) this, of 0] obtain y3 where y3: "reaches E cfg (cs2, (b2, w2)) y3"
    "on_the_way b input helpers (Round (int (Suc r))) ((r * n + n) * (n - 1)) ((r * n + n) * n) y3" by auto
  have "(r * n + n) * (n - 1) = Suc r * n * (n - 1)" "(r * n + n) * n = Suc r * n * n" by (simp_all add: algebra_simps)
  with y3(2) reaches_trans [OF reaches_trans [OF reaches_trans [OF y(1) y1(1)] y2(1)] y3(1)] show ?case
    by (metis of_nat_Suc)
qed

text \<open>C16: a call can miss a healthy client. The counter that picks the client is shared: when
  other calls take their turns between any two attempts of a call, all its attempts go to the
  same client. Whatever the number of endpoints \<open>n\<close> and of rounds \<open>R\<close>: if the counter points at a
  client that is blocked for good and all others answer the requests of the other calls in
  time, then \<open>R * n * (n - 1)\<close> other calls are enough for the first one to end with
  \<^verbatim>\<open>ErrMaxRounds\<close> (which makes a fetch panic) without having asked any client, while every
  other call is answered and no client has changed. That the others would have answered the
  first call as well does not help it.\<close>

theorem healthy_client_missed:
  assumes "bal_ok b" and "0 \<le> count b" and "n = length (clients b)" and "i < n"
    and "count b mod int n = int i" and "blockedUntil (clients b ! i) = 0"
    and "\<forall>k < n. k \<noteq> i \<longrightarrow> (\<forall>h \<in> set helpers. healthy E cfg h (clients b ! k))"
    and "cfg_max_rounds cfg = int R" and "cfg_max_rounds cfg \<le> max_int" and "int n \<le> max_int"
    and "length helpers = R * n * (n - 1)" and "count b + int (R * n * n) \<le> max_int"
  shows "\<exists>turns cs b' w'. schedule E cfg turns (starting (input # helpers), (b, w)) = (cs, (b', w')) \<and>
    cs ! 0 = (input, Done (Fail ErrMaxRounds)) \<and>
    (\<forall>k < length helpers. \<exists>out. cs ! Suc k = (helpers ! k, Done (Return out)) \<and> answers (helpers ! k) out) \<and>
    clients b' = clients b"
proof -
  have "nat (client_index b) = i" using client_index_ok(3) [OF assms(1,2)] assms(3,5) by simp
  with assms have u: "unlucky E cfg b i helpers" by (simp add: unlucky_def Let_def)
  have "on_the_way b input helpers (Round 0) 0 0 (starting (input # helpers), (b, w))"
    by (simp add: on_the_way_def starting_def)
  from on_the_way_rounds [OF u assms(3) this, of R] assms(8) obtain cs b1 w1 where
    y: "reaches E cfg (starting (input # helpers), (b, w)) (cs, (b1, w1))"
    "on_the_way b input helpers (Round (int R)) (R * n * (n - 1)) (R * n * n) (cs, (b1, w1))" by auto
  have "gets_to E cfg input (Round (int R), (b1, w1)) (Done (Fail ErrMaxRounds), (b1, w1))"
    using assms(8) by (intro gets_to_step [of E cfg input "(Round (int R), (b1, w1))"]) (simp add: gets_to_refl)
  from on_the_way_victim [OF y(2) this, of 0] obtain cs2 b2 w2 where
    z: "reaches E cfg (cs, (b1, w1)) (cs2, (b2, w2))"
    "on_the_way b input helpers (Done (Fail ErrMaxRounds)) (length helpers) (R * n * n) (cs2, (b2, w2))"
    using assms(11) by auto
  from reaches_trans [OF y(1) z(1)] z(2) show ?thesis
    by (auto simp: reaches_def on_the_way_def)
qed

text \<open>Two endpoints of which the first is blocked for good, three rounds, and six other calls;
  the other endpoint would have answered the first call too.\<close>

theorem healthy_client_missed_witness:
  "healthy started_eth ref_config logs_request (clients (ref_balancer 0 1) ! 1) \<and>
   (\<exists>turns cs b' w'. schedule started_eth ref_config turns
      (starting (logs_request # replicate 6 logs_request), (ref_balancer 0 1, 5)) = (cs, (b', w')) \<and>
    cs ! 0 = (logs_request, Done (Fail ErrMaxRounds)) \<and> (\<exists>out. cs ! 6 = (logs_request, Done (Return out))))"
proof -
  let ?b = "ref_balancer 0 1"
  have h: "healthy started_eth ref_config logs_request (clients ?b ! 1)"
    by (simp add: healthy_def started_eth_def ref_eth_def ref_client_def ref_balancer_def doGenericReq_def getLogs_def
        logs_request_def no_request_def second_def)
  have "bal_ok ?b" "0 \<le> count ?b" "count ?b mod int 2 = int 0" "blockedUntil (clients ?b ! 0) = 0"
    "count ?b + int (3 * 2 * 2) \<le> max_int" "length (clients ?b) = 2"
    by (simp_all add: ref_balancer_def ref_client_def bal_ok_def int_of_uint64_def max_int_def)
  with healthy_client_missed [of ?b 2 0 "replicate 6 logs_request" started_eth ref_config 3 logs_request 5] h
  have "\<exists>turns cs b' w'. schedule started_eth ref_config turns
      (starting (logs_request # replicate 6 logs_request), (?b, 5)) = (cs, (b', w')) \<and>
    cs ! 0 = (logs_request, Done (Fail ErrMaxRounds)) \<and>
    (\<forall>k < 6. \<exists>out. cs ! Suc k = (replicate 6 logs_request ! k, Done (Return out)) \<and>
       answers (replicate 6 logs_request ! k) out)"
    by (fastforce simp: ref_config_def max_int_def less_2_cases_iff)
  then obtain turns cs b' w' where x: "schedule started_eth ref_config turns
      (starting (logs_request # replicate 6 logs_request), (?b, 5)) = (cs, (b', w'))"
    "cs ! 0 = (logs_request, Done (Fail ErrMaxRounds))"
    "\<forall>k < 6. \<exists>out. cs ! Suc k = (replicate 6 logs_request ! k, Done (Return out)) \<and>
       answers (replicate 6 logs_request ! k) out" by blast
  from x(3) [rule_format, of 5] have "\<exists>out. cs ! 6 = (logs_request, Done (Return out))" by auto
  with h x(1,2) show ?thesis by blast
qed

end
