(* ===== verification/Interleaved.thy ===== *)
theory Interleaved
  imports Completion Balancer_Calls
begin

text \<open>
  The running program with calls of the balancer that overlap. The process of the theory
  \<open>Indexer\<close> makes a whole call of the balancer in one step; here every fetch, and the
  orchestrator, is somewhere in its own call, and any of them may make the next step on the
  shared clients and the shared counter. The first action of the synchronizer's goroutine is a
  step of its own as well, and \<^verbatim>\<open>save\<close> is two: its transaction, and then its counters, so that the
  orchestrator and the handlers may read a counter that is behind the database. Each step of this system is a step of the process, or none, when the
  process gets the same answers from its balancer (\<open>scripted\<close>); so the invariant of the process
  holds here.
\<close>

section \<open>The system\<close>

text \<open>A job is a task with the point its call is at. \<open>sem_held\<close> is the weight of the semaphore that
  is taken: \<^verbatim>\<open>Acquire\<close> takes 1 as soon as the capacity \<^verbatim>\<open>CONCURRENCY\<close> is not exhausted, and the
  deferred \<^verbatim>\<open>Release\<close> gives 1 back when \<^verbatim>\<open>fetchData\<close> returns. \<open>starting_at\<close> is the start block that
  \<^verbatim>\<open>Start\<close> has still to add to its counter; \<open>committed\<close> is the batch that is in the database but
  not counted yet; \<open>tag_call\<close> is the call of the orchestrator with
  the current block it has read before.\<close>

record ('c, 't, 'w, 'p) system =
  jobs :: "(task \<times> ('c, 't) call_point) multiset"
  sem_held :: int
  sys_sync :: sync
  starting_at :: "int option"
  committed :: "saved option"
  sys_db :: 'p
  shared :: "('c, 'w) bstate"
  sys_end :: int
  sys_cycling :: bool
  tag_call :: "(int \<times> ('c, 't) call_point) option"
  sys_alive :: bool

definition request_of :: "config \<Rightarrow> task \<Rightarrow> genericInput option" where
  "request_of cfg t =
     (case t of
        Fetching lo hi \<Rightarrow>
          Some (no_request\<lparr>in_logs := Some \<lparr>startBlock = lo, endBlock = hi, topic = cfg_topic cfg\<rparr>\<rparr>)
      | Assembling lo hi ls \<Rightarrow>
          Some (no_request\<lparr>in_blockAndTxs := Some
            \<lparr>blockNumbers = collect_bns ls Map.empty [], txHashes = map TxHash ls\<rparr>\<rparr>)
      | _ \<Rightarrow> None)"

definition tag_request :: "config \<Rightarrow> genericInput" where
  "tag_request cfg = no_request\<lparr>in_blockTag := Some (cfg_block_tag cfg)\<rparr>"

text \<open>What \<^verbatim>\<open>GetLogs\<close>, \<^verbatim>\<open>GetBlockFromTag\<close> and \<^verbatim>\<open>GetBlocksAndTxs\<close> return of the result of a call.\<close>

definition logs_of :: "'t genericOutput outcome \<Rightarrow> log list outcome" where
  "logs_of r = obind r (\<lambda>output. deref (res_logs output))"

definition tag_of :: "'t genericOutput outcome \<Rightarrow> int outcome" where
  "tag_of r = obind r (\<lambda>output. deref (res_blockTag output))"

definition batch_of :: "'t genericOutput outcome \<Rightarrow> (header option list \<times> 't option list) outcome" where
  "batch_of r = obind r (\<lambda>output.
     obind (deref (res_blockAndTxs output)) (\<lambda>out. Return (out_blocks out, out_txs out)))"

definition new_jobs :: "task multiset \<Rightarrow> (task \<times> ('c, 't) call_point) multiset" where
  "new_jobs ts = image_mset (\<lambda>t. (t, Round 0)) ts"

definition replace_job :: "task \<times> ('c, 't) call_point \<Rightarrow> task multiset option \<Rightarrow>
    ('c, 't, 'w, 'p) system \<Rightarrow> ('c, 't, 'w, 'p) system" where
  "replace_job j new S =
     (case new of
        None \<Rightarrow> S\<lparr>sys_alive := False\<rparr>
      | Some ts \<Rightarrow> S\<lparr>jobs := jobs S - {#j#} + new_jobs ts\<rparr>)"

text \<open>\<^verbatim>\<open>fetchData\<close> returns after its first request when there is no log, or on an error.\<close>

definition data_returned :: "log list outcome \<Rightarrow> bool" where
  "data_returned r = (case r of Return logs \<Rightarrow> logs = [] | _ \<Rightarrow> True)"

definition tasks_of :: "('c, 't, 'w, 'p) system \<Rightarrow> task multiset" where
  "tasks_of S = image_mset fst (jobs S)"

inductive system_step :: "('c, 't, 'w) eth_api \<Rightarrow> 't geth \<Rightarrow> config \<Rightarrow> 'p saver \<Rightarrow>
    ('c, 't, 'w, 'p) system \<Rightarrow> ('c, 't, 'w, 'p) system \<Rightarrow> bool"
  for E :: "('c, 't, 'w) eth_api" and G :: "'t geth" and cfg :: config and save_data :: "'p saver" where
  acquire: "sys_alive S \<Longrightarrow> (Queued lo hi, p) \<in># jobs S \<Longrightarrow> sem_held S < cfg_concurrency cfg \<Longrightarrow>
    system_step E G cfg save_data S
      (replace_job (Queued lo hi, p) (Some {#Fetching lo hi#}) (S\<lparr>sem_held := sem_held S + 1\<rparr>))"
| call: "sys_alive S \<Longrightarrow> (t, p) \<in># jobs S \<Longrightarrow> request_of cfg t = Some input \<Longrightarrow>
    call_step E cfg input (p, shared S) = (p', s') \<Longrightarrow>
    system_step E G cfg save_data S (S\<lparr>jobs := jobs S - {#(t, p)#} + {#(t, p')#}, shared := s'\<rparr>)"
| logs: "sys_alive S \<Longrightarrow> (Fetching lo hi, Done r) \<in># jobs S \<Longrightarrow>
    system_step E G cfg save_data S
      (replace_job (Fetching lo hi, Done r) (logs_answered lo hi (logs_of r))
        (S\<lparr>sem_held := sem_held S - (if data_returned (logs_of r) then 1 else 0)\<rparr>))"
| batch: "sys_alive S \<Longrightarrow> (Assembling lo hi ls, Done r) \<in># jobs S \<Longrightarrow>
    system_step E G cfg save_data S
      (replace_job (Assembling lo hi ls, Done r) (batch_answered G (cfg_address cfg) lo hi ls (batch_of r))
        (S\<lparr>sem_held := sem_held S - 1\<rparr>))"
| send: "sys_alive S \<Longrightarrow> (Sending item, p) \<in># jobs S \<Longrightarrow> Add item (sys_sync S) = Some s' \<Longrightarrow>
    system_step E G cfg save_data S (replace_job (Sending item, p) (Some {#}) (S\<lparr>sys_sync := s'\<rparr>))"
| start: "sys_alive S \<Longrightarrow> starting_at S = Some b \<Longrightarrow>
    system_step E G cfg save_data S (S\<lparr>sys_sync := start_sync b (sys_sync S), starting_at := None\<rparr>)"
| recv: "sys_alive S \<Longrightarrow> starting_at S = None \<Longrightarrow> committed S = None \<Longrightarrow> sync_recv (sys_sync S) = Some s' \<Longrightarrow>
    system_step E G cfg save_data S (S\<lparr>sys_sync := s'\<rparr>)"
| tick: "sys_alive S \<Longrightarrow> starting_at S = None \<Longrightarrow> committed S = None \<Longrightarrow>
    commit save_data (sys_sync S) (sys_db S) = Some (Return (a, p')) \<Longrightarrow>
    system_step E G cfg save_data S (S\<lparr>sys_db := p', committed := a\<rparr>)"
| tick_panic: "sys_alive S \<Longrightarrow> starting_at S = None \<Longrightarrow> committed S = None \<Longrightarrow>
    commit save_data (sys_sync S) (sys_db S) = Some (Panic m) \<Longrightarrow>
    system_step E G cfg save_data S (S\<lparr>sys_alive := False\<rparr>)"
| advance: "sys_alive S \<Longrightarrow> committed S = Some a \<Longrightarrow>
    system_step E G cfg save_data S (S\<lparr>sys_sync := advance a (sys_sync S), committed := None\<rparr>)"
| ask: "sys_alive S \<Longrightarrow> sys_cycling S \<Longrightarrow> tag_call S = None \<Longrightarrow> sys_end S < GetCurrBlock (sys_sync S) \<Longrightarrow>
    system_step E G cfg save_data S (S\<lparr>tag_call := Some (GetCurrBlock (sys_sync S), Round 0)\<rparr>)"
| tag_turn: "sys_alive S \<Longrightarrow> tag_call S = Some (b, p) \<Longrightarrow>
    call_step E cfg (tag_request cfg) (p, shared S) = (p', s') \<Longrightarrow>
    system_step E G cfg save_data S (S\<lparr>tag_call := Some (b, p'), shared := s'\<rparr>)"
| cycle: "sys_alive S \<Longrightarrow> tag_call S = Some (b, Done r) \<Longrightarrow>
    after_tag (sys_end S) b (tag_of r) = Return (e, req) \<Longrightarrow>
    system_step E G cfg save_data S
      (S\<lparr>jobs := jobs S + new_jobs (requested_task req), sys_end := e, tag_call := None\<rparr>)"
| cycle_panic: "sys_alive S \<Longrightarrow> tag_call S = Some (b, Done r) \<Longrightarrow>
    after_tag (sys_end S) b (tag_of r) = Panic m \<Longrightarrow>
    system_step E G cfg save_data S (S\<lparr>sys_alive := False\<rparr>)"

abbreviation system_run :: "('c, 't, 'w) eth_api \<Rightarrow> 't geth \<Rightarrow> config \<Rightarrow> 'p saver \<Rightarrow>
    ('c, 't, 'w, 'p) system \<Rightarrow> ('c, 't, 'w, 'p) system \<Rightarrow> bool" where
  "system_run E G cfg save_data \<equiv> (system_step E G cfg save_data)\<^sup>*\<^sup>*"

text \<open>The state in which \<^verbatim>\<open>StartOrchestrator\<close> returns: no goroutine has made a step.\<close>

definition started_system :: "started \<Rightarrow> 'p \<Rightarrow> ('c, 'w) bstate \<Rightarrow> ('c, 't, 'w, 'p) system" where
  "started_system st db s =
     \<lparr>jobs = new_jobs {#Queued (fst (requested st)) (snd (requested st))#}, sem_held = 0,
      sys_sync = NewSynchronizer, starting_at = Some (sync_from st), committed = None, sys_db = db, shared = s,
      sys_end = (case orchestrated_from st of None \<Rightarrow> snd (requested st) | Some e \<Rightarrow> e),
      sys_cycling = (orchestrated_from st \<noteq> None), tag_call = None, sys_alive = True\<rparr>"

section \<open>The answers of a call\<close>

definition given :: "('c, 't, 'w) eth_api \<Rightarrow> genericInput \<Rightarrow> 't genericOutput outcome \<Rightarrow> bool" where
  "given E input r \<longleftrightarrow> (\<forall>out. r = Return out \<longrightarrow> (\<exists>c v v'. doGenericReq E input c v = (Return out, v')))"

fun given_at :: "('c, 't, 'w) eth_api \<Rightarrow> genericInput \<Rightarrow> ('c, 't) call_point \<Rightarrow> bool" where
  "given_at E input (Counting rounds retry index r) = given E input r"
| "given_at E input (React rounds retry index r) = given E input r"
| "given_at E input (Done r) = given E input r"
| "given_at E input _ = True"

lemma given_error [simp]: "given E input (Fail e)" "given E input (Panic m)"
  by (simp_all add: given_def)

lemma timed_request_given: "timed_request E cfg input c s = (r, s') \<Longrightarrow> given E input r"
  by (cases s) (auto simp: timed_request_def given_def Let_def split: prod.splits if_splits)

lemma after_retry_given:
  "after_retry E cfg index r s = (Return (Some x), s') \<Longrightarrow> given E input r \<Longrightarrow> given E input x"
  by (auto simp: after_retry_def call_return_def call_bind_def Let_def
      split: outcome.splits if_splits prod.splits)

lemma call_step_given:
  assumes "call_step E cfg input (p, s) = (p', s')" "given_at E input p"
  shows "given_at E input p'"
  using assms
  by (cases p) (auto split: if_splits outcome.splits prod.splits option.splits
      dest: timed_request_given after_retry_given)

section \<open>A balancer that gives prepared answers\<close>

text \<open>An answer is only given if it shows the chain, and a tag only up to the horizon.\<close>

datatype 't reply =
    LogsReply "log list outcome"
  | TagReply "int outcome"
  | BatchReply "(header option list \<times> 't option list) outcome"

definition logs_shown :: "'t chain \<Rightarrow> int \<Rightarrow> int \<Rightarrow> log list outcome \<Rightarrow> bool" where
  "logs_shown C lo hi r \<longleftrightarrow> (case r of Return logs \<Rightarrow> mset logs = mset (logs_between C lo hi) | _ \<Rightarrow> True)"

definition batch_shown :: "'t chain \<Rightarrow> uint64 list \<Rightarrow> bytes list \<Rightarrow>
    (header option list \<times> 't option list) outcome \<Rightarrow> bool" where
  "batch_shown C bns hashes r \<longleftrightarrow>
     (case r of
        Return (blocks, txs) \<Rightarrow> blocks = map (Some \<circ> chain_header C) bns \<and> txs = map (Some \<circ> chain_tx C) hashes
      | _ \<Rightarrow> True)"

definition tag_shown :: "int \<Rightarrow> int outcome \<Rightarrow> bool" where
  "tag_shown H r \<longleftrightarrow> (case r of Return n \<Rightarrow> n \<le> H | _ \<Rightarrow> True)"

definition scripted :: "'t chain \<Rightarrow> int \<Rightarrow> ('t reply list, 't) balancer_api" where
  "scripted C H =
     \<lparr>api_GetLogs = (\<lambda>lo hi tp script. case script of
        LogsReply r # rest \<Rightarrow> if logs_shown C lo hi r then Some (r, rest) else None | _ \<Rightarrow> None),
      api_GetBlockFromTag = (\<lambda>tag script. case script of
        TagReply r # rest \<Rightarrow> if tag_shown H r then Some (r, rest) else None | _ \<Rightarrow> None),
      api_GetBlocksAndTxs = (\<lambda>bns hashes script. case script of
        BatchReply r # rest \<Rightarrow> if batch_shown C bns hashes r then Some (r, rest) else None | _ \<Rightarrow> None)\<rparr>"

lemma scripted_simps [simp]:
  "logs_shown C lo hi r \<Longrightarrow> api_GetLogs (scripted C H) lo hi tp (LogsReply r # rest) = Some (r, rest)"
  "tag_shown H t \<Longrightarrow> api_GetBlockFromTag (scripted C H) tag (TagReply t # rest) = Some (t, rest)"
  "batch_shown C bns hashes b \<Longrightarrow> api_GetBlocksAndTxs (scripted C H) bns hashes (BatchReply b # rest) = Some (b, rest)"
  by (simp_all add: scripted_def)

lemma scripted_honest: "honest_balancer (scripted C H) C tp"
  by unfold_locales
    (auto simp: scripted_def logs_shown_def batch_shown_def split: list.splits reply.splits if_splits)

lemma scripted_model:
  assumes "bolt_store B view" and "world_ok E C G cfg start H"
  shows "indexer (SaveData B T) (holds_records view T) (last_block_saved view) (scripted C H) C cfg G start H"
  using assms bolt_store.saving_contract [OF assms(1)] scripted_honest [of C H "cfg_topic cfg"]
  by (intro indexer.intro indexer_axioms.intro)
    (auto simp: world_ok_def scripted_def tag_shown_def split: list.splits reply.splits if_splits)

text \<open>The answers of a call are of this kind.\<close>

lemma given_logs:
  assumes "honest_endpoints E C (cfg_topic cfg)" "request_of cfg (Fetching lo hi) = Some input" "given E input r"
  shows "logs_shown C lo hi (logs_of r)"
proof (cases r)
  case (Return out)
  with assms(2,3) obtain c v v' where
    "getLogs E \<lparr>startBlock = lo, endBlock = hi, topic = cfg_topic cfg\<rparr> c v = (Return out, v')"
    by (auto simp: given_def request_of_def doGenericReq_def)
  then obtain logs where "res_logs out = Some logs"
    "FilterLogs E c lo hi [[HexToHash E (cfg_topic cfg)]] v = (Inr logs, v')"
    by (auto simp: getLogs_def split: sum.splits prod.splits)
  with honest_endpoints.filter_logs [OF assms(1)] Return show ?thesis by (auto simp: logs_shown_def logs_of_def)
qed (simp_all add: logs_shown_def logs_of_def)

lemma given_batch:
  assumes "honest_endpoints E C (cfg_topic cfg)" "request_of cfg (Assembling lo hi ls) = Some input" "given E input r"
  shows "batch_shown C (collect_bns ls Map.empty []) (map TxHash ls) (batch_of r)"
proof (cases r)
  case (Return out)
  with assms(2,3) obtain c v v' where
    "getBlocksAndTxs E \<lparr>blockNumbers = collect_bns ls Map.empty [], txHashes = map TxHash ls\<rparr> c v = (Return out, v')"
    by (auto simp: given_def request_of_def doGenericReq_def no_request_def)
  from honest_endpoints.batch_answer [OF assms(1) this] Return show ?thesis
    by (auto simp: batch_shown_def batch_of_def)
qed (simp_all add: batch_shown_def batch_of_def)

lemma given_tag:
  assumes "\<forall>c n w k w'. BlockByNumber E c n w = (Inr k, w') \<longrightarrow> int_of_uint64 k \<le> H"
    and "given E (tag_request cfg) r"
  shows "tag_shown H (tag_of r)"
proof (cases r)
  case (Return out)
  with assms(2) obtain c v v' where "getBlockFromTag E (cfg_block_tag cfg) c v = (Return out, v')"
    by (auto simp: given_def tag_request_def doGenericReq_def no_request_def)
  with assms(1) Return show ?thesis
    by (auto simp: getBlockFromTag_def tag_shown_def tag_of_def split: sum.splits prod.splits) blast
qed (simp_all add: tag_shown_def tag_of_def)

section \<open>The simulation\<close>

text \<open>The synchronizer as it will be when \<^verbatim>\<open>Start\<close> has begun and a batch that is in the database is
  counted.\<close>

definition synced :: "('c, 't, 'w, 'p) system \<Rightarrow> sync" where
  "synced S =
     advanced (committed S) (case starting_at S of None \<Rightarrow> sys_sync S | Some b \<Rightarrow> start_sync b (sys_sync S))"

lemma synced_updates [simp]:
  "synced (S\<lparr>jobs := x\<rparr>) = synced S" "synced (S\<lparr>shared := y\<rparr>) = synced S" "synced (S\<lparr>sys_end := z\<rparr>) = synced S"
  "synced (S\<lparr>tag_call := u\<rparr>) = synced S" "synced (S\<lparr>sys_alive := v\<rparr>) = synced S" "synced (S\<lparr>sys_db := d\<rparr>) = synced S"
  "synced (S\<lparr>sem_held := k\<rparr>) = synced S"
  by (simp_all add: synced_def cong: option.case_cong)

lemma synced_plain: "starting_at S = None \<Longrightarrow> committed S = None \<Longrightarrow> synced S = sys_sync S"
  by (simp add: synced_def)

lemma synced_datachan [simp]: "datachan (synced S) = datachan (sys_sync S)"
  by (simp add: synced_def advanced_def advance_def start_sync_def split: option.split prod.split)

lemma synced_sub: "data_to_save (synced S) i = Some y \<Longrightarrow> data_to_save (sys_sync S) i = Some y"
  by (auto simp: synced_def advanced_def advance_def start_sync_def delete_blocks_eq
      split: option.splits prod.splits if_splits)

text \<open>The process that a system shows: calls that are under way are not seen.\<close>

definition seen :: "'t reply list \<Rightarrow> ('c, 't, 'w, 'p) system \<Rightarrow> ('t reply list, 'p) process" where
  "seen script S =
     \<lparr>tasks = tasks_of S,
      synchronizer = synced S,
      database = sys_db S, bal = script, end_block = sys_end S, cycling = sys_cycling S, alive = sys_alive S\<rparr>"

definition system_ok :: "('c, 't, 'w) eth_api \<Rightarrow> config \<Rightarrow> ('c, 't, 'w, 'p) system \<Rightarrow> bool" where
  "system_ok E cfg S \<longleftrightarrow>
     (\<forall>t p input. (t, p) \<in># jobs S \<longrightarrow> request_of cfg t = Some input \<longrightarrow> given_at E input p) \<and>
     (starting_at S \<noteq> None \<longrightarrow> curr_block (sys_sync S) = 0 \<and> committed S = None) \<and>
     GetCurrBlock (sys_sync S) \<le> GetCurrBlock (synced S) \<and>
     (\<forall>b p. tag_call S = Some (b, p) \<longrightarrow>
        sys_cycling S \<and> given_at E (tag_request cfg) p \<and>
        sys_end S < b \<and> b = GetCurrBlock (synced S)) \<and>
     (sys_alive S \<longrightarrow> sem_held S = int (running (tasks_of S)))"

lemma fst_new_jobs [simp]: "image_mset fst (new_jobs ts) = ts"
  by (simp add: new_jobs_def image_mset.compositionality comp_def)

lemma mem_new_jobs [simp]: "(t, Round 0) \<in># new_jobs ts \<longleftrightarrow> t \<in># ts"
  by (auto simp: new_jobs_def)

lemma tasks_of_replace:
  assumes "(t, p) \<in># jobs S"
  shows "tasks_of (replace_job (t, p) (Some ts) S) = tasks_of S - {#t#} + ts"
    "t \<in># tasks_of S"
proof -
  from assms obtain J where "jobs S = add_mset (t, p) J" by (metis multi_member_split)
  then show "tasks_of (replace_job (t, p) (Some ts) S) = tasks_of S - {#t#} + ts" "t \<in># tasks_of S"
    by (simp_all add: tasks_of_def replace_job_def)
qed

lemma tasks_of_call:
  assumes "(t, p) \<in># jobs S"
  shows "tasks_of (S\<lparr>jobs := add_mset (t, p') (jobs S - {#(t, p)#})\<rparr>) = tasks_of S"
proof -
  from assms obtain J where "jobs S = add_mset (t, p) J" by (metis multi_member_split)
  then show ?thesis by (simp add: tasks_of_def)
qed

lemma seen_replace_job:
  assumes "(t, p) \<in># jobs S"
  shows "seen script (replace_job (t, p) new S) = replace_task t new (seen script S)"
proof (cases new)
  case (Some ts)
  then show ?thesis
    using tasks_of_replace(1) [OF assms, of ts]
    by (simp add: seen_def replace_task_def) (simp add: replace_job_def split: option.split)
qed (simp add: seen_def replace_task_def replace_job_def tasks_of_def cong: option.case_cong)

lemma tasks_of_updates [simp]:
  "tasks_of (S\<lparr>sem_held := k\<rparr>) = tasks_of S" "tasks_of (S\<lparr>sys_sync := u\<rparr>) = tasks_of S"
  "tasks_of (S\<lparr>sys_alive := v\<rparr>) = tasks_of S" "tasks_of (S\<lparr>starting_at := a\<rparr>) = tasks_of S"
  "tasks_of (S\<lparr>committed := c\<rparr>) = tasks_of S" "tasks_of (S\<lparr>sys_db := d\<rparr>) = tasks_of S"
  "tasks_of (S\<lparr>shared := x\<rparr>) = tasks_of S" "tasks_of (S\<lparr>sys_end := e\<rparr>) = tasks_of S"
  "tasks_of (S\<lparr>tag_call := y\<rparr>) = tasks_of S"
  by (simp_all add: tasks_of_def)

lemma seen_held: "seen script (S\<lparr>sem_held := k\<rparr>) = seen script S"
  by (simp add: seen_def cong: option.case_cong)

lemma seen_replace_held:
  "(t, p) \<in># jobs S \<Longrightarrow> seen script (replace_job (t, p) new (S\<lparr>sem_held := k\<rparr>)) = replace_task t new (seen script S)"
  using seen_replace_job [of t p "S\<lparr>sem_held := k\<rparr>"] by (simp add: seen_held)

lemma seen_bal: "(seen x S)\<lparr>bal := y\<rparr> = seen y S"
  by (simp add: seen_def)

lemma seen_dead: "seen x (S\<lparr>sys_alive := False\<rparr>) = (seen x S)\<lparr>alive := False\<rparr>"
  by (simp add: seen_def tasks_of_def cong: option.case_cong)

text \<open>A step of a fetch keeps what is known of the system, if it takes and gives back the semaphore as
  the tasks do.\<close>

lemma system_ok_replace_job:
  assumes ok: "system_ok E cfg S" and job: "(t, p) \<in># jobs S"
    and held: "\<And>ts. new = Some ts \<Longrightarrow> k = sem_held S - (if holds_semaphore t then 1 else 0) + int (running ts)"
  shows "system_ok E cfg (replace_job (t, p) new (S\<lparr>sem_held := k\<rparr>))"
proof (cases new)
  case None
  with ok show ?thesis by (simp add: system_ok_def replace_job_def)
next
  case (Some ts)
  let ?S = "replace_job (t, p) new (S\<lparr>sem_held := k\<rparr>)"
  have S: "?S = S\<lparr>jobs := jobs S - {#(t, p)#} + new_jobs ts, sem_held := k\<rparr>"
    by (simp add: replace_job_def Some)
  have "tasks_of ?S = tasks_of S - {#t#} + ts"
    using tasks_of_replace(1) [of t p "S\<lparr>sem_held := k\<rparr>" ts] job by (simp add: Some)
  moreover have "holds_semaphore t \<Longrightarrow> 0 < running (tasks_of S)"
    using tasks_of_replace(2) [OF job] by (auto simp: running_def dest: multi_member_split)
  moreover have "sys_alive S \<Longrightarrow> sem_held S = int (running (tasks_of S))" using ok by (simp add: system_ok_def)
  ultimately have "sys_alive S \<Longrightarrow> k = int (running (tasks_of ?S))"
    using held [OF Some] running_replace [OF tasks_of_replace(2) [OF job], of ts] by auto
  with ok show ?thesis
    unfolding S by (auto simp: system_ok_def new_jobs_def dest: in_diffD)
qed

lemma running_ended: "ended r = Some ts \<Longrightarrow> running ts = 0"
  by (cases r) (auto simp: ended_def running_def filter_mset_eq_conv)

lemma running_logs_answered:
  "logs_answered lo hi r = Some ts \<Longrightarrow> int (running ts) = 1 - (if data_returned r then 1 else 0)"
  using running_ended
  by (auto simp: logs_answered_def data_returned_def running_def [of "{#x#}" for x] split: outcome.splits if_splits)

lemma running_batch_answered: "batch_answered G address lo hi ls r = Some ts \<Longrightarrow> running ts = 0"
  using running_ended by (auto simp: batch_answered_def)

lemma running_requested [simp]: "running (ts + requested_task req) = running ts"
  by (simp add: requested_task_def running_def split: option.split)

lemma start_sync_Add: "Add item s = Some s' \<Longrightarrow> Add item (start_sync b s) = Some (start_sync b s')"
  by (auto simp: Add_def start_sync_def split: if_splits)

lemma synced_Add: "Add item (sys_sync S) = Some s' \<Longrightarrow> Add item (synced S) = Some (synced (S\<lparr>sys_sync := s'\<rparr>))"
  by (auto simp: synced_def intro: Add_advanced start_sync_Add split: option.split)

lemma Add_curr_block: "Add item s = Some s' \<Longrightarrow> curr_block s' = curr_block s"
  by (auto simp: Add_def split: if_splits)

text \<open>A step of the system is a step of the process, with at most one prepared answer, or none.\<close>

lemma system_step_seen:
  assumes "system_step E G cfg save_data S S'" "system_ok E cfg S" "world_ok E C G cfg start H"
  shows "(\<forall>x. seen x S' = seen x S) \<or> (\<exists>x y. step (scripted C H) G cfg save_data (seen x S) (seen y S'))"
  using assms
proof (induction rule: system_step.induct)
  case (acquire S lo hi p)
  have "step (scripted C H) G cfg save_data (seen [] S)
      (replace_task (Queued lo hi) (Some {#Fetching lo hi#}) (seen [] S))"
    by (rule step.acquire)
      (use acquire tasks_of_replace(2) [OF acquire(2)] in \<open>simp_all add: seen_def system_ok_def\<close>)
  then show ?case using seen_replace_held [OF acquire(2)] by metis
next
  case (call S t p input p' s')
  obtain J where "jobs S = add_mset (t, p) J" using call(2) by (metis multi_member_split)
  then show ?case by (simp add: seen_def tasks_of_def cong: option.case_cong)
next
  case (logs S lo hi r)
  obtain input where i: "request_of cfg (Fetching lo hi) = Some input" by (simp add: request_of_def)
  with logs(2,3) have "given E input r" by (metis given_at.simps(3) system_ok_def)
  then have shown: "logs_shown C lo hi (logs_of r)"
    using logs(4) i by (intro given_logs) (simp_all add: world_ok_def)
  let ?x = "[LogsReply (logs_of r)]"
  have "step (scripted C H) G cfg save_data (seen ?x S)
      (replace_task (Fetching lo hi) (logs_answered lo hi (logs_of r)) ((seen ?x S)\<lparr>bal := []\<rparr>))"
    by (rule step.logs) (use logs tasks_of_replace(2) [OF logs(2)] shown in \<open>simp_all add: seen_def\<close>)
  then show ?case using seen_replace_held [OF logs(2), of "[]"] by (metis seen_bal)
next
  case (batch S lo hi ls r)
  obtain input where i: "request_of cfg (Assembling lo hi ls) = Some input" by (simp add: request_of_def)
  with batch(2,3) have "given E input r" by (metis given_at.simps(3) system_ok_def)
  then have shown: "batch_shown C (collect_bns ls Map.empty []) (map TxHash ls) (batch_of r)"
    using batch(4) i by (intro given_batch) (simp_all add: world_ok_def)
  let ?x = "[BatchReply (batch_of r)]"
  have "step (scripted C H) G cfg save_data (seen ?x S)
      (replace_task (Assembling lo hi ls) (batch_answered G (cfg_address cfg) lo hi ls (batch_of r))
        ((seen ?x S)\<lparr>bal := []\<rparr>))"
    by (rule step.batch) (use batch tasks_of_replace(2) [OF batch(2)] shown in \<open>simp_all add: seen_def\<close>)
  then show ?case using seen_replace_held [OF batch(2), of "[]"] by (metis seen_bal)
next
  case (send S item p s')
  let ?s = "synced (S\<lparr>sys_sync := s'\<rparr>)"
  have "Add item (synced S) = Some ?s" by (rule synced_Add [OF send(3)])
  then have "step (scripted C H) G cfg save_data (seen [] S)
      (replace_task (Sending item) (Some {#}) ((seen [] S)\<lparr>synchronizer := ?s\<rparr>))"
    by (intro step.send) (use send tasks_of_replace(2) [OF send(2)] in \<open>simp_all add: seen_def\<close>)
  moreover have "seen [] (S\<lparr>sys_sync := s'\<rparr>) = (seen [] S)\<lparr>synchronizer := ?s\<rparr>"
    by (simp add: seen_def tasks_of_def)
  ultimately have "step (scripted C H) G cfg save_data (seen [] S)
      (seen [] (replace_job (Sending item, p) (Some {#}) (S\<lparr>sys_sync := s'\<rparr>)))"
    using seen_replace_job [of "Sending item" p "S\<lparr>sys_sync := s'\<rparr>" "[]"] send(2) by simp
  then show ?case by blast
next
  case (start S b)
  then have "synced (S\<lparr>sys_sync := start_sync b (sys_sync S), starting_at := None\<rparr>) = synced S"
    by (simp add: synced_def)
  then show ?case by (simp add: seen_def tasks_of_def)
next
  case (recv S s')
  note plain = synced_plain [OF recv(2,3)]
  have "step (scripted C H) G cfg save_data (seen [] S) ((seen [] S)\<lparr>synchronizer := s'\<rparr>)"
    by (rule step.recv) (use recv plain in \<open>simp_all add: seen_def\<close>)
  moreover have "seen [] (S\<lparr>sys_sync := s'\<rparr>) = (seen [] S)\<lparr>synchronizer := s'\<rparr>"
    using recv by (simp add: seen_def synced_def tasks_of_def)
  ultimately show ?case by metis
next
  case (tick S a p')
  note plain = synced_plain [OF tick(2,3)]
  have "step (scripted C H) G cfg save_data (seen [] S)
      ((seen [] S)\<lparr>synchronizer := advanced a (sys_sync S), database := p'\<rparr>)"
    by (rule step.tick) (use tick plain in \<open>simp_all add: seen_def sync_tick_commit\<close>)
  moreover have "seen [] (S\<lparr>sys_db := p', committed := a\<rparr>) =
      (seen [] S)\<lparr>synchronizer := advanced a (sys_sync S), database := p'\<rparr>"
    using tick by (simp add: seen_def synced_def tasks_of_def)
  ultimately show ?case by metis
next
  case (tick_panic S m)
  have "step (scripted C H) G cfg save_data (seen [] S) ((seen [] S)\<lparr>alive := False\<rparr>)"
    by (rule step.tick_panic)
      (use tick_panic synced_plain [OF tick_panic(2,3)] in \<open>simp_all add: seen_def sync_tick_commit\<close>)
  then show ?case using seen_dead by metis
next
  case (advance S a)
  then have "starting_at S = None" by (auto simp: system_ok_def)
  with advance have "synced (S\<lparr>sys_sync := advance a (sys_sync S), committed := None\<rparr>) = synced S"
    by (simp add: synced_def)
  then show ?case by (simp add: seen_def tasks_of_def)
next
  case (cycle S b r e req)
  have c: "sys_cycling S" "given E (tag_request cfg) r" "sys_end S < b" "b = GetCurrBlock (synced S)"
    using cycle(2,4) by (simp_all add: system_ok_def)
  have shown: "tag_shown H (tag_of r)"
    by (rule given_tag [OF _ c(2)]) (use cycle(5) in \<open>simp add: world_ok_def\<close>)
  let ?x = "[TagReply (tag_of r)]"
  have "step (scripted C H) G cfg save_data (seen ?x S)
      ((seen ?x S)\<lparr>tasks := tasks_of S + requested_task req, bal := [], end_block := e\<rparr>)"
    using step.cycle [of "seen ?x S" "scripted C H" cfg e req "[]" G save_data] cycle(1,3) c shown
    by (simp add: seen_def orchestrate_tick_def)
  moreover have "seen [] (S\<lparr>jobs := jobs S + new_jobs (requested_task req), sys_end := e, tag_call := None\<rparr>) =
      (seen ?x S)\<lparr>tasks := tasks_of S + requested_task req, bal := [], end_block := e\<rparr>"
    using c by (simp add: seen_def tasks_of_def)
  ultimately show ?case by metis
next
  case (cycle_panic S b r m)
  have c: "sys_cycling S" "given E (tag_request cfg) r" "sys_end S < b" "b = GetCurrBlock (synced S)"
    using cycle_panic(2,4) by (simp_all add: system_ok_def)
  have shown: "tag_shown H (tag_of r)"
    by (rule given_tag [OF _ c(2)]) (use cycle_panic(5) in \<open>simp add: world_ok_def\<close>)
  let ?x = "[TagReply (tag_of r)]"
  have "step (scripted C H) G cfg save_data (seen ?x S) ((seen ?x S)\<lparr>alive := False\<rparr>)"
    using step.cycle_panic [of "seen ?x S" "scripted C H" cfg m "[]" G save_data] cycle_panic(1,3) c shown
    by (simp add: seen_def orchestrate_tick_def)
  then show ?case using seen_dead by metis
qed (simp_all add: seen_def tasks_of_def cong: option.case_cong)

text \<open>The invariant of the process, for what is seen of a system.\<close>

definition system_inv :: "('p \<Rightarrow> content) \<Rightarrow> gob_types \<Rightarrow> ('c, 't, 'w) eth_api \<Rightarrow> 't chain \<Rightarrow> config \<Rightarrow> 't geth \<Rightarrow>
    int \<Rightarrow> int \<Rightarrow> ('c, 't, 'w, 'p) system \<Rightarrow> bool" where
  "system_inv view T E C cfg G start H S \<longleftrightarrow>
     system_ok E cfg S \<and>
     indexer.inv (holds_records view T) (last_block_saved view) C cfg G start H (seen [] S)"

lemma model_inv_bal:
  fixes C :: "'t chain" and E :: "('c, 't, 'w) eth_api" and S :: "('c, 't, 'w, 'p) system"
  assumes "bolt_store B view" "world_ok E C G cfg start H"
    and "indexer.inv (holds_records view T) (last_block_saved view) C cfg G start H (seen x S)"
  shows "indexer.inv (holds_records view T) (last_block_saved view) C cfg G start H (seen y S)"
  using indexer.inv_dead(2) [OF scripted_model [OF assms(1,2)] assms(3), of y] by (simp add: seen_bal)

lemma system_step_inv:
  assumes "bolt_store B view" "world_ok E C G cfg start H" "system_inv view T E C cfg G start H S"
    and "system_step E G cfg (SaveData B T) S S'"
  shows "indexer.inv (holds_records view T) (last_block_saved view) C cfg G start H (seen [] S')"
    and "GetCurrBlock (synchronizer (seen [] S)) \<le> GetCurrBlock (synchronizer (seen [] S'))"
proof -
  note model = scripted_model [OF assms(1,2), of T]
  let ?inv = "indexer.inv (holds_records view T) (last_block_saved view) C cfg G start H"
  have ok: "system_ok E cfg S" and inv: "?inv (seen x S)" for x
    using assms(3) model_inv_bal [OF assms(1,2), of T "[]" S x] by (simp_all add: system_inv_def)
  from system_step_seen [OF assms(4) ok assms(2)]
  have "?inv (seen [] S') \<and> GetCurrBlock (synchronizer (seen [] S)) \<le> GetCurrBlock (synchronizer (seen [] S'))"
  proof
    assume "\<forall>x. seen x S' = seen x S"
    with inv show ?thesis by simp
  next
    assume "\<exists>x y. step (scripted C H) G cfg (SaveData B T) (seen x S) (seen y S')"
    then obtain x y where st: "step (scripted C H) G cfg (SaveData B T) (seen x S) (seen y S')" by blast
    from indexer.step_inv [OF model st inv] have "?inv (seen [] S')" by (rule model_inv_bal [OF assms(1,2)])
    moreover have "GetCurrBlock (synchronizer (seen x S)) \<le> GetCurrBlock (synchronizer (seen y S'))"
      by (rule indexer.step_curr_block [OF model st inv])
    ultimately show ?thesis by (simp add: seen_def)
  qed
  then show "?inv (seen [] S')" "GetCurrBlock (synchronizer (seen [] S)) \<le> GetCurrBlock (synchronizer (seen [] S'))"
    by simp_all
qed

text \<open>The current block that the orchestrator has read stays the current block until it has its
  answer, because it only asks when every requested block is saved. It reads the counter, which
  may be behind the database; but then it does not ask.\<close>

lemma system_step_ok:
  assumes "bolt_store B view" "world_ok E C G cfg start H" "system_inv view T E C cfg G start H S"
    and "system_step E G cfg (SaveData B T) S S'"
  shows "system_ok E cfg S'"
proof -
  note model = scripted_model [OF assms(1,2), of T]
  note next_inv = system_step_inv [OF assms]
  have ok: "system_ok E cfg S" and inv: "indexer.inv (holds_records view T) (last_block_saved view) C cfg G start H (seen [] S)"
    using assms(3) by (simp_all add: system_inv_def)
  have le: "GetCurrBlock (sys_sync S) \<le> GetCurrBlock (synced S)" using ok by (simp add: system_ok_def)
  have mono: "GetCurrBlock (synced S) \<le> GetCurrBlock (synced S')" using next_inv(2) by (simp add: seen_def)
  have top: "GetCurrBlock (synced S) \<le> sys_end S + 1" "GetCurrBlock (synced S') \<le> sys_end S' + 1"
    using indexer.inv_saved(2) [OF model inv] indexer.inv_saved(2) [OF model next_inv(1)] by (simp_all add: seen_def)
  have stays: "b = GetCurrBlock (synced S')" if "tag_call S = Some (b, p)" "sys_end S' = sys_end S" for b p
    using ok mono top(2) that by (auto simp: system_ok_def)
  from assms(4) ok le mono top(1) stays show ?thesis
  proof (induction rule: system_step.induct)
    case (call S t p input p' s')
    have "given_at E input p'"
      using call_step_given [OF call(4)] call(2,3,5) by (simp add: system_ok_def)
    with call(3,5) tasks_of_call [OF call(2), of p'] show ?case by (auto simp: system_ok_def dest: in_diffD)
  next
    case (tag_turn S b p p' s')
    have "given_at E (tag_request cfg) p'"
      using call_step_given [OF tag_turn(3)] tag_turn(2,4) by (simp add: system_ok_def)
    with tag_turn(2,4) show ?case by (auto simp: system_ok_def)
  next
    case (ask S)
    then have "GetCurrBlock (sys_sync S) = GetCurrBlock (synced S)" by linarith
    with ask show ?case by (auto simp: system_ok_def)
  next
    case (acquire S lo hi p)
    then show ?case by (intro system_ok_replace_job) (auto simp: running_def)
  next
    case (logs S lo hi r)
    then show ?case by (intro system_ok_replace_job) (auto dest: running_logs_answered)
  next
    case (batch S lo hi ls r)
    then show ?case by (intro system_ok_replace_job) (auto dest: running_batch_answered)
  next
    case (send S item p s')
    let ?S = "S\<lparr>sys_sync := s'\<rparr>"
    have "curr_block s' = curr_block (sys_sync S)" by (rule Add_curr_block [OF send(3)])
    moreover have "GetCurrBlock (synced ?S) = GetCurrBlock (synced S)"
      using Add_curr_block [OF synced_Add [OF send(3)]] by (simp add: GetCurrBlock_def)
    ultimately have "system_ok E cfg ?S" using send(4) by (simp add: system_ok_def GetCurrBlock_def)
    from system_ok_replace_job [OF this, of "Sending item" p "Some {#}" "sem_held ?S"] send(2) show ?case
      by (simp add: running_def)
  next
    case (start S b)
    then show ?case by (auto simp: system_ok_def synced_def)
  next
    case (recv S s')
    then show ?case by (auto simp: system_ok_def synced_def)
  next
    case (tick S a p')
    then have "sys_sync S = synced S" by (simp add: synced_plain)
    with tick show ?case by (auto simp: system_ok_def)
  next
    case (tick_panic S m)
    then show ?case by (simp add: system_ok_def)
  next
    case (advance S a)
    then show ?case by (auto simp: system_ok_def synced_def)
  next
    case (cycle S b r e req)
    have "tasks_of (S\<lparr>jobs := jobs S + new_jobs (requested_task req)\<rparr>) = tasks_of S + requested_task req"
      by (simp add: tasks_of_def)
    with cycle show ?case by (auto simp: system_ok_def new_jobs_def)
  next
    case (cycle_panic S b r m)
    then show ?case by (simp add: system_ok_def)
  qed
qed

lemma requesting_jobs: "size {#j \<in># jobs S. request_of cfg (fst j) \<noteq> None#} = running (tasks_of S)"
proof -
  have "request_of cfg t \<noteq> None \<longleftrightarrow> holds_semaphore t" for t by (cases t) (simp_all add: request_of_def)
  then show ?thesis by (simp add: running_def tasks_of_def filter_mset_image_mset)
qed

lemma seen_started: "seen x (started_system st db s) = started_process cfg st db x"
  by (simp add: seen_def started_system_def started_process_def tasks_of_def new_jobs_def synced_def)

lemma system_run_inv:
  fixes C :: "'t chain" and E :: "('c, 't, 'w) eth_api" and S :: "('c, 't, 'w, 'p) system"
  assumes "bolt_store B view" "world_ok E C G cfg start H" "starts_at st start e" "e \<le> H"
    and "holds_records view T db []"
    and "system_run E G cfg (SaveData B T) (started_system st db s) S"
  shows "system_inv view T E C cfg G start H S"
  using assms(6)
proof (induction rule: rtranclp_induct)
  case base
  have "indexer.inv (holds_records view T) (last_block_saved view) C cfg G start H
      (seen [] (started_system st db s :: ('c, 't, 'w, 'p) system))"
    using indexer.inv_started [OF scripted_model [OF assms(1,2)] assms(3-5)] by (simp add: seen_started [where cfg = cfg])
  moreover from this indexer.inv_saved(1) [OF scripted_model [OF assms(1,2)] this] assms(2)
  have "0 \<le> GetCurrBlock (synced (started_system st db s :: ('c, 't, 'w, 'p) system))"
    by (simp add: seen_def world_ok_def horizon_ok_def)
  ultimately show ?case
    by (simp add: system_inv_def system_ok_def started_system_def new_jobs_def NewSynchronizer_def
        GetCurrBlock_def int_of_uint64_def tasks_of_def running_def)
next
  case (step S S')
  from system_step_inv(1) [OF assms(1,2) step.IH step.hyps(2)] system_step_ok [OF assms(1,2) step.IH step.hyps(2)]
  show ?case by (simp add: system_inv_def)
qed

text \<open>The next block to save: the counter of the synchronizer, with what \<^verbatim>\<open>Start\<close> has still to add
  to it and with the batch that is not counted yet.\<close>

definition next_block :: "('c, 't, 'w, 'p) system \<Rightarrow> int" where
  "next_block S = GetCurrBlock (synced S)"

lemma next_block_seen: "GetCurrBlock (synchronizer (seen x S)) = next_block S"
  by (simp add: next_block_def seen_def)

lemma system_saved:
  fixes C :: "'t chain" and E :: "('c, 't, 'w) eth_api" and S :: "('c, 't, 'w, 'p) system"
  assumes "bolt_store B view" "world_ok E C G cfg start H" "system_inv view T E C cfg G start H S"
  shows "start \<le> next_block S" "next_block S \<le> sys_end S + 1"
    "holds_records view T (sys_db S) (records_between (chain_records G (cfg_address cfg) C) start (next_block S))"
    "start < next_block S \<Longrightarrow> last_block_saved view (sys_db S) (next_block S - 1)"
    "int (length (records_between (chain_records G (cfg_address cfg) C) start (next_block S))) \<le> max_int"
    "0 \<le> start" "sys_end S + 1 \<le> max_int"
proof -
  have inv: "indexer.inv (holds_records view T) (last_block_saved view) C cfg G start H (seen [] S)"
    using assms(3) by (simp add: system_inv_def)
  note model = scripted_model [OF assms(1,2), of T]
  show *: "start \<le> next_block S" "next_block S \<le> sys_end S + 1"
    "holds_records view T (sys_db S) (records_between (chain_records G (cfg_address cfg) C) start (next_block S))"
    "start < next_block S \<Longrightarrow> last_block_saved view (sys_db S) (next_block S - 1)"
    using indexer.inv_saved [OF model inv] unfolding next_block_seen by (simp_all add: seen_def)
  have hor: "horizon_ok (chain_records G (cfg_address cfg) C) start (sys_end S)"
    using indexer.inv_horizon(1) [OF model inv] by (simp add: seen_def)
  show "int (length (records_between (chain_records G (cfg_address cfg) C) start (next_block S))) \<le> max_int"
    using horizon_bounds(2) [OF hor *(1,2)] .
  show "0 \<le> start" "sys_end S + 1 \<le> max_int" using hor by (simp_all add: horizon_ok_def)
qed

section \<open>Runs without overlapping calls\<close>

text \<open>A process as a system in which no call is under way. Its runs are runs of the system: a
  call of the balancer in one step is the same call step by step.\<close>

definition embed :: "(('c, 'w) bstate, 'p) process \<Rightarrow> ('c, 't, 'w, 'p) system" where
  "embed S =
     \<lparr>jobs = new_jobs (tasks S), sem_held = int (running (tasks S)), sys_sync = synchronizer S, starting_at = None, committed = None, sys_db = database S,
      shared = bal S, sys_end = end_block S, sys_cycling = cycling S, tag_call = None, sys_alive = alive S\<rparr>"

lemma handleRounds_same_clients:
  assumes "handleRounds E cfg input s = Some (r, s')"
  shows "same_clients (fst s) (fst s')"
proof -
  have "same_clients (fst s) (fst (snd y))" if "rounds_loop E cfg input rounds s = Some y" for rounds y
    using that
  proof (rule rounds_loop.raw_induct [rotated], goal_cases)
    case (1 loop E cfg input rounds s y)
    have sl: "fst (sleep E cfg x) = fst x" for x by (cases x) (simp add: sleep_def)
    obtain q s1 where q: "handleRetries E cfg input s = (q, s1)" by (rule prod.exhaust)
    then have len: "same_clients (fst s) (fst s1)" using retry_loop_same_clients by (simp add: handleRetries_def)
    show ?case
    proof (cases "rounds = cfg_max_rounds cfg \<or> q \<noteq> Fail ErrMaxRetries")
      case True
      with 1(2) have "y = (Fail ErrMaxRounds, s) \<or> y = (q, s1)" by (auto simp only: q prod.case split: if_splits)
      then show ?thesis using len by auto
    next
      case False
      with 1(2) have "loop E cfg input (go_int (rounds + 1)) (sleep E cfg s1) = Some y" by (simp add: q)
      from same_clients_trans [OF len 1(1) [OF this, unfolded sl]] show ?thesis .
    qed
  qed
  from this [OF assms [unfolded handleRounds_def]] show ?thesis by simp
qed

lemma handleRounds_lenClients:
  "handleRounds E cfg input s = Some (r, s') \<Longrightarrow> lenClients (fst s') = lenClients (fst s)"
  using handleRounds_same_clients [of E cfg input s r s'] by (simp add: same_clients_def)

lemma job_call_run:
  assumes "(t, p) \<in># jobs S" "sys_alive S" "request_of cfg t = Some input"
    and "gets_to E cfg input (p, shared S) (p', s')"
  shows "system_run E G cfg save_data S (S\<lparr>jobs := jobs S - {#(t, p)#} + {#(t, p')#}, shared := s'\<rparr>)"
proof -
  from assms(4) obtain n where "(call_step E cfg input ^^ n) (p, shared S) = (p', s')" by (auto simp: gets_to_def)
  with assms(1,2) show ?thesis
  proof (induction n arbitrary: S p)
    case 0
    then have "S\<lparr>jobs := jobs S - {#(t, p)#} + {#(t, p')#}, shared := s'\<rparr> = S" by simp
    then show ?case by simp
  next
    case (Suc n)
    obtain p1 s1 where st: "call_step E cfg input (p, shared S) = (p1, s1)" by (rule prod.exhaust)
    let ?S = "S\<lparr>jobs := jobs S - {#(t, p)#} + {#(t, p1)#}, shared := s1\<rparr>"
    have "system_step E G cfg save_data S ?S" by (rule system_step.call [OF Suc.prems(2,1) assms(3) st])
    moreover have "system_run E G cfg save_data ?S
        (?S\<lparr>jobs := jobs ?S - {#(t, p1)#} + {#(t, p')#}, shared := s'\<rparr>)"
      by (rule Suc.IH) (use Suc.prems st in \<open>simp_all add: funpow_Suc_right del: funpow.simps\<close>)
    ultimately show ?case by (simp add: converse_rtranclp_into_rtranclp)
  qed
qed

lemma tag_call_run:
  assumes "tag_call S = Some (b, p)" "sys_alive S" "gets_to E cfg (tag_request cfg) (p, shared S) (p', s')"
  shows "system_run E G cfg save_data S (S\<lparr>tag_call := Some (b, p'), shared := s'\<rparr>)"
proof -
  from assms(3) obtain n where "(call_step E cfg (tag_request cfg) ^^ n) (p, shared S) = (p', s')"
    by (auto simp: gets_to_def)
  with assms(1,2) show ?thesis
  proof (induction n arbitrary: S p)
    case 0
    then have "S\<lparr>tag_call := Some (b, p'), shared := s'\<rparr> = S" by simp
    then show ?case by simp
  next
    case (Suc n)
    obtain p1 s1 where st: "call_step E cfg (tag_request cfg) (p, shared S) = (p1, s1)" by (rule prod.exhaust)
    let ?S = "S\<lparr>tag_call := Some (b, p1), shared := s1\<rparr>"
    have "system_step E G cfg save_data S ?S" by (rule system_step.tag_turn [OF Suc.prems(2,1) st])
    moreover have "system_run E G cfg save_data ?S (?S\<lparr>tag_call := Some (b, p'), shared := s'\<rparr>)"
      by (rule Suc.IH) (use Suc.prems st in \<open>simp_all add: funpow_Suc_right del: funpow.simps\<close>)
    ultimately show ?case by (simp add: converse_rtranclp_into_rtranclp)
  qed
qed

text \<open>A task makes its whole call and is replaced by what follows.\<close>

lemma embed_request:
  assumes "t \<in># tasks S" "alive S" "request_of cfg t = Some input" "lenClients (fst (bal S)) \<le> max_int"
    and "handleRounds E cfg input (bal S) = Some (r, s')"
    and "\<And>X. sys_alive X \<Longrightarrow> (t, Done r) \<in># jobs X \<Longrightarrow>
      system_step E G cfg save_data X (replace_job (t, Done r) new (X\<lparr>sem_held := sem_held X - d\<rparr>))"
    and "alive (replace_task t new (S\<lparr>bal := s'\<rparr>))"
    and "holds_semaphore t" and "\<And>ts. new = Some ts \<Longrightarrow> int (running ts) = 1 - d"
  shows "system_run E G cfg save_data (embed S) (embed (replace_task t new (S\<lparr>bal := s'\<rparr>)))"
proof -
  from assms(1) obtain M where M: "tasks S = add_mset t M" by (metis multi_member_split)
  from assms(2,7) obtain ts where new: "new = Some ts" by (cases new) (simp_all add: replace_task_def)
  let ?X = "(embed S)\<lparr>jobs := jobs (embed S) - {#(t, Round 0)#} + {#(t, Done r)#}, shared := s'\<rparr>"
  have "system_run E G cfg save_data (embed S) ?X"
    by (rule job_call_run [OF _ _ assms(3)])
      (use gets_to_rounds [OF assms(5) [unfolded handleRounds_def] assms(4)] assms(1,2) in
        \<open>simp_all add: embed_def new_jobs_def\<close>)
  moreover have "system_step E G cfg save_data ?X (replace_job (t, Done r) new (?X\<lparr>sem_held := sem_held ?X - d\<rparr>))"
    by (rule assms(6)) (simp_all add: embed_def assms(2))
  moreover have "int (running (M + ts)) = int (running (tasks S)) - d"
    using assms(8) assms(9) [OF new] by (simp add: M running_def)
  then have "replace_job (t, Done r) new (?X\<lparr>sem_held := sem_held ?X - d\<rparr>) = embed (replace_task t new (S\<lparr>bal := s'\<rparr>))"
    by (simp add: new replace_job_def replace_task_def embed_def new_jobs_def M)
  ultimately show ?thesis by (metis rtranclp.rtrancl_into_rtrancl)
qed

lemma step_embed:
  fixes E :: "('c, 't, 'w) eth_api" and S :: "(('c, 'w) bstate, 'p) process"
  assumes "step (as_balancer E cfg) G cfg save_data S S'" "alive S'" "lenClients (fst (bal S)) \<le> max_int"
  shows "system_run E G cfg save_data (embed S) (embed S') \<and> lenClients (fst (bal S')) = lenClients (fst (bal S))"
  using assms
proof (induction rule: step.induct)
  case (acquire S lo hi)
  from acquire(2) obtain M where M: "tasks S = add_mset (Queued lo hi) M" by (metis multi_member_split)
  let ?X = "embed S :: ('c, 't, 'w, 'p) system"
  let ?Y = "replace_job (Queued lo hi, Round 0) (Some {#Fetching lo hi#}) (?X\<lparr>sem_held := sem_held ?X + 1\<rparr>)"
  have "system_step E G cfg save_data ?X ?Y"
    by (rule system_step.acquire) (use acquire in \<open>simp_all add: embed_def\<close>)
  moreover have "?Y = embed (replace_task (Queued lo hi) (Some {#Fetching lo hi#}) S)"
    by (simp add: replace_job_def replace_task_def embed_def new_jobs_def M running_def)
  ultimately show ?case by (simp add: replace_task_def)
next
  case (logs S lo hi r s')
  from logs(3) obtain r0 where h: "handleRounds E cfg (no_request\<lparr>in_logs := Some
      \<lparr>startBlock = lo, endBlock = hi, topic = cfg_topic cfg\<rparr>\<rparr>) (bal S) = Some (r0, s')" "r = logs_of r0"
    by (auto simp: as_balancer_def GetLogs_def logs_of_def)
  have "lenClients (fst s') = lenClients (fst (bal S))" by (rule handleRounds_lenClients [OF h(1)])
  moreover have "system_run E G cfg save_data (embed S)
      (embed (replace_task (Fetching lo hi) (logs_answered lo hi r) (S\<lparr>bal := s'\<rparr>)))"
  proof (rule embed_request [OF logs(2,1) _ logs(5) h(1) _ logs(4), where d = "if data_returned r then 1 else 0"])
    fix X :: "('c, 't, 'w, 'p) system"
    assume "sys_alive X" "(Fetching lo hi, Done r0) \<in># jobs X"
    from system_step.logs [OF this]
    show "system_step E G cfg save_data X (replace_job (Fetching lo hi, Done r0) (logs_answered lo hi r)
        (X\<lparr>sem_held := sem_held X - (if data_returned r then 1 else 0)\<rparr>))"
      by (simp only: h(2))
  qed (auto simp: request_of_def dest: running_logs_answered)
  ultimately show ?case by (simp add: replace_task_def split: option.split)
next
  case (batch S lo hi ls r s')
  from batch(3) obtain r0 where h: "handleRounds E cfg (no_request\<lparr>in_blockAndTxs := Some
      \<lparr>blockNumbers = collect_bns ls Map.empty [], txHashes = map TxHash ls\<rparr>\<rparr>) (bal S) = Some (r0, s')" "r = batch_of r0"
    by (auto simp: as_balancer_def GetBlocksAndTxs_def batch_of_def)
  have "lenClients (fst s') = lenClients (fst (bal S))" by (rule handleRounds_lenClients [OF h(1)])
  moreover have "system_run E G cfg save_data (embed S)
      (embed (replace_task (Assembling lo hi ls) (batch_answered G (cfg_address cfg) lo hi ls r) (S\<lparr>bal := s'\<rparr>)))"
    by (rule embed_request [OF batch(2,1) _ batch(5) h(1) _ batch(4), where d = 1])
      (auto simp: request_of_def h(2) intro: system_step.batch dest: running_batch_answered)
  ultimately show ?case by (simp add: replace_task_def split: option.split)
next
  case (send S item s')
  from send(2) obtain M where M: "tasks S = add_mset (Sending item) M" by (metis multi_member_split)
  have "system_step E G cfg save_data (embed S)
      (replace_job (Sending item, Round 0) (Some {#}) ((embed S)\<lparr>sys_sync := s'\<rparr>))"
    by (rule system_step.send) (use send in \<open>simp_all add: embed_def new_jobs_def\<close>)
  moreover have "replace_job (Sending item, Round 0) (Some {#}) ((embed S)\<lparr>sys_sync := s'\<rparr>) =
      (embed (replace_task (Sending item) (Some {#}) (S\<lparr>synchronizer := s'\<rparr>)) :: ('c, 't, 'w, 'p) system)"
    by (simp add: replace_job_def replace_task_def embed_def new_jobs_def M running_def)
  ultimately show ?case by (simp add: replace_task_def)
next
  case (recv S s')
  have "system_step E G cfg save_data (embed S) ((embed S)\<lparr>sys_sync := s'\<rparr>)"
    by (rule system_step.recv) (use recv in \<open>simp_all add: embed_def\<close>)
  then show ?case by (simp add: embed_def r_into_rtranclp)
next
  case (tick S s' p')
  then obtain a where a: "commit save_data (synchronizer S) (database S) = Some (Return (a, p'))"
    "s' = advanced a (synchronizer S)"
    by (auto simp: sync_tick_commit obind_eq_Return)
  let ?X = "(embed S)\<lparr>sys_db := p', committed := a\<rparr> :: ('c, 't, 'w, 'p) system"
  have "system_step E G cfg save_data (embed S) ?X"
    by (rule system_step.tick) (use tick a in \<open>simp_all add: embed_def\<close>)
  moreover have "system_run E G cfg save_data ?X (embed (S\<lparr>synchronizer := s', database := p'\<rparr>))"
  proof (cases a)
    case None
    with a(2) show ?thesis by (simp add: embed_def)
  next
    case (Some b)
    have "system_step E G cfg save_data ?X (?X\<lparr>sys_sync := advance b (sys_sync ?X), committed := None\<rparr>)"
      by (rule system_step.advance) (use tick Some in \<open>simp_all add: embed_def\<close>)
    with a(2) Some show ?thesis by (simp add: embed_def r_into_rtranclp)
  qed
  ultimately show ?case by (simp add: converse_rtranclp_into_rtranclp)
next
  case (cycle S e req b')
  let ?b = "GetCurrBlock (synchronizer S)"
  show ?case
  proof (cases "end_block S < ?b")
    case False
    then have "e = end_block S" "req = None" "b' = bal S" using cycle(3) by (auto simp: orchestrate_tick_def)
    then show ?thesis by (simp add: embed_def requested_task_def)
  next
    case True
    with cycle(3) obtain r0 where h: "handleRounds E cfg (tag_request cfg) (bal S) = Some (r0, b')"
      "after_tag (end_block S) ?b (tag_of r0) = Return (e, req)"
      by (auto simp: orchestrate_tick_def as_balancer_def GetBlockFromTag_def tag_of_def tag_request_def)
    let ?E = "embed S :: ('c, 't, 'w, 'p) system"
    let ?X = "?E\<lparr>tag_call := Some (?b, Round 0)\<rparr>"
    have "system_step E G cfg save_data ?E (?E\<lparr>tag_call := Some (GetCurrBlock (sys_sync ?E), Round 0)\<rparr>)"
      by (rule system_step.ask) (use cycle True in \<open>simp_all add: embed_def\<close>)
    then have ask: "system_step E G cfg save_data (embed S) ?X" by (simp add: embed_def)
    have run: "system_run E G cfg save_data ?X (?X\<lparr>tag_call := Some (?b, Done r0), shared := b'\<rparr>)"
      by (rule tag_call_run)
        (use cycle(1) gets_to_rounds [OF h(1) [unfolded handleRounds_def] cycle(5)] in \<open>simp_all add: embed_def\<close>)
    have fin: "system_step E G cfg save_data (?X\<lparr>tag_call := Some (?b, Done r0), shared := b'\<rparr>)
        (?X\<lparr>jobs := jobs ?X + new_jobs (requested_task req), sys_end := e, tag_call := None, shared := b'\<rparr>)"
      using system_step.cycle [of "?X\<lparr>tag_call := Some (?b, Done r0), shared := b'\<rparr>" ?b r0 e req E G cfg save_data]
        cycle(1) h(2) by (simp add: embed_def)
    have "?X\<lparr>jobs := jobs ?X + new_jobs (requested_task req), sys_end := e, tag_call := None, shared := b'\<rparr> =
        embed (S\<lparr>tasks := tasks S + requested_task req, bal := b', end_block := e\<rparr>)"
      by (simp add: embed_def new_jobs_def)
    with rtranclp.rtrancl_into_rtrancl [OF converse_rtranclp_into_rtranclp [OF ask run] fin]
    have "system_run E G cfg save_data (embed S)
        (embed (S\<lparr>tasks := tasks S + requested_task req, bal := b', end_block := e\<rparr>))"
      by (simp only:)
    then show ?thesis using handleRounds_lenClients [OF h(1)] by simp
  qed
qed simp_all

lemma run_embed:
  assumes "run (as_balancer E cfg) G cfg save_data S0 S" "alive S" "lenClients (fst (bal S0)) \<le> max_int"
  shows "system_run E G cfg save_data (embed S0) (embed S) \<and> lenClients (fst (bal S)) = lenClients (fst (bal S0))"
  using assms
proof (induction rule: rtranclp_induct)
  case (step S S')
  have "alive S" using step.hyps(2) by (cases rule: step.cases) simp_all
  with step step_embed [OF step.hyps(2) step.prems(1)] show ?case by auto
qed simp

section \<open>A finished run, for the witnesses\<close>

abbreviation ref_system_run :: "(string, string, int, ref_db) system \<Rightarrow> (string, string, int, ref_db) system \<Rightarrow> bool" where
  "ref_system_run \<equiv> system_run (chain_eth ref_served 9) ref_geth ref_config (SaveData ref_bolt ref_types)"

definition ref_system :: "(string, string, int, ref_db) system" where
  "ref_system = started_system ref_started ref_empty (ref_balancer 1 (- 1), 5)"

lemma embed_started:
  "system_step E G cfg save_data (started_system st db s) (embed (started_process cfg st db s))"
proof -
  let ?S = "started_system st db s :: ('a, 'b, 'c, 'd) system"
  have "system_step E G cfg save_data ?S
      (?S\<lparr>sys_sync := start_sync (sync_from st) (sys_sync ?S), starting_at := None\<rparr>)"
    by (rule system_step.start) (simp_all add: started_system_def)
  then show ?thesis by (simp add: started_system_def started_process_def embed_def running_def)
qed

lemma next_block_embed: "next_block (embed S) = GetCurrBlock (synchronizer S)"
  by (simp add: next_block_def synced_def embed_def)

lemma ref_system_completes: "\<exists>S. ref_system_run ref_system S \<and> next_block S = 5 \<and> starting_at S = None \<and> committed S = None"
proof -
  obtain P where P: "ref_run ref_process P" "alive P" "GetCurrBlock (synchronizer P) = 5"
    using ref_run_completes by blast
  have "lenClients (fst (bal ref_process)) \<le> max_int"
    by (simp add: ref_process_def started_process_def ref_balancer_def max_int_def)
  with run_embed [OF P(1,2)] embed_started [of "chain_eth ref_served 9" ref_geth ref_config "SaveData ref_bolt ref_types"
      ref_started ref_empty "(ref_balancer 1 (- 1), 5)"]
  have "ref_system_run ref_system (embed P)"
    by (simp add: ref_system_def ref_process_def converse_rtranclp_into_rtranclp)
  moreover have "next_block (embed P) = 5" "starting_at (embed P) = None" "committed (embed P) = None"
    using P(3) by (simp_all add: next_block_embed) (simp_all add: embed_def)
  ultimately show ?thesis by blast
qed

section \<open>Properties\<close>

text \<open>C2: in every state the program reaches from an empty store, under every interleaving
  of the fetches, the steps of their calls of the balancer, the synchronizer and the
  orchestrator, whatever the endpoints refuse, split or retry, the database holds exactly the
  records of the blocks from the first one to the one before the next block to save, in chain
  order and numbered from 0, and the last saved block is the one before the next block. The
  counter of the synchronizer is the next block, except between the transaction of \<^verbatim>\<open>save\<close> and
  the update of the counters. This includes the states in which the process has panicked, in
  between as well.\<close>

theorem process_saves_chain:
  assumes "bolt_store B view" and "world_ok E C G cfg start H"
    and "starts_at st start e" and "e \<le> H" and "holds_records view T db []"
    and "system_run E G cfg (SaveData B T) (started_system st db s) S"
  shows "holds_records view T (sys_db S)
      (records_between (chain_records G (cfg_address cfg) C) start (next_block S)) \<and>
    start \<le> next_block S \<and> next_block S \<le> sys_end S + 1 \<and>
    (start < next_block S \<longrightarrow> last_block_saved view (sys_db S) (next_block S - 1))"
  using system_saved [OF assms(1,2) system_run_inv [OF assms]] by blast

theorem process_saves_chain_witness:
  "\<exists>S. ref_system_run ref_system S \<and> next_block S = 5 \<and>
    holds_records ref_view ref_types (sys_db S) (records_between (chain_records ref_geth ''0x01'' ref_served) 0 5)"
proof -
  obtain S where S: "ref_system_run ref_system S" "next_block S = 5" using ref_system_completes by blast
  from process_saves_chain [OF ref.bolt_store_axioms ref_world_ok starts_at_ref holds_records_ref_empty
      S(1) [unfolded ref_system_def]] S show ?thesis
    by (auto simp: ref_config_def)
qed

text \<open>The abstraction of a state to a log: the next block and the records before it.\<close>

definition log_state :: "('p \<Rightarrow> content) \<Rightarrow> gob_types \<Rightarrow> (int \<Rightarrow> indexed_data list) \<Rightarrow> int \<Rightarrow>
    ('c, 't, 'w, 'p) system \<Rightarrow> int \<Rightarrow> indexed_data list \<Rightarrow> bool" where
  "log_state view T D start S b es \<longleftrightarrow>
     b = next_block S \<and> es = records_between D start b \<and> holds_records view T (sys_db S) es"

text \<open>C3: the program refines an append-only log of the chain. The abstract state is the next
  block and the records so far, and its only step appends the records of some following
  blocks; every step of the program, whichever goroutine makes it, is such a step, with an
  empty addition when no batch is saved. In particular the next block never goes back and
  no saved record ever changes.\<close>

theorem program_refines_log:
  assumes "bolt_store B view" and "world_ok E C G cfg start H"
    and "starts_at st start e" and "e \<le> H" and "holds_records view T db []"
    and "system_run E G cfg (SaveData B T) (started_system st db s) S"
    and "system_step E G cfg (SaveData B T) S S'"
  shows "\<exists>b es b'. log_state view T (chain_records G (cfg_address cfg) C) start S b es \<and>
    log_state view T (chain_records G (cfg_address cfg) C) start S' b'
      (es @ records_between (chain_records G (cfg_address cfg) C) b b') \<and> b \<le> b'"
proof -
  let ?D = "chain_records G (cfg_address cfg) C"
  note inv = system_run_inv [OF assms(1-6)]
  note inv' = system_run_inv [OF assms(1-5) rtranclp.rtrancl_into_rtrancl [OF assms(6,7)]]
  have le: "next_block S \<le> next_block S'"
    using system_step_inv(2) [OF assms(1,2) inv assms(7)] by (simp add: next_block_seen)
  have "records_between ?D start (next_block S') =
      records_between ?D start (next_block S) @ records_between ?D (next_block S) (next_block S')"
    using system_saved(1) [OF assms(1,2) inv] le by (rule records_between_append)
  with le system_saved(3) [OF assms(1,2) inv] system_saved(3) [OF assms(1,2) inv'] show ?thesis
    unfolding log_state_def by metis
qed

theorem program_refines_log_witness:
  "\<exists>S'. system_step (chain_eth ref_served 9) ref_geth ref_config (SaveData ref_bolt ref_types) ref_system S' \<and>
    (\<exists>b es. log_state ref_view ref_types (chain_records ref_geth (cfg_address ref_config) ref_served) 0 S' b es)"
proof -
  have st: "system_step (chain_eth ref_served 9) ref_geth ref_config (SaveData ref_bolt ref_types) ref_system
      (embed (started_process ref_config ref_started ref_empty (ref_balancer 1 (- 1), 5)))"
    unfolding ref_system_def by (rule embed_started)
  from program_refines_log [OF ref.bolt_store_axioms ref_world_ok starts_at_ref holds_records_ref_empty
      rtranclp.rtrancl_refl st [unfolded ref_system_def]] st
  show ?thesis by blast
qed

text \<open>C5: no block is lost. As long as the process runs, each block between the next one to save
  and the end of the requested range is being fetched, or in an item on its way to the
  synchronizer, or waits to be saved.\<close>

theorem no_block_is_lost:
  assumes "bolt_store B view" and "world_ok E C G cfg start H"
    and "starts_at st start e" and "e \<le> H" and "holds_records view T db []"
    and "system_run E G cfg (SaveData B T) (started_system st db s) S"
    and "next_block S \<le> i" and "i \<le> sys_end S"
  shows "data_to_save (sys_sync S) i \<noteq> None \<or>
    (\<exists>item \<in> set (datachan (sys_sync S)). item_start item \<le> i \<and> i \<le> item_end item) \<or>
    (\<exists>t. t \<in># tasks_of S \<and> i \<in> task_range t)"
proof -
  have "on_its_way (seen [] S) i"
    using system_run_inv [OF assms(1-6)] assms(7,8)
    by (simp add: system_inv_def indexer.inv_def [OF scripted_model [OF assms(1,2)]] process_inv_def next_block_seen)
      (simp add: seen_def)
  then show ?thesis by (auto simp: on_its_way_def seen_def dest: synced_sub)
qed

theorem no_block_is_lost_witness:
  "\<exists>t. t \<in># tasks_of ref_system \<and> 3 \<in> task_range t"
proof -
  have "next_block ref_system = 0" "sys_end ref_system = 4" "data_to_save (sys_sync ref_system) = Map.empty"
    "datachan (sys_sync ref_system) = []"
    by (simp_all add: ref_system_def started_system_def ref_started_def next_block_def synced_def start_sync_def NewSynchronizer_def
        GetCurrBlock_def int_of_uint64_def uint64_of_int_def)
  then show ?thesis
    using no_block_is_lost [OF ref.bolt_store_axioms ref_world_ok starts_at_ref holds_records_ref_empty
      rtranclp.rtrancl_refl, where i = 3 and s = "(ref_balancer 1 (- 1), 5)"] by (simp add: ref_system_def)
qed

text \<open>C37: at most \<^verbatim>\<open>CONCURRENCY\<close> fetches are in their requests at the same time, where a fetch is in
  its requests from the call of \<^verbatim>\<open>GetLogs\<close> to the end of \<^verbatim>\<open>fetchData\<close>, its second request included;
  and while the process lives the semaphore is taken exactly once for each of them, so that
  no release is missing or comes too early.\<close>

theorem semaphore_bounds_fetches:
  assumes "bolt_store B view" and "world_ok E C G cfg start H"
    and "starts_at st start e" and "e \<le> H" and "holds_records view T db []"
    and "system_run E G cfg (SaveData B T) (started_system st db s) S"
    and "0 \<le> cfg_concurrency cfg"
  shows "int (size {#j \<in># jobs S. request_of cfg (fst j) \<noteq> None#}) \<le> cfg_concurrency cfg \<and>
    (sys_alive S \<longrightarrow> sem_held S = int (size {#j \<in># jobs S. request_of cfg (fst j) \<noteq> None#}))"
proof -
  have "size {#j \<in># jobs S. request_of cfg (fst j) \<noteq> None#} = running (tasks_of S)" by (rule requesting_jobs)
  with system_run_inv [OF assms(1-6)] assms(7) show ?thesis
    by (auto simp: system_inv_def system_ok_def indexer.inv_def [OF scripted_model [OF assms(1,2)]] process_inv_def
        seen_def)
qed

theorem semaphore_bounds_fetches_witness:
  "\<exists>S. ref_system_run ref_system S \<and> jobs S = {#(Fetching 0 4, Round 0)#} \<and> sem_held S = 1 \<and>
    int (size {#j \<in># jobs S. request_of ref_config (fst j) \<noteq> None#}) \<le> 100"
proof -
  have start: "sys_alive ref_system" "jobs ref_system = new_jobs {#Queued 0 4#}" "sem_held ref_system = 0"
    by (simp_all add: ref_system_def started_system_def ref_started_def)
  let ?S = "replace_job (Queued 0 4, Round 0) (Some {#Fetching 0 4#}) (ref_system\<lparr>sem_held := sem_held ref_system + 1\<rparr>)"
  have run: "ref_system_run ref_system ?S"
    by (rule r_into_rtranclp, rule system_step.acquire) (simp_all add: start ref_config_def)
  have "0 \<le> cfg_concurrency ref_config" "cfg_concurrency ref_config = 100" by (simp_all add: ref_config_def)
  with semaphore_bounds_fetches [OF ref.bolt_store_axioms ref_world_ok starts_at_ref holds_records_ref_empty,
      of ref_types "(ref_balancer 1 (- 1), 5)" ?S] run
  have "int (size {#j \<in># jobs ?S. request_of ref_config (fst j) \<noteq> None#}) \<le> 100" by (simp add: ref_system_def)
  moreover have "jobs ?S = {#(Fetching 0 4, Round 0)#}" "sem_held ?S = 1"
    by (simp_all add: replace_job_def start new_jobs_def)
  ultimately show ?thesis using run by blast
qed

text \<open>C6: the program can finish: if one client is healthy and has room for the work, no
  endpoint finds a single block too big, and the database accepts what it is given, then some
  interleaving saves every block of the requested range.\<close>

theorem program_completes:
  assumes "bolt_store B view" and "world_ok E C G cfg start H" and "reasonable_limits E"
    and "\<forall>rs n p e. SaveData B T rs n p \<noteq> Fail e" and "0 < cfg_concurrency cfg"
    and "starts_at st start e" and "e \<le> H" and "holds_records view T db []"
    and "served_by_one E cfg (weight (started_process cfg st db s)) s"
  shows "\<exists>S. system_run E G cfg (SaveData B T) (started_system st db s) S \<and> sys_alive S \<and> next_block S = e + 1 \<and>
    holds_records view T (sys_db S) (records_between (chain_records G (cfg_address cfg) C) start (e + 1))"
proof -
  let ?P = "started_process cfg st db s"
  have P: "alive ?P" "bal ?P = s" "end_block ?P = e"
    using assms(6) by (auto simp: started_process_def starts_at_def)
  have "0 < weight ?P" by (simp add: weight_def started_process_def tasks_weight_def width_def)
  with assms(9) have "lenClients (fst s) \<le> max_int"
    using room_clients [of cfg "weight ?P" "fst s" "snd s"] by (simp add: served_by_one_def)
  moreover have "indexer.inv (holds_records view T) (last_block_saved view) C cfg G start H ?P"
    by (rule run_model_inv [OF assms(1,2,6-8) rtranclp.rtrancl_refl])
  with completing.completes [OF completing_model [OF assms(1-3) _ assms(5)], of T ?P] assms(4,9) P
  obtain Q where "run (as_balancer E cfg) G cfg (SaveData B T) ?P Q" "alive Q" "end_block Q = e"
    "GetCurrBlock (synchronizer Q) = e + 1"
    "holds_records view T (database Q) (records_between (chain_records G (cfg_address cfg) C) start (e + 1))"
    by auto
  ultimately have "system_run E G cfg (SaveData B T) (embed ?P) (embed Q)" "sys_alive (embed Q)"
    "next_block (embed Q) = e + 1"
    "holds_records view T (sys_db (embed Q)) (records_between (chain_records G (cfg_address cfg) C) start (e + 1))"
    using run_embed [of E cfg G "SaveData B T" ?P Q] P(2)
    by (simp_all add: next_block_embed) (simp_all add: embed_def)
  with embed_started show ?thesis by (metis converse_rtranclp_into_rtranclp)
qed

theorem program_completes_witness:
  "\<exists>S. ref_system_run ref_system S \<and> next_block S = 5"
proof -
  have conc: "0 < cfg_concurrency ref_config" by (simp add: ref_config_def)
  have save: "\<forall>rs n p e. SaveData ref_bolt ref_types rs n p \<noteq> Fail e" using ref_save_works by blast
  have "served_by_one (chain_eth ref_served 9) ref_config
      (weight (started_process ref_config ref_started ref_empty (ref_balancer 1 (- 1), 5 :: int))) (ref_balancer 1 (- 1), 5)"
    using ref_process_facts(2) by (simp add: ref_process_def) (simp add: started_process_def)
  from program_completes [OF ref.bolt_store_axioms ref_world_ok served_reasonable save conc starts_at_ref
      holds_records_ref_empty this]
  show ?thesis unfolding ref_system_def by auto
qed

section \<open>From main\<close>

lemma StartOrchestrator_started:
  assumes "StartOrchestrator B A cfg db0 s0 = Some (Return st, db, s)"
  shows "sync_from st = fst (requested st) \<and>
    (orchestrated_from st = None \<or> orchestrated_from st = Some (snd (requested st))) \<and>
    (\<exists>mode \<in> {mode_range, mode_full}. StartDB B mode db0 = Return db)"
  using assms
  by (auto simp: StartOrchestrator_def manageRange_def manageFull_def obind_eq_Return Let_def
      split: if_splits outcome.splits)

text \<open>C17: what the process hands to its goroutines is what the theorems on the program start
  from. If neither the package-level variables, nor the \<^verbatim>\<open>init\<close> of the fetcher, nor \<^verbatim>\<open>main\<close>
  panics, the database was opened and started in one of the two modes, there is
  one client per endpoint of \<^verbatim>\<open>ENDPOINTS\<close>, in order, the synchronizer starts at the first block of
  the range requested, the orchestrator (in full mode) at its end, and the store holds no
  records, provided that the process runs in range mode, or the last one did, or the data bucket
  was empty or missing before. So in range mode a restart begins anew, whatever was saved.\<close>

theorem main_starts_program:
  assumes "bolt_store B view"
    and "process_start A env open_db B E w = Some (Return (cfg, decode, st, db, s))"
    and "(cfg_start_block cfg \<noteq> 0 \<and> cfg_end_block cfg \<noteq> 0) \<or>
      (\<forall>db0. open_db (cfg_db_path cfg) = Inr db0 \<longrightarrow>
        (\<exists>am. view db0 adminBucketName = Some am \<and> am modeIndex = Some mode_range) \<or>
        or_empty (view db0 dataBucketName) = Map.empty)"
    and "requested st = (start, e)" and "0 \<le> e" and "start \<le> e + 1"
  shows "starts_at st start e \<and> holds_records view T db [] \<and>
    env ''ENDPOINTS'' = Some (join '','' (map url (clients (fst s))))"
proof -
  note start = process_start_Return [OF assms(2)]
  from start have endpoints: "env ''ENDPOINTS'' = Some (join '','' (cfg_endpoints cfg))"
    using load_config_endpoints by blast
  obtain db0 b w' where db0: "open_db (cfg_db_path cfg) = Inr db0" and b: "NewBalancer E cfg w = (Return b, w')"
    and so: "StartOrchestrator B (as_balancer E cfg) cfg db0 (b, w') = Some (Return st, db, s)"
    using start
    by (auto simp: main_start_def NewPersistor_def of_sum_eq_Return split: outcome.splits prod.splits)
      (metis outcome.exhaust)
  note st = StartOrchestrator_started [OF so]
  from st obtain mode where mode: "mode \<in> {mode_range, mode_full}" "StartDB B mode db0 = Return db" by blast
  have "holds_records view T db []"
  proof (cases "cfg_start_block cfg \<noteq> 0 \<and> cfg_end_block cfg \<noteq> 0")
    case True
    with range_mode_starts [OF assms(1) _ _ so] show ?thesis by blast
  next
    case False
    with assms(3) db0 have "(\<exists>am. view db0 adminBucketName = Some am \<and> am modeIndex = Some mode_range) \<or>
        or_empty (view db0 dataBucketName) = Map.empty" by blast
    then show ?thesis
      using bolt_store.StartDB_view [OF assms(1) mode(2)] mode(1)
      by (auto simp: started_content_def keeps_data_def Let_def holds_records_def stored_Nil split: if_splits)
  qed
  moreover have "starts_at st start e" using st assms(4-6) by (simp add: starts_at_def)
  moreover have "same_clients b (fst s)"
    using so handleRounds_same_clients
    by (fastforce simp: StartOrchestrator_def manageRange_def manageFull_def as_balancer_def GetBlockFromTag_def
        split: if_splits outcome.splits prod.splits)
  moreover have "map url (clients b) = cfg_endpoints cfg"
    using b dial_all_clients [of E "cfg_endpoints cfg" "[]" w]
    by (auto simp: NewBalancer_def call_bind_def call_return_def split: prod.splits outcome.splits)
  ultimately show ?thesis using endpoints by (simp add: same_clients_def)
qed

text \<open>An environment for range mode, and an ABI that knows every topic.\<close>

definition ref_env :: env where
  "ref_env = [''ENDPOINTS'' \<mapsto> ''limited,good'', ''ADDRESS'' \<mapsto> ''0x01'', ''TOPIC'' \<mapsto> ''0x02'',
     ''START_BLOCK'' \<mapsto> ''3'', ''END_BLOCK'' \<mapsto> ''9'']"

definition ref_abi :: "unit abi_api" where
  "ref_abi = \<lparr>ParseABI = Inr (), EventByID = (\<lambda>_ _. Inr (\<lambda>d. Inr [Bytes32 d])), TopicHash = (\<lambda>t. t)\<rparr>"

definition ref_env_config :: config where
  "ref_env_config = ref_config\<lparr>cfg_start_block := 3, cfg_end_block := 9\<rparr>"

lemma load_config_ref_env: "load_config ref_env = Return ref_env_config"
  by (simp add: load_config_def package_variable_defs ref_env_def ref_env_config_def ref_config_def MustGetStringSlice_def
      MustGetString_def GetInt64_def GetString_def lookup_or_empty_def Let_def ParseInt_def ParseUint_def
      digit_value_def less_eq_char_def duration_def second_def millisecond_def go_int_id min_int_def max_int_def
      Split.simps cut.simps HasPrefix_def)

theorem main_starts_program_witness:
  "\<exists>cfg decode st db s. process_start ref_abi ref_env (\<lambda>path. Inr ref_after_full) ref_bolt ref_eth 5 =
      Some (Return (cfg, decode, st, db, s)) \<and> starts_at st 3 9 \<and> holds_records ref_view ref_types db [] \<and>
    ref_env ''ENDPOINTS'' = Some (join '','' (map url (clients (fst s))))"
proof -
  let ?cfg = ref_env_config
  obtain db where db: "StartDB ref_bolt mode_range ref_after_full = Return db"
    by (simp add: StartDB_def ref_bolt_def ref_after_full_def reset_for_range_def delete_if_present_def Let_def)
  obtain b where b: "NewBalancer ref_eth ?cfg 5 = (Return b, 5)"
    by (simp add: NewBalancer_def ref_eth_def ref_env_config_def ref_config_def call_bind_def call_return_def)
  let ?st = "\<lparr>sync_from = 3, requested = (3, 9), orchestrated_from = None\<rparr>"
  have "main_start (\<lambda>path. Inr ref_after_full) ref_bolt ref_eth ?cfg 5 = Some (Return (?st, db, (b, 5)))"
    by (simp add: main_start_def NewPersistor_def b StartOrchestrator_def manageRange_def db)
      (simp add: ref_env_config_def)
  then obtain decode where main: "process_start ref_abi ref_env (\<lambda>path. Inr ref_after_full) ref_bolt ref_eth 5 =
      Some (Return (?cfg, decode, ?st, db, (b, 5)))"
    by (simp add: process_start_def load_config_ref_env fetcher_init_def ref_abi_def)
  from main_starts_program [OF ref.bolt_store_axioms main, of 3 9 ref_types] main
  show ?thesis by (auto simp: ref_env_config_def)
qed

end
