(* ===== verification/Serving.thy ===== *)
theory Serving
  imports Router Interleaved
begin

text \<open>
  The clients of the program. A client reads a page, decodes the JSON text of the body, and
  follows the link of the page. The theory shows what such clients get from one database, and
  what they get while the program runs and saves more blocks between their requests.
\<close>

section \<open>Following the links\<close>

definition follow :: "string \<Rightarrow> request" where
  "follow link = (case Cut link ''?'' of (path, query) \<Rightarrow> \<lparr>url_path = path, raw_query = query\<rparr>)"

definition read_page :: "(request \<Rightarrow> http_response outcome) \<Rightarrow> request \<Rightarrow> response option" where
  "read_page server r =
     (case server r of
        Return resp \<Rightarrow> if status resp = 200 then read_response (content resp) else None
      | _ \<Rightarrow> None)"

text \<open>A client that makes one request to each of the servers in turn, until there is no link.
  It returns the records it has read and the request it would make next.\<close>

primrec crawl :: "(request \<Rightarrow> http_response outcome) list \<Rightarrow> request \<Rightarrow>
    (indexed_data_json list \<times> request option) option" where
  "crawl [] r = Some ([], Some r)"
| "crawl (server # later) r =
     (case read_page server r of
        None \<Rightarrow> None
      | Some page \<Rightarrow>
          if resp_next_page page = [] then Some (resp_data page, None)
          else map_option (\<lambda>(ds, next_request). (resp_data page @ ds, next_request))
            (crawl later (follow (resp_next_page page))))"

lemma follow_next_page:
  assumes "CHR ''?'' \<notin> set path"
  shows "follow (next_page_url path n l) = \<lparr>url_path = path, raw_query = page_query n l\<rparr>"
  using cut_char(1) [OF assms, of "page_query n l"] by (simp add: next_page_url_query follow_def Cut_def)

section \<open>Pages over the wire\<close>

definition ascii_hex :: "(bytes \<Rightarrow> string) \<Rightarrow> bool" where
  "ascii_hex hex \<longleftrightarrow> (\<forall>b. ascii (hex b))"

text \<open>A server that gives the pages of \<open>es\<close> at a path.\<close>

definition gives_pages :: "(bytes \<Rightarrow> string) \<Rightarrow> string \<Rightarrow> int \<Rightarrow> (request \<Rightarrow> http_response outcome) \<Rightarrow>
    indexed_data list \<Rightarrow> bool" where
  "gives_pages hex path l server es \<longleftrightarrow> int (length es) \<le> max_int \<and>
     (\<forall>start. 0 \<le> start \<and> start \<le> max_int \<longrightarrow>
       read_page server \<lparr>url_path = path, raw_query = page_query start l\<rparr> =
         Some \<lparr>resp_data = page_of hex es start l,
               resp_next_page = (if start + l \<le> int (length es) then next_page_url path (start + l) l else [])\<rparr>)"

lemma ascii_next_page_url: "ascii path \<Longrightarrow> ascii (next_page_url path n l)"
  using ascii_Itoa [of n] ascii_Itoa [of l] by (auto simp: next_page_url_def ascii_def)

lemma record_ok_page:
  assumes "ascii_hex hex" "int (length es) \<le> max_int" "d \<in> set (page_of hex es start l)"
  shows "record_ok d"
  using assms int_of_uint64_range
  by (auto simp: page_of_def record_ok_def json_of_def ascii_hex_def ascii_valid min_int_def)

lemma serves_gives_pages:
  assumes "serves B view G db es" "0 < l" "is_int64 l" "ascii path" "ascii_hex hex"
    and "\<And>r. url_path r = path \<Longrightarrow> server r = getPaginated B G hex db r"
  shows "gives_pages hex path l server es"
proof -
  have len: "int (length es) \<le> max_int" using assms(1) by (simp add: serves_def)
  have "read_page server \<lparr>url_path = path, raw_query = page_query start l\<rparr> =
      Some \<lparr>resp_data = page_of hex es start l,
            resp_next_page = (if start + l \<le> int (length es) then next_page_url path (start + l) l else [])\<rparr>"
    if "0 \<le> start" "start \<le> max_int" for start
  proof -
    let ?page = "\<lparr>resp_data = page_of hex es start l,
        resp_next_page = (if start + l \<le> int (length es) then next_page_url path (start + l) l else [])\<rparr>"
    have "read_response (Encode ?page) = Some ?page"
      using record_ok_page [OF assms(5) len] ascii_valid [OF ascii_next_page_url [OF assms(4)]]
      by (intro read_response_Encode) (auto simp: valid_utf8.simps [of "[]"])
    with serves_getPaginated [OF assms(1) that assms(2,3), of hex path] assms(6) show ?thesis
      by (simp add: read_page_def)
  qed
  with len show ?thesis by (simp add: gives_pages_def)
qed

text \<open>Reading from servers whose records only grow: what is read is a run of the records of the
  last server; the client either stops at the end of what some server had, or goes on after
  the last record it has read.\<close>

definition grows_to :: "indexed_data list \<Rightarrow> indexed_data list list \<Rightarrow> bool" where
  "grows_to E ess \<longleftrightarrow> (\<forall>es \<in> set ess. \<exists>added. E = es @ added) \<and> sorted (map length ess)"

definition reached :: "string \<Rightarrow> int \<Rightarrow> nat \<Rightarrow> indexed_data list list \<Rightarrow> request option \<Rightarrow> nat \<Rightarrow> bool" where
  "reached path l start ess next_request m \<longleftrightarrow>
     (case next_request of
        None \<Rightarrow> \<exists>es \<in> set ess. m = length es
      | Some r \<Rightarrow> r = \<lparr>url_path = path, raw_query = page_query (int m) l\<rparr> \<and> m = start + nat l * length ess)"

lemma page_of_prefix:
  assumes "start + nat l \<le> length es" "E = es @ added" "0 < l"
  shows "page_of hex es (int start) l = map (\<lambda>i. json_of hex (int i) (E ! i)) [start..<start + nat l]"
  using assms by (auto simp: page_of_def nth_append min_absorb2)

lemma last_page_of_prefix:
  assumes "start \<le> length es" "\<not> start + nat l \<le> length es" "E = es @ added" "0 < l"
  shows "page_of hex es (int start) l = map (\<lambda>i. json_of hex (int i) (E ! i)) [start..<length es]"
  using assms by (auto simp: page_of_def nth_append min_def)

lemma crawl_growing:
  assumes "CHR ''?'' \<notin> set path" "0 < l"
    and "list_all2 (gives_pages hex path l) servers ess"
    and "grows_to E ess" "\<forall>es \<in> set ess. start \<le> length es" "int (length E) \<le> max_int" "start \<le> length E"
  shows "\<exists>next_request m. crawl servers \<lparr>url_path = path, raw_query = page_query (int start) l\<rparr> =
      Some (map (\<lambda>i. json_of hex (int i) (E ! i)) [start..<m], next_request) \<and>
    start \<le> m \<and> m \<le> length E \<and> reached path l start ess next_request m"
  using assms(3-5,7)
proof (induction servers ess arbitrary: start rule: list_all2_induct)
  case Nil
  then show ?case by (auto simp: reached_def intro: exI [of _ start])
next
  case (Cons server servers es ess)
  from Cons.prems(1) obtain added where added: "E = es @ added" by (auto simp: grows_to_def)
  have bound: "0 \<le> int start" "int start \<le> max_int" using Cons.prems(3) assms(6) by simp_all
  with Cons.hyps(1) have page: "read_page server \<lparr>url_path = path, raw_query = page_query (int start) l\<rparr> =
      Some \<lparr>resp_data = page_of hex es (int start) l,
        resp_next_page = (if int start + l \<le> int (length es) then next_page_url path (int start + l) l else [])\<rparr>"
    by (simp add: gives_pages_def)
  have iff: "int start + l \<le> int (length es) \<longleftrightarrow> start + nat l \<le> length es" using assms(2) by linarith
  show ?case
  proof (cases "start + nat l \<le> length es")
    case False
    have "start \<le> length es" using Cons.prems(2) by simp
    then have "crawl (server # servers) \<lparr>url_path = path, raw_query = page_query (int start) l\<rparr> =
        Some (map (\<lambda>i. json_of hex (int i) (E ! i)) [start..<length es], None)"
      using page iff False last_page_of_prefix [OF _ False added assms(2)] by simp
    moreover have "length es \<le> length E" using added by simp
    ultimately show ?thesis using \<open>start \<le> length es\<close> by (fastforce simp: reached_def)
  next
    case True
    let ?s = "start + nat l"
    have s: "int ?s = int start + l" using assms(2) by simp
    have "?s \<le> length E" using True added by simp
    moreover have "\<forall>es' \<in> set ess. ?s \<le> length es'" "grows_to E ess"
      using Cons.prems(1) True by (auto simp: grows_to_def)
    ultimately obtain next_request m where m: "crawl servers \<lparr>url_path = path, raw_query = page_query (int ?s) l\<rparr> =
        Some (map (\<lambda>i. json_of hex (int i) (E ! i)) [?s..<m], next_request)"
      "?s \<le> m" "m \<le> length E" "reached path l ?s ess next_request m"
      using Cons.IH [of ?s] by blast
    have "next_page_url path (int start + l) l \<noteq> []" by (simp add: next_page_url_query)
    then have "crawl (server # servers) \<lparr>url_path = path, raw_query = page_query (int start) l\<rparr> =
        Some (map (\<lambda>i. json_of hex (int i) (E ! i)) ([start..<?s] @ [?s..<m]), next_request)"
      using page iff True m(1) [unfolded s] page_of_prefix [OF True added assms(2), of hex]
      by (simp add: follow_next_page [OF assms(1)] s)
    moreover have "[start..<?s] @ [?s..<m] = [start..<m]"
      using m(2) by (metis le_add1 le_Suc_ex upt_add_eq_append)
    moreover have "reached path l start (es # ess) next_request m"
      using m(4) by (auto simp: reached_def split: option.splits)
    ultimately show ?thesis using m(2,3) by (metis add_leD1)
  qed
qed

lemma follow_page:
  "CHR ''?'' \<notin> set path \<Longrightarrow> \<lparr>url_path = path, raw_query = page_query n l\<rparr> = follow (next_page_url path n l)"
  by (simp add: follow_next_page)

section \<open>Properties\<close>

text \<open>C13: what a client decodes of the body that \<^verbatim>\<open>/data\<close> sends is the page it asked for. For a
  start index of at least 0 and any limit, the bytes are JSON with the records from that index
  on, at most the limit (10 when the limit is missing, not a number or not positive), and a link
  to the next page exactly when the page is full; escaping does not change a path or a link.
  A page that is full and ends with the last record has a link too, although no more data is
  available: the page it leads to has no record. The README promises the link only if there is
  more data.\<close>

theorem data_body_decodes:
  assumes "serves B view G db es" and "ascii_hex hex" and "valid_utf8 (url_path r)"
    and "start = fst (Atoi (query_get (ParseQuery (raw_query r)) ''startIndex''))" and "0 \<le> start"
    and "limit = page_limit (ParseQuery (raw_query r))"
  shows "\<exists>resp page. getPaginated B G hex db r = Return resp \<and> status resp = 200 \<and>
    content_type resp = Some ''application/json'' \<and> read_response (content resp) = Some page \<and>
    page = \<lparr>resp_data = page_of hex es start limit,
       resp_next_page = (if start + limit \<le> int (length es)
         then url_path r @ ''?startIndex='' @ Itoa (start + limit) @ ''&limit='' @ Itoa limit else [])\<rparr> \<and>
    (start + limit = int (length es) \<longrightarrow> resp_next_page page \<noteq> [] \<and> page_of hex es (start + limit) limit = [])"
proof -
  let ?link = "''?startIndex='' @ Itoa (start + limit) @ ''&limit='' @ Itoa limit"
  let ?page = "\<lparr>resp_data = page_of hex es start limit,
    resp_next_page = (if start + limit \<le> int (length es) then url_path r @ ?link else [])\<rparr>"
  have "int (length es) \<le> max_int" using assms(1) by (simp add: serves_def)
  moreover have "ascii ?link" using ascii_Itoa [of "start + limit"] ascii_Itoa [of limit] by (auto simp: ascii_def)
  ultimately have "read_response (Encode ?page) = Some ?page"
    using record_ok_page [OF assms(2)] valid_utf8_append [OF assms(3) ascii_valid]
    by (intro read_response_Encode) (auto simp: valid_utf8.simps [of "[]"])
  moreover have "page_of hex es (start + limit) limit = []" if "start + limit = int (length es)"
    using that by (simp add: page_of_def)
  ultimately show ?thesis
    using getPaginated_page_response [OF assms(1,4-6), of hex] by auto
qed

theorem data_body_decodes_witness:
  "\<exists>db resp page. getPaginated ref_bolt ref_types (\<lambda>_. ''0x'') db \<lparr>url_path = ''/data'', raw_query = page_query 0 2\<rparr> =
      Return resp \<and> read_response (content resp) = Some page \<and>
    resp_data page = page_of (\<lambda>_. ''0x'') [zero_data, zero_data] 0 2 \<and> resp_next_page page \<noteq> [] \<and>
    page_of (\<lambda>_. ''0x'') [zero_data, zero_data] 2 2 = []"
proof -
  obtain db where db: "serves ref_bolt ref_view ref_types db [zero_data, zero_data]" using ref_serves by blast
  have "0 = fst (Atoi (query_get (ParseQuery (page_query 0 2)) ''startIndex''))" "2 = page_limit (ParseQuery (page_query 0 2))"
    by (simp_all add: query_get_page_query page_limit_page_query Atoi_def ParseInt_Itoa min_int_def max_int_def)
  moreover have "ascii_hex (\<lambda>_. ''0x'')" "valid_utf8 ''/data''" by (simp_all add: ascii_hex_def ascii_def ascii_valid)
  ultimately show ?thesis
    using data_body_decodes [OF db, of "\<lambda>_. ''0x''" "\<lparr>url_path = ''/data'', raw_query = page_query 0 2\<rparr>" 0 2]
    by (intro exI [of _ db]) auto
qed

text \<open>C12: following the links from any page reads every record from its start index to the
  end exactly once, in order, each under its own number, and then stops. One request per
  record and one more are enough.\<close>

theorem links_enumerate_records:
  assumes "serves B view G db es" and "CHR ''?'' \<notin> set path" and "ascii path" and "ascii_hex hex"
    and "0 < limit" and "limit \<le> max_int" and "start \<le> length es"
  shows "crawl (replicate (Suc (length es)) (getPaginated B G hex db)) (follow (next_page_url path (int start) limit)) =
    Some (map (\<lambda>i. json_of hex (int i) (es ! i)) [start..<length es], None)"
proof -
  let ?n = "Suc (length es)" and ?server = "getPaginated B G hex db"
  have "is_int64 limit" using assms(5,6) by (simp add: min_int_def)
  from serves_gives_pages [OF assms(1,5) this assms(3,4) refl]
  have "list_all2 (gives_pages hex path limit) (replicate ?n ?server) (replicate ?n es)"
    by (simp add: list_all2_conv_all_nth del: replicate.simps)
  moreover have "grows_to es (replicate ?n es)" by (auto simp: grows_to_def sorted_replicate)
  moreover have "int (length es) \<le> max_int" using assms(1) by (simp add: serves_def)
  ultimately obtain next_request m where
    c: "crawl (replicate ?n ?server) \<lparr>url_path = path, raw_query = page_query (int start) limit\<rparr> =
      Some (map (\<lambda>i. json_of hex (int i) (es ! i)) [start..<m], next_request)"
    and m: "start \<le> m" "m \<le> length es" "reached path limit start (replicate ?n es) next_request m"
    using crawl_growing [OF assms(2,5) _ _ _ _ assms(7), of hex "replicate ?n ?server" "replicate ?n es"] assms(7)
    by auto
  have "1 * ?n \<le> nat limit * ?n" using assms(5) by (intro mult_le_mono1) simp
  with m have "next_request = None" by (auto simp: reached_def split: option.splits)
  with m c show ?thesis
    by (simp add: follow_page [OF assms(2)] reached_def del: replicate.simps crawl.simps)
qed

theorem links_enumerate_records_witness:
  "\<exists>db. crawl (replicate 3 (getPaginated ref_bolt ref_types (\<lambda>_. ''0x'') db)) (follow ''/data?startIndex=0&limit=1'') =
    Some ([json_of (\<lambda>_. ''0x'') 0 zero_data, json_of (\<lambda>_. ''0x'') 1 zero_data], None)"
proof -
  obtain db where db: "serves ref_bolt ref_view ref_types db [zero_data, zero_data]" using ref_serves by blast
  have "next_page_url ''/data'' 0 1 = ''/data?startIndex=0&limit=1''" by code_simp
  moreover have "ascii ''/data''" "ascii_hex (\<lambda>_. ''0x'')" by (simp_all add: ascii_def ascii_hex_def)
  ultimately show ?thesis
    using links_enumerate_records [OF db, of "''/data''" "\<lambda>_. ''0x''" 1 0]
    by (auto simp: max_int_def numeral_3_eq_3 upt_rec simp del: crawl.simps)
qed

text \<open>The records before a later block extend those before an earlier one.\<close>

lemma records_grow:
  assumes "bolt_store B view" and "world_ok E C G cfg start H"
    and "starts_at st start e" and "e \<le> H" and "holds_records view T db []"
    and "system_run E G cfg (SaveData B T) (started_system st db s) S"
    and "system_run E G cfg (SaveData B T) S S'"
  shows "\<exists>added. records_between (chain_records G (cfg_address cfg) C) start (next_block S') =
    records_between (chain_records G (cfg_address cfg) C) start (next_block S) @ added"
  using assms(7)
proof (induction rule: rtranclp_induct)
  case base
  then show ?case by simp
next
  case (step S1 S2)
  let ?D = "chain_records G (cfg_address cfg) C"
  have run: "system_run E G cfg (SaveData B T) (started_system st db s) S1"
    using assms(6) step.hyps(1) by (rule rtranclp_trans)
  note inv = system_run_inv [OF assms(1-5) run]
  have "next_block S1 \<le> next_block S2"
    using system_step_inv(2) [OF assms(1,2) inv step.hyps(2)] by (simp add: next_block_seen)
  with system_saved(1) [OF assms(1,2) inv] have "records_between ?D start (next_block S2) =
      records_between ?D start (next_block S1) @ records_between ?D (next_block S1) (next_block S2)"
    by (rule records_between_append)
  with step.IH show ?case by auto
qed

text \<open>C1: what clients read is the chain, while the program runs. A client gets \<^verbatim>\<open>/data\<close> from
  record 0, decodes the JSON text, and follows the links; between its requests the program may
  make any number of steps and save any number of blocks. Whatever page size is asked for, it
  reads exactly the first \<open>m\<close> events of the configured address in chain order, numbered from 0,
  without a gap or a repetition: if it still has a link, all its pages were full and the link
  is to record \<open>m\<close>; if it has none, \<open>m\<close> is the number of events in the blocks that were saved
  at one of the requests.\<close>

theorem clients_read_the_chain:
  assumes "bolt_store B view" and "world_ok E C G cfg start H"
    and "starts_at st start e" and "e \<le> H" and "holds_records view T db []"
    and "system_run E G cfg (SaveData B T) (started_system st db s) (hd Ss)" and "Ss \<noteq> []"
    and "sorted_wrt (system_run E G cfg (SaveData B T)) Ss"
    and "gob_types_wf T" and "\<forall>i. \<forall>d \<in> set (chain_records G (cfg_address cfg) C i). indexed_data_wf d"
    and "\<forall>S \<in> set Ss. \<exists>tx. b_view B (sys_db S) = Inr tx" and "0 < limit" and "limit \<le> max_int"
    and "gorilla_mux M" and "ascii_hex hex"
    and "es = records_between (chain_records G (cfg_address cfg) C) start (next_block (last Ss))"
  shows "\<exists>m next_request.
    crawl (map (\<lambda>S. ServeHTTP M B T hex (sys_db S) (sys_sync S) ''GET'') Ss) (follow (next_page_url ''/data'' 0 limit)) =
      Some (map (\<lambda>i. json_of hex (int i) (es ! i)) [0..<m], next_request) \<and> m \<le> length es \<and>
    (case next_request of
       None \<Rightarrow> \<exists>S \<in> set Ss. m = length (records_between (chain_records G (cfg_address cfg) C) start (next_block S))
     | Some r \<Rightarrow> m = nat limit * length Ss \<and> r = follow (next_page_url ''/data'' (int m) limit))"
proof -
  let ?D = "chain_records G (cfg_address cfg) C"
  let ?es = "\<lambda>S. records_between ?D start (next_block S)"
  let ?run = "system_run E G cfg (SaveData B T)"
  have run: "?run (started_system st db s) S" if "S \<in> set Ss" for S
    using assms(6-8) that by (cases Ss) (auto intro: rtranclp_trans)
  note saved = system_saved [OF assms(1,2) system_run_inv [OF assms(1-5) run]]
  have lim: "is_int64 limit" using assms(12,13) by (simp add: min_int_def)
  have path: "CHR ''?'' \<notin> set ''/data''" and "ascii ''/data''" by (simp_all add: ascii_def)
  have "gives_pages hex ''/data'' limit (ServeHTTP M B T hex (sys_db S) (sys_sync S) ''GET'') (?es S)"
    if S: "S \<in> set Ss" for S
  proof (rule serves_gives_pages [OF _ assms(12) lim \<open>ascii ''/data''\<close> assms(15)])
    have "\<forall>d \<in> set (?es S). indexed_data_wf d" using assms(10) by (auto simp: records_between_def)
    with assms(1,9,11) S saved(3,5) [OF S] show "serves B view T (sys_db S) (?es S)" by (auto simp: serves_def)
  qed (rule ServeHTTP_get(2) [OF assms(14)])
  then have pages: "list_all2 (gives_pages hex ''/data'' limit)
      (map (\<lambda>S. ServeHTTP M B T hex (sys_db S) (sys_sync S) ''GET'') Ss) (map ?es Ss)"
    by (simp add: list.rel_map list_all2_same)
  have grows: "grows_to es (map ?es Ss)"
  proof -
    have "\<exists>added. ?es S' = ?es S @ added" if "S \<in> set Ss" "?run S S'" for S S'
      using records_grow [OF assms(1-5) run [OF that(1)] that(2)] .
    moreover have "?run S (last Ss)" if "S \<in> set Ss" for S
      using assms(7,8) that by (cases Ss rule: rev_cases) (auto simp: sorted_wrt_append)
    ultimately have "\<forall>S \<in> set Ss. \<exists>added. es = ?es S @ added" by (simp add: assms(16))
    moreover have "sorted_wrt (\<lambda>S S'. length (?es S) \<le> length (?es S')) Ss"
      by (rule sorted_wrt_mono_rel [OF _ assms(8)]) (use records_grow [OF assms(1-5) run] in fastforce)
    ultimately show ?thesis by (auto simp: grows_to_def sorted_map sorted_wrt_map)
  qed
  have "int (length es) \<le> max_int" using saved(5) assms(7,16) by auto
  from crawl_growing [OF path assms(12) pages grows _ this, of 0] obtain next_request m where
    "crawl (map (\<lambda>S. ServeHTTP M B T hex (sys_db S) (sys_sync S) ''GET'') Ss)
       \<lparr>url_path = ''/data'', raw_query = page_query (int 0) limit\<rparr> =
      Some (map (\<lambda>i. json_of hex (int i) (es ! i)) [0..<m], next_request)"
    "m \<le> length es" "reached ''/data'' limit 0 (map ?es Ss) next_request m"
    by auto
  then show ?thesis
    by (intro exI [of _ m] exI [of _ next_request])
      (auto simp: follow_page [OF path] reached_def simp del: crawl.simps split: option.splits)
qed

theorem clients_read_the_chain_witness:
  "\<exists>S. ref_system_run ref_system S \<and>
    crawl [ServeHTTP ref_mux ref_bolt ref_types (\<lambda>_. ''0x'') (sys_db S) (sys_sync S) ''GET'']
      (follow (next_page_url ''/data'' 0 10)) =
      Some ([json_of (\<lambda>_. ''0x'') 0 (log_record ref_geth ref_served ref_log)], None)"
proof -
  obtain S where S: "ref_system_run ref_system S" "next_block S = 5" using ref_system_completes by blast
  have inv: "log_involved ref_geth ''0x01'' ref_served ref_log"
    by (simp add: log_involved_def ref_geth_def ref_served_def ref_log_def involves_def) code_simp
  have D: "chain_records ref_geth (cfg_address ref_config) ref_served i =
      (if i = 3 then [log_record ref_geth ref_served ref_log] else [])" for i
    using inv by (simp add: chain_records_def ref_served_def ref_config_def)
  have "indexed_data_wf (log_record ref_geth ref_served ref_log)"
    by (simp add: indexed_data_wf_def log_record_def ref_geth_def ref_served_def)
  then have wf: "\<forall>i. \<forall>d \<in> set (chain_records ref_geth (cfg_address ref_config) ref_served i). indexed_data_wf d"
    by (simp add: D)
  have es: "[log_record ref_geth ref_served ref_log] =
      records_between (chain_records ref_geth (cfg_address ref_config) ref_served) 0 (next_block (last [S]))"
    by (simp add: S(2) records_between_def upto.simps D)
  have run: "ref_system_run (started_system ref_started ref_empty (ref_balancer 1 (- 1), 5)) (hd [S])"
    using S(1) by (simp add: ref_system_def)
  have view: "\<forall>S' \<in> set [S]. \<exists>tx. b_view ref_bolt (sys_db S') = Inr tx" by (simp add: ref_bolt_def)
  have hex: "ascii_hex (\<lambda>_. ''0x'')" by (simp add: ascii_hex_def ascii_def)
  have "[S] \<noteq> []" "sorted_wrt ref_system_run [S]" "(0 :: int) < 10" "(10 :: int) \<le> max_int"
    by (simp_all add: max_int_def)
  from clients_read_the_chain [OF ref.bolt_store_axioms ref_world_ok starts_at_ref holds_records_ref_empty run
      this(1,2) gob_types_wf_ref_types wf view this(3,4) gorilla_mux_ref_mux hex es]
  obtain m next_request where m:
    "crawl [ServeHTTP ref_mux ref_bolt ref_types (\<lambda>_. ''0x'') (sys_db S) (sys_sync S) ''GET'']
      (follow (next_page_url ''/data'' 0 10)) =
      Some (map (\<lambda>i. json_of (\<lambda>_. ''0x'') (int i) ([log_record ref_geth ref_served ref_log] ! i)) [0..<m], next_request)"
    "m \<le> 1" "case next_request of
        None \<Rightarrow> m = length (records_between (chain_records ref_geth (cfg_address ref_config) ref_served) 0 (next_block S))
      | Some r \<Rightarrow> m = 10"
    by (auto simp del: crawl.simps split: option.splits)
  have "length (records_between (chain_records ref_geth (cfg_address ref_config) ref_served) 0 (next_block S)) = 1"
    using arg_cong [OF es, of length] by simp
  with m(2,3) have "m = 1 \<and> next_request = None" by (cases next_request) simp_all
  with m(1) S(1) show ?thesis by auto
qed

text \<open>C38: once a block has been saved, \<^verbatim>\<open>/last-block-indexed\<close> returns the last block that the
  database records, or, between the end of a transaction and the update of the counters, an
  earlier one: it never names a block that is not in the database.\<close>

theorem last_block_indexed_is_saved:
  assumes "bolt_store B view" and "world_ok E C G cfg start H"
    and "starts_at st start e" and "e \<le> H" and "holds_records view T db []"
    and "system_run E G cfg (SaveData B T) (started_system st db s) S"
    and "b_view B (sys_db S) = Inr tx" and "start < GetCurrBlock (sys_sync S)"
    and "gorilla_mux M" and "url_path r = ''/last-block-indexed''"
  shows "\<exists>n m. GetLastBlockIndex B (sys_db S) = Return n \<and>
    ServeHTTP M B T hex (sys_db S) (sys_sync S) ''GET'' r =
      Return \<lparr>status = 200, content_type = None, content = Itoa m\<rparr> \<and>
    start \<le> m \<and> m \<le> n \<and> (starting_at S = None \<and> committed S = None \<longrightarrow> m = n)"
proof -
  let ?m = "GetCurrBlock (sys_sync S) - 1" and ?n = "next_block S - 1"
  have "system_ok E cfg S" using system_run_inv [OF assms(1-6)] by (simp add: system_inv_def)
  then have le: "?m \<le> ?n" by (simp add: system_ok_def next_block_def)
  note saved = system_saved [OF assms(1,2) system_run_inv [OF assms(1-6)]]
  have n: "is_int64 ?n" "0 \<le> ?n" "is_int64 ?m" using saved(2,6,7) assms(8) le by (simp_all add: min_int_def)
  obtain am where "view (sys_db S) adminBucketName = Some am" "am lastBlockIndex = Some (IntToBytes ?n)"
    using saved(4) assms(8) le by (auto simp: last_block_saved_def)
  with bolt_store.GetLastBlockIndex_eq [OF assms(1) _ assms(7), of am] n length_IntToBytes [of ?n]
  have "GetLastBlockIndex B (sys_db S) = Return ?n"
    by (auto simp: BytesToInt_IntToBytes_go_int go_int_id simp del: length_IntToBytes)
  with n le assms(8) synced_plain [of S] show ?thesis
    by (intro exI [of _ ?n] exI [of _ ?m])
      (simp add: ServeHTTP_get(3) [OF assms(9,10)] getLatestBlockIndexed_def go_int_id next_block_def)
qed

theorem last_block_indexed_is_saved_witness:
  "\<exists>S n. ref_system_run ref_system S \<and> GetLastBlockIndex ref_bolt (sys_db S) = Return n \<and>
    ServeHTTP ref_mux ref_bolt ref_types (\<lambda>_. ''0x'') (sys_db S) (sys_sync S) ''GET''
        \<lparr>url_path = ''/last-block-indexed'', raw_query = []\<rparr> =
      Return \<lparr>status = 200, content_type = None, content = Itoa n\<rparr>"
proof -
  obtain S where S: "ref_system_run ref_system S" "next_block S = 5" "starting_at S = None" "committed S = None"
    using ref_system_completes by blast
  have v: "b_view ref_bolt (sys_db S) = Inr (sys_db S)" by (simp add: ref_bolt_def)
  have "(0 :: int) < GetCurrBlock (sys_sync S)" using S(2-4) by (simp add: next_block_def synced_plain)
  from last_block_indexed_is_saved [OF ref.bolt_store_axioms ref_world_ok starts_at_ref holds_records_ref_empty
      S(1) [unfolded ref_system_def] v this gorilla_mux_ref_mux,
      of "\<lparr>url_path = ''/last-block-indexed'', raw_query = []\<rparr>" "\<lambda>_. ''0x''"] S(1,3,4)
  show ?thesis by (simp only: request.select_convs) blast
qed

text \<open>Right after the start from a block other than 0, before anything is saved,
  \<^verbatim>\<open>/last-block-indexed\<close> returns the block before the start, while the database has no last
  block and \<^verbatim>\<open>GetLastBlockIndex\<close> returns -1.\<close>

theorem last_block_before_first_save:
  assumes "bolt_store B view" and "sync_from st = start" and "0 < start" and "start \<le> max_int"
    and "view db adminBucketName = Some am" and "am lastBlockIndex = None" and "b_view B db = Inr tx"
  shows "getLatestBlockIndexed (start_sync start (sys_sync (started_system st db s))) r =
      \<lparr>status = 200, content_type = None, content = Itoa (start - 1)\<rparr> \<and>
    GetLastBlockIndex B db = Return (- 1)"
proof -
  have "GetCurrBlock (start_sync start NewSynchronizer) = start"
    using assms(3,4)
    by (simp add: start_sync_def NewSynchronizer_def GetCurrBlock_def go_arith min_int_def)
  then show ?thesis
    using assms bolt_store.GetLastBlockIndex_eq [OF assms(1,5,7)]
    by (simp add: getLatestBlockIndexed_def started_system_def go_int_id min_int_def)
qed

theorem last_block_before_first_save_witness:
  "GetLastBlockIndex ref_bolt ref_empty = Return (- 1)"
proof -
  have v: "ref_view ref_empty adminBucketName = Some Map.empty" "b_view ref_bolt ref_empty = Inr ref_empty"
    "(Map.empty :: bytes \<rightharpoonup> bytes) lastBlockIndex = None" "(3 :: int) \<le> max_int" "(0 :: int) < 3"
    "sync_from (ref_started\<lparr>sync_from := 3\<rparr>) = 3"
    by (simp_all add: ref_view_def ref_empty_def ref_bolt_def max_int_def)
  show ?thesis
    by (rule conjunct2 [OF last_block_before_first_save [OF ref.bolt_store_axioms v(6,5,4,1,3,2)]])
qed


end
