(* ===== verification/Restart.thy ===== *)
theory Restart
  imports Serving
begin

text \<open>
  What goes wrong when a process in full mode is stopped and started again: it numbers its
  records from 0, and when it is in sync it requests a range that ends before it begins.
\<close>

section \<open>Records are overwritten\<close>

text \<open>A record that differs from the all-zero one.\<close>

definition ref_record :: indexed_data where
  "ref_record = \<lparr>l1_info_root = replicate 32 (CHR ''r''), block_time = 7, block_parent_hash = replicate 32 (CHR ''h'')\<rparr>"

text \<open>C23: a restart overwrites records. The synchronizer of a restarted process resumes at the
  block after the last saved one, but counts its records from 0 again: the first batch it
  saves replaces the records 0, 1, ... of the earlier run instead of following them.\<close>

theorem restart_overwrites_records:
  assumes "bolt_store B view" and "holds_records view T db es" and "int (length es) \<le> max_int"
    and "s = (start_sync b NewSynchronizer)\<lparr>data_to_save := m\<rparr>"
    and "0 \<le> b" and "b < j" and "j \<le> max_int"
    and "\<forall>i. b \<le> i \<and> i < j \<longrightarrow> m i \<noteq> None" and "m j = None"
    and "ds = records_between (block_records m) b j" and "int (length ds) \<le> max_int"
    and "sync_tick (SaveData B T) (s, db) = Some (Return (s', db'))" and "s' \<noteq> s"
  shows "GetCurrBlock s' = j \<and> view db' dataBucketName = Some (stored T (ds @ drop (length ds) es))"
proof -
  have s: "int_of_uint64 (curr_block s) = b" "int_of_uint64 (curr_index s) = 0" "data_to_save s = m"
    using assms(4-7)
    by (simp_all add: start_sync_def NewSynchronizer_def go_arith min_int_def int_of_uint64_def [of 0])
  have eq: "save (SaveData B T) (s, db) = Some (obind (SaveData B T (number_from 0 ds) (j - 1) db) (\<lambda>p'.
      Return (s\<lparr>curr_block := uint64_of_int j, curr_index := uint64_of_int (0 + int (length ds)),
        data_to_save := (\<lambda>i. if b \<le> i \<and> i < j then None else data_to_save s i)\<rparr>, p')))"
    by (rule save_eq [OF s(1,2)]) (use assms(5-11) s(3) in \<open>simp_all add: min_int_def\<close>)
  then obtain db1 where db1: "SaveData B T (number_from 0 ds) (j - 1) db = Return db1"
    using assms(12,13) by (cases "SaveData B T (number_from 0 ds) (j - 1) db") (simp_all add: sync_tick_def)
  with eq assms(12) have new: "db' = db1" "curr_block s' = uint64_of_int j" by (auto simp: sync_tick_def)
  from assms(2) obtain am where "view db dataBucketName = Some (stored T es)" "view db adminBucketName = Some am"
    by (auto simp: holds_records_def)
  from bolt_store.SaveData_view [OF assms(1) this db1]
  have "view db' dataBucketName = Some (put_registers T (number_from 0 ds) (stored T es))"
    by (simp add: new(1))
  moreover have "put_registers T (number_from 0 ds) (stored T es) = stored T (ds @ drop (length ds) es)"
    using put_registers_overwrite [of "[]" es T ds] assms(3) by simp
  moreover have "GetCurrBlock s' = j"
    using assms(5-7) by (simp add: GetCurrBlock_def new(2) go_arith min_int_def)
  ultimately show ?thesis by simp
qed

theorem restart_overwrites_records_witness:
  "\<exists>db s' db'. holds_records ref_view ref_types db [zero_data, zero_data] \<and>
    sync_tick (SaveData ref_bolt ref_types)
      ((start_sync 8 NewSynchronizer)\<lparr>data_to_save := [8 \<mapsto> [ref_record]]\<rparr>, db) = Some (Return (s', db')) \<and>
    ref_view db' dataBucketName = Some (stored ref_types [ref_record, zero_data])"
proof -
  let ?s = "(start_sync 8 NewSynchronizer)\<lparr>data_to_save := [8 \<mapsto> [ref_record]]\<rparr>"
  obtain db where db: "serves ref_bolt ref_view ref_types db [zero_data, zero_data]" using ref_serves by blast
  then have holds: "holds_records ref_view ref_types db [zero_data, zero_data]" by (simp add: serves_def)
  have ds: "[ref_record] = records_between (block_records [8 \<mapsto> [ref_record]]) 8 9"
    by (simp add: records_between_def upto.simps block_records_def)
  have s: "int_of_uint64 (curr_block ?s) = 8" "int_of_uint64 (curr_index ?s) = 0"
    by (simp_all add: start_sync_def NewSynchronizer_def go_arith min_int_def max_int_def int_of_uint64_def [of 0])
  have eq: "save (SaveData ref_bolt ref_types) (?s, db) =
      Some (obind (SaveData ref_bolt ref_types (number_from 0 [ref_record]) (9 - 1) db) (\<lambda>p'.
        Return (?s\<lparr>curr_block := uint64_of_int 9, curr_index := uint64_of_int (0 + int (length [ref_record])),
          data_to_save := (\<lambda>i. if 8 \<le> i \<and> i < 9 then None else data_to_save ?s i)\<rparr>, p')))"
    by (rule save_eq [OF s]) (use ds in \<open>auto simp: min_int_def max_int_def\<close>)
  obtain db1 where db1: "SaveData ref_bolt ref_types (number_from 0 [ref_record]) (9 - 1) db = Return db1"
    using ref.saving.save_no_Panic [OF holds] ref_save_works
    by (cases "SaveData ref_bolt ref_types (number_from 0 [ref_record]) (9 - 1) db") auto
  obtain s' where t: "sync_tick (SaveData ref_bolt ref_types) (?s, db) = Some (Return (s', db1))"
    "data_to_save s' 8 = None"
    using eq db1 by (simp add: sync_tick_def)
  from t(2) have "s' \<noteq> ?s" by auto
  with restart_overwrites_records [OF ref.bolt_store_axioms holds _ refl _ _ _ _ _ ds _ t(1)]
  have "ref_view db1 dataBucketName = Some (stored ref_types [ref_record, zero_data])"
    by (simp add: max_int_def)
  with holds t(1) show ?thesis by blast
qed

section \<open>A backward range\<close>

text \<open>What a fetch of the blocks from \<open>n + 1\<close> to \<open>n\<close> ends with when no client answers the request for
  the logs of this range; with an error that says that the request is too big, it is split
  into the same range twice.\<close>

lemma backward_fetch_fails:
  assumes refused: "\<And>c topics w. \<exists>err w'. FilterLogs E c (n + 1) n topics w = (Inl err, w')"
    and "ready cfg b" and "0 < n" and "2 * n + 1 \<le> max_int"
  shows "\<exists>result u. fetchWithRetry (as_balancer E cfg) G cfg (n + 1) n (b, w) = Some (result, u) \<and>
    (result = Abort ''DATA WILL BE LOST IF NO PANIC IS RETURNED'' \<or>
     result = Spawn [(n + 1, n), (n + 1, n)] \<and>
       (\<exists>c topics v v' err. FilterLogs E c (n + 1) n topics v = (Inl err, v') \<and> handleRPCError err = ErrReqTooBig))"
proof -
  let ?input = "no_request\<lparr>in_logs := Some \<lparr>startBlock = n + 1, endBlock = n, topic = cfg_topic cfg\<rparr>\<rparr>"
  let ?topics = "[[HexToHash E (cfg_topic cfg)]]"
  have request: "\<exists>err. doGenericReq E ?input c v = (Fail err, v') \<and> FilterLogs E c (n + 1) n ?topics v = (Inl err, v')"
    if "doGenericReq E ?input c v = (r, v')" for c v r v'
    using refused [of c ?topics v] that by (auto simp: doGenericReq_def getLogs_def no_request_def)
  from handleRounds_ok [OF assms(2), of E ?input w] obtain r b' w' where
    h: "handleRounds E cfg ?input (b, w) = Some (r, (b', w'))" and fin: "final_result ?input r \<or> r = Fail ErrMaxRounds"
    by (elim exE conjE)
  have "r \<noteq> Return out" for out
  proof
    assume "r = Return out"
    from rounds_loop_answer [OF h [unfolded handleRounds_def this]] request show False
      by (metis Pair_inject outcome.distinct(1))
  qed
  with fin have r: "r = Fail ErrReqTooBig \<or> r = Fail ErrMaxRounds" by (auto simp: final_result_def)
  have mid: "midBlock (n + 1) n = n" "go_int (n + 1) = n + 1"
    using assms(3,4) by (simp_all add: midBlock_def go_int_id min_int_def go_div_def)
  show ?thesis
  proof (cases "r = Fail ErrReqTooBig")
    case True
    from rounds_loop_too_big [OF h [unfolded handleRounds_def True]] request
    have "\<exists>c topics v v' err. FilterLogs E c (n + 1) n topics v = (Inl err, v') \<and> handleRPCError err = ErrReqTooBig"
      by (metis Pair_inject outcome.inject(2))
    with h True mid show ?thesis
      by (simp add: fetchWithRetry_def fetchData_def as_balancer_def GetLogs_def after_fetch_def)
  next
    case False
    with h r show ?thesis
      by (auto simp add: fetchWithRetry_def fetchData_def as_balancer_def GetLogs_def after_fetch_def)
  qed
qed

text \<open>Endpoints at block 7 that reject backward ranges.\<close>

definition backward_eth :: "(string, nat, int) eth_api" where
  "backward_eth = ref_eth
     \<lparr>FilterLogs := (\<lambda>c lo hi tps w.
        (if hi < lo then Inl (Foreign ''invalid block range params'' None) else Inr [], w)),
      BlockByNumber := (\<lambda>c n w. (Inr 7, w))\<rparr>"

lemma backward_eth_refuses:
  "\<exists>err w'. FilterLogs backward_eth c (7 + 1) 7 topics w = (Inl err, w')"
  "FilterLogs backward_eth c (7 + 1) 7 topics w = (Inl err, w') \<Longrightarrow> handleRPCError err \<noteq> ErrReqTooBig"
proof -
  have "handleRPCError (Foreign ''invalid block range params'' None) \<noteq> ErrReqTooBig" by code_simp
  then show "FilterLogs backward_eth c (7 + 1) 7 topics w = (Inl err, w') \<Longrightarrow> handleRPCError err \<noteq> ErrReqTooBig"
    by (auto simp: backward_eth_def)
qed (simp add: backward_eth_def)

lemma backward_eth_tag:
  "GetBlockFromTag backward_eth ref_config ''latest'' (ref_balancer 1 1, 5) =
    Some (Return 7, ((ref_balancer 1 1)\<lparr>counter := 1\<rparr>, 5))"
proof -
  have "client_index (ref_balancer 1 1) = 0" "client_at (ref_balancer 1 1) 0 = Return (ref_client ''limited'' 1)"
    by (simp_all add: client_index_def client_at_def ref_balancer_def int_of_uint64_def go_rem_def)
  moreover have "doGenericReq backward_eth (no_request\<lparr>in_blockTag := Some ''latest''\<rparr>) c 5 =
    (Return \<lparr>res_logs = None, res_blockAndTxs = None, res_blockTag = Some 7\<rparr>, 5)" for c
    by (simp add: doGenericReq_def no_request_def getBlockFromTag_def backward_eth_def) code_simp
  moreover have "\<not> TimerFirst backward_eth t c w" "Now backward_eth w = (w, w)" for t c w
    by (simp_all add: backward_eth_def ref_eth_def)
  moreover have "nat (lenClients (ref_balancer 1 1)) = Suc 1" "cfg_max_rounds ref_config = 3"
    "counter (ref_balancer 1 1) = 0"
    by (simp_all add: ref_balancer_def ref_config_def)
  ultimately show ?thesis
    by (simp add: GetBlockFromTag_def handleRounds_def rounds_loop.simps [of _ _ _ 0] handleRetries_def
        retry_loop.simps(2) retry_step_def Let_def doRetry_def call_bind_def getEthClient_def isBlocked_def
        timed_request_def after_retry_def call_return_def bump_counter_def ref_client_def)
qed

text \<open>C24: the first fetch of a process that is restarted in full mode while it is in sync never
  delivers its range. The last saved block \<open>n\<close> is the one the tag names, so the start requests
  the range from \<open>n + 1\<close> to \<open>n\<close>. When the endpoints answer a request for the logs of this range, which ends
  before it begins, with an error, whatever the error is (go-ethereum refuses such a range when
  both ends are positive), the fetch either panics or is split into two fetches of the very
  same range; and it panics when none of these errors is taken for a request that is too big.\<close>

theorem synced_restart_fails:
  assumes "bolt_store B view" and "cfg_start_block cfg = 0 \<or> cfg_end_block cfg = 0"
    and "view db adminBucketName = Some am" and "am modeIndex = Some mode_full"
    and "am lastBlockIndex = Some (IntToBytes n)" and "0 < n" and "2 * n + 1 \<le> max_int"
    and "GetBlockFromTag E cfg (cfg_block_tag cfg) s = Some (Return n, s')"
    and "StartOrchestrator B (as_balancer E cfg) cfg db s = Some (Return st, db', s')"
    and "\<And>c topics w. \<exists>err w'. FilterLogs E c (n + 1) n topics w = (Inl err, w')" and "ready cfg (fst s')"
  shows "requested st = (n + 1, n) \<and>
    (\<exists>result u. fetchWithRetry (as_balancer E cfg) G cfg (fst (requested st)) (snd (requested st)) s' = Some (result, u) \<and>
       (result = Abort ''DATA WILL BE LOST IF NO PANIC IS RETURNED'' \<or> result = Spawn [(n + 1, n), (n + 1, n)]) \<and>
       ((\<forall>c topics w err w'. FilterLogs E c (n + 1) n topics w = (Inl err, w') \<longrightarrow> handleRPCError err \<noteq> ErrReqTooBig) \<longrightarrow>
        result = Abort ''DATA WILL BE LOST IF NO PANIC IS RETURNED''))"
proof -
  have "api_GetBlockFromTag (as_balancer E cfg) (cfg_block_tag cfg) s = Some (Return n, s')"
    using assms(8) by (simp add: as_balancer_def)
  with assms(6,7) have range: "requested st = (n + 1, n)"
    by (intro in_sync_start_requests_empty_range [OF assms(1-5) _ _ _ assms(9)]) simp_all
  obtain result u where "fetchWithRetry (as_balancer E cfg) G cfg (n + 1) n s' = Some (result, u)"
    "result = Abort ''DATA WILL BE LOST IF NO PANIC IS RETURNED'' \<or>
     result = Spawn [(n + 1, n), (n + 1, n)] \<and>
       (\<exists>c topics v v' err. FilterLogs E c (n + 1) n topics v = (Inl err, v') \<and> handleRPCError err = ErrReqTooBig)"
    using backward_fetch_fails [OF assms(10,11,6,7), of G "snd s'"] unfolding prod.collapse by blast
  then show ?thesis unfolding range fst_conv snd_conv by blast
qed

theorem synced_restart_fails_witness:
  "\<exists>st db' s'. StartOrchestrator ref_bolt (as_balancer backward_eth ref_config) ref_config ref_after_full
      (ref_balancer 1 1, 5) = Some (Return st, db', s') \<and>
    (\<forall>G. \<exists>u. fetchWithRetry (as_balancer backward_eth ref_config) G ref_config (fst (requested st)) (snd (requested st)) s' =
      Some (Abort ''DATA WILL BE LOST IF NO PANIC IS RETURNED'', u))"
proof -
  let ?s' = "((ref_balancer 1 1)\<lparr>counter := 1\<rparr>, 5 :: int)"
  have tag: "GetBlockFromTag backward_eth ref_config (cfg_block_tag ref_config) (ref_balancer 1 1, 5) = Some (Return 7, ?s')"
    using backward_eth_tag by (simp add: ref_config_def)
  have "api_GetBlockFromTag (as_balancer backward_eth ref_config) ''latest'' (ref_balancer 1 1, 5) = Some (Return 7, ?s')"
    using backward_eth_tag by (simp add: as_balancer_def)
  then obtain st db' where st: "StartOrchestrator ref_bolt (as_balancer backward_eth ref_config) ref_config ref_after_full
      (ref_balancer 1 1, 5) = Some (Return st, db', ?s')" by (rule ref_restart)
  have admin: "ref_view ref_after_full adminBucketName =
      Some (map_of [(lastBlockIndex, IntToBytes 7), (modeIndex, mode_full)])"
    by (simp add: ref_view_def ref_after_full_def)
  have maps: "map_of [(lastBlockIndex, IntToBytes 7), (modeIndex, mode_full)] modeIndex = Some mode_full"
    "map_of [(lastBlockIndex, IntToBytes 7), (modeIndex, mode_full)] lastBlockIndex = Some (IntToBytes 7)"
    "(0 :: int) < 7" "2 * (7 :: int) + 1 \<le> max_int" "cfg_start_block ref_config = 0 \<or> cfg_end_block ref_config = 0"
    by (simp_all add: max_int_def ref_config_def)
  have ready: "ready ref_config (fst ?s')"
    by (simp add: ready_def ref_config_def ref_balancer_def bal_ok_def int_of_uint64_def max_int_def)
  from synced_restart_fails [OF ref.bolt_store_axioms maps(5) admin maps(1-4) tag st backward_eth_refuses(1) ready]
    backward_eth_refuses(2)
  show ?thesis using st by blast
qed

end
