(* ===== verification/Server.thy ===== *)
theory Server
  imports Router
begin

text \<open>
  The HTTP server (\<^verbatim>\<open>RunServer\<close> of \<^verbatim>\<open>router/router.go\<close>) and its end. Two goroutines run in
  an error group: one listens and serves, the other waits for the context of the group and then
  shuts the server down; \<^verbatim>\<open>RunServer\<close> waits for both. The server is that of \<^verbatim>\<open>net/http\<close>: it
  accepts connections while it listens and is not shut down; a shutdown closes the listener and
  the idle connections and waits until every connection is closed; \<^verbatim>\<open>ListenAndServe\<close> returns
  \<^verbatim>\<open>ErrServerClosed\<close> once a shutdown has begun, and another error when it cannot listen or accept.
\<close>

section \<open>The error group\<close>

text \<open>The package \<^verbatim>\<open>errgroup\<close> is a parameter: when the context of the group is done, given whether
  its parent is done and which errors the goroutines have returned so far, and what \<^verbatim>\<open>Wait\<close>
  returns. The law is its documentation.\<close>

record 'e errgroup =
  group_done :: "bool \<Rightarrow> 'e list \<Rightarrow> bool"
  wait_error :: "'e list \<Rightarrow> 'e option"

definition errgroup_ok :: "'e errgroup \<Rightarrow> bool" where
  "errgroup_ok G \<longleftrightarrow>
     (\<forall>parent errs. group_done G parent errs \<longleftrightarrow> parent \<or> errs \<noteq> []) \<and>
     (\<forall>errs. wait_error G errs = (case errs of [] \<Rightarrow> None | e # _ \<Rightarrow> Some e))"

definition ref_errgroup :: "'e errgroup" where
  "ref_errgroup =
     \<lparr>group_done = (\<lambda>parent errs. parent \<or> errs \<noteq> []),
      wait_error = (\<lambda>errs. case errs of [] \<Rightarrow> None | e # _ \<Rightarrow> Some e)\<rparr>"

lemma ref_errgroup_ok: "errgroup_ok ref_errgroup"
  by (simp add: errgroup_ok_def ref_errgroup_def)

section \<open>The server\<close>

datatype server_error = ErrServerClosed | ListenError string

datatype serving = Starting | Listening | Served

datatype closing = Awaiting | ShuttingDown | Closed

text \<open>\<open>signalled\<close> is whether the context of \<^verbatim>\<open>main\<close> is done. A connection is active while a
  request is read or handled on it, and idle between two requests. \<open>returned\<close> is what
  \<^verbatim>\<open>Wait\<close> has returned to \<^verbatim>\<open>RunServer\<close>.\<close>

record server =
  signalled :: bool
  serving :: serving
  closing :: closing
  group_errors :: "server_error list"
  active :: nat
  idle :: nat
  returned :: "server_error option option"

definition RunServer :: server where
  "RunServer =
     \<lparr>signalled = False, serving = Starting, closing = Awaiting, group_errors = [], active = 0, idle = 0,
      returned = None\<rparr>"

inductive server_step :: "server_error errgroup \<Rightarrow> server \<Rightarrow> server \<Rightarrow> bool" for G :: "server_error errgroup" where
  signal: "server_step G s (s\<lparr>signalled := True\<rparr>)"
| listen: "serving s = Starting \<Longrightarrow> closing s = Awaiting \<Longrightarrow> server_step G s (s\<lparr>serving := Listening\<rparr>)"
| listen_fails: "serving s \<noteq> Served \<Longrightarrow> closing s = Awaiting \<Longrightarrow>
    server_step G s (s\<lparr>serving := Served, group_errors := group_errors s @ [ListenError m]\<rparr>)"
| listen_closed: "serving s \<noteq> Served \<Longrightarrow> closing s \<noteq> Awaiting \<Longrightarrow>
    server_step G s (s\<lparr>serving := Served, group_errors := group_errors s @ [ErrServerClosed]\<rparr>)"
| accept: "serving s = Listening \<Longrightarrow> closing s = Awaiting \<Longrightarrow> server_step G s (s\<lparr>active := Suc (active s)\<rparr>)"
| respond: "active s = Suc n \<Longrightarrow> closing s = Awaiting \<Longrightarrow>
    server_step G s (s\<lparr>active := n, idle := Suc (idle s)\<rparr>)"
| reuse: "idle s = Suc n \<Longrightarrow> server_step G s (s\<lparr>idle := n, active := Suc (active s)\<rparr>)"
| hang_up: "active s = Suc n \<Longrightarrow> server_step G s (s\<lparr>active := n\<rparr>)"
| close_idle: "closing s = ShuttingDown \<Longrightarrow> server_step G s (s\<lparr>idle := 0\<rparr>)"
| shut_down: "closing s = Awaiting \<Longrightarrow> group_done G (signalled s) (group_errors s) \<Longrightarrow>
    server_step G s (s\<lparr>closing := ShuttingDown\<rparr>)"
| closed: "closing s = ShuttingDown \<Longrightarrow> active s = 0 \<Longrightarrow> idle s = 0 \<Longrightarrow> server_step G s (s\<lparr>closing := Closed\<rparr>)"
| waited: "serving s = Served \<Longrightarrow> closing s = Closed \<Longrightarrow> returned s = None \<Longrightarrow>
    server_step G s (s\<lparr>returned := Some (wait_error G (group_errors s))\<rparr>)"

abbreviation server_run :: "server_error errgroup \<Rightarrow> server \<Rightarrow> server \<Rightarrow> bool" where
  "server_run G \<equiv> (server_step G)\<^sup>*\<^sup>*"

section \<open>The invariant\<close>

definition server_inv :: "server \<Rightarrow> bool" where
  "server_inv s \<longleftrightarrow>
     (closing s \<noteq> Awaiting \<longrightarrow> signalled s \<or> (\<exists>m. group_errors s = [ListenError m])) \<and>
     (closing s = Awaiting \<longrightarrow> group_errors s = [] \<or> (\<exists>m. group_errors s = [ListenError m])) \<and>
     (serving s = Served \<longleftrightarrow> group_errors s \<noteq> []) \<and> length (group_errors s) \<le> 1 \<and>
     (closing s = Closed \<longrightarrow> active s = 0 \<and> idle s = 0) \<and>
     (\<forall>r. returned s = Some r \<longrightarrow> closing s = Closed \<and> group_errors s \<noteq> [] \<and> r = Some (hd (group_errors s)))"

lemma server_inv_RunServer: "server_inv RunServer"
  by (simp add: server_inv_def RunServer_def)

lemma server_inv_step:
  assumes "server_step G s s'" "server_inv s" "errgroup_ok G"
  shows "server_inv s'"
  using assms
proof (induction rule: server_step.induct)
  case (shut_down s)
  then show ?case by (auto simp: server_inv_def errgroup_ok_def)
next
  case (waited s)
  then show ?case by (auto simp: server_inv_def errgroup_ok_def split: list.split)
qed (auto simp: server_inv_def)

lemma server_run_inv:
  assumes "server_run G RunServer s" "errgroup_ok G"
  shows "server_inv s"
  using assms(1)
  by (induction rule: rtranclp_induct) (simp_all add: server_inv_RunServer server_inv_step [OF _ _ assms(2)])

section \<open>Every shutdown can end\<close>

lemma hang_up_all: "server_run G s (s\<lparr>active := 0\<rparr>)"
proof (induction "active s" arbitrary: s)
  case 0
  then have "s\<lparr>active := 0\<rparr> = s" by (cases s) simp
  then show ?case by simp
next
  case (Suc n)
  then have "server_step G s (s\<lparr>active := n\<rparr>)" by (intro server_step.hang_up) simp
  moreover have "server_run G (s\<lparr>active := n\<rparr>) (s\<lparr>active := 0\<rparr>)" using Suc(1) [of "s\<lparr>active := n\<rparr>"] by simp
  ultimately show ?case by (rule converse_rtranclp_into_rtranclp)
qed

lemma serving_ends:
  assumes "closing s \<noteq> Awaiting"
  shows "\<exists>t. server_run G s t \<and> serving t = Served \<and> closing t = closing s \<and> returned t = returned s"
proof (cases "serving s = Served")
  case False
  show ?thesis
    by (intro exI conjI, rule r_into_rtranclp, rule server_step.listen_closed [OF False assms]) simp_all
qed auto

lemma shutting_down_ends:
  assumes "closing s = ShuttingDown" "returned s = None"
  shows "\<exists>s'. server_run G s s' \<and> returned s' \<noteq> None"
proof -
  from serving_ends [of s G] assms obtain t where t: "server_run G s t" "closing t = ShuttingDown" "returned t = None"
    "serving t = Served" by auto
  let ?t1 = "t\<lparr>active := 0\<rparr>" and ?t2 = "t\<lparr>active := 0, idle := 0\<rparr>"
  have "server_step G ?t1 ?t2" using server_step.close_idle [of ?t1 G] t(2) by simp
  moreover have "server_step G ?t2 (?t2\<lparr>closing := Closed\<rparr>)" using server_step.closed [of ?t2 G] t(2) by simp
  moreover have "server_step G (?t2\<lparr>closing := Closed\<rparr>)
      (?t2\<lparr>closing := Closed, returned := Some (wait_error G (group_errors t))\<rparr>)"
    using server_step.waited [of "?t2\<lparr>closing := Closed\<rparr>" G] t(3,4) by simp
  ultimately have "server_run G s (?t2\<lparr>closing := Closed, returned := Some (wait_error G (group_errors t))\<rparr>)"
    using t(1) hang_up_all [of G t] by (meson rtranclp.rtrancl_into_rtrancl rtranclp_trans)
  then show ?thesis by (intro exI conjI, assumption) simp
qed

section \<open>Properties\<close>

text \<open>C25: \<^verbatim>\<open>RunServer\<close> returns only when no connection is open, so that no handler still reads
  the database when \<^verbatim>\<open>main\<close> closes it; and it always has a reason to report: \<^verbatim>\<open>ErrServerClosed\<close>,
  and then the process was signalled, or the error with which listening failed.\<close>

theorem RunServer_drains:
  assumes "errgroup_ok G" and "server_run G RunServer s" and "returned s = Some r"
  shows "active s = 0 \<and> idle s = 0 \<and> serving s = Served \<and>
    (r = Some ErrServerClosed \<and> signalled s \<or> (\<exists>m. r = Some (ListenError m)))"
proof -
  have inv: "server_inv s" by (rule server_run_inv [OF assms(2,1)])
  with assms(3) obtain e where e: "group_errors s = [e]" "r = Some e"
    by (cases "group_errors s") (auto simp: server_inv_def)
  with inv assms(3) show ?thesis by (cases e) (auto simp: server_inv_def)
qed

text \<open>A run that is signalled while it serves one connection.\<close>

lemma ref_server_run:
  "\<exists>s. server_run ref_errgroup RunServer s \<and> returned s = Some (Some ErrServerClosed)"
proof -
  let ?G = "ref_errgroup :: server_error errgroup"
  let ?s1 = "RunServer\<lparr>serving := Listening\<rparr>"
  let ?s2 = "?s1\<lparr>active := 1\<rparr>"
  let ?s3 = "?s2\<lparr>signalled := True\<rparr>"
  let ?s4 = "?s3\<lparr>closing := ShuttingDown\<rparr>"
  have s: "server_step ?G RunServer ?s1" "server_step ?G ?s1 ?s2" "server_step ?G ?s2 ?s3" "server_step ?G ?s3 ?s4"
    using server_step.listen [of RunServer ?G] server_step.accept [of ?s1 ?G] server_step.signal [of ?G ?s2]
      server_step.shut_down [of ?s3 ?G]
    by (simp_all add: RunServer_def ref_errgroup_def)
  then have run: "server_run ?G RunServer ?s4" by (meson r_into_rtranclp rtranclp.rtrancl_into_rtrancl)
  let ?s5 = "?s4\<lparr>serving := Served, group_errors := [ErrServerClosed]\<rparr>"
  let ?s6 = "?s5\<lparr>active := 0\<rparr>" let ?s7 = "?s6\<lparr>closing := Closed\<rparr>"
  have "server_step ?G ?s4 ?s5" "server_step ?G ?s5 ?s6" "server_step ?G ?s6 ?s7"
    "server_step ?G ?s7 (?s7\<lparr>returned := Some (Some ErrServerClosed)\<rparr>)"
    using server_step.listen_closed [of ?s4 ?G] server_step.hang_up [of ?s5 0 ?G] server_step.closed [of ?s6 ?G]
      server_step.waited [of ?s7 ?G]
    by (simp_all add: RunServer_def ref_errgroup_def)
  with run have "server_run ?G RunServer (?s7\<lparr>returned := Some (Some ErrServerClosed)\<rparr>)"
    by (meson rtranclp.rtrancl_into_rtrancl)
  then show ?thesis by (intro exI conjI, assumption) simp
qed

theorem RunServer_drains_witness:
  "\<exists>s. server_run ref_errgroup RunServer s \<and> returned s = Some (Some ErrServerClosed) \<and> active s = 0 \<and> signalled s"
proof -
  obtain s where "server_run ref_errgroup RunServer s" "returned s = Some (Some ErrServerClosed)"
    using ref_server_run by blast
  with RunServer_drains [OF ref_errgroup_ok this] show ?thesis by auto
qed

text \<open>C26: once the process is signalled, or listening has failed, the server can end; and from
  the moment the shutdown begins no connection is added.\<close>

theorem RunServer_ends:
  assumes "errgroup_ok G" and "server_run G RunServer s" and "signalled s \<or> group_errors s \<noteq> []"
  shows "(\<exists>s'. server_run G s s' \<and> returned s' \<noteq> None) \<and>
    (\<forall>s'. closing s \<noteq> Awaiting \<and> server_step G s s' \<longrightarrow>
      active s' + idle s' \<le> active s + idle s \<and> closing s' \<noteq> Awaiting)"
proof (intro conjI allI impI)
  have inv: "server_inv s" by (rule server_run_inv [OF assms(2,1)])
  show "\<exists>s'. server_run G s s' \<and> returned s' \<noteq> None"
  proof (cases "returned s")
    case None
    show ?thesis
    proof (cases "closing s")
      case Awaiting
      with assms(1,3) have "server_step G s (s\<lparr>closing := ShuttingDown\<rparr>)"
        by (intro server_step.shut_down) (simp_all add: errgroup_ok_def)
      moreover obtain s' where "server_run G (s\<lparr>closing := ShuttingDown\<rparr>) s'" "returned s' \<noteq> None"
        using shutting_down_ends [of "s\<lparr>closing := ShuttingDown\<rparr>" G] None by auto
      ultimately show ?thesis by (auto intro: converse_rtranclp_into_rtranclp)
    next
      case ShuttingDown
      with None show ?thesis by (intro shutting_down_ends)
    next
      case Closed
      with serving_ends [of s G] None obtain t where t: "server_run G s t" "closing t = Closed" "serving t = Served"
        "returned t = None" by auto
      show ?thesis
        by (intro exI conjI, rule rtranclp.rtrancl_into_rtrancl [OF t(1) server_step.waited [OF t(3,2,4)]]) simp
    qed
  qed auto
next
  fix s' assume "closing s \<noteq> Awaiting \<and> server_step G s s'"
  then have "server_step G s s'" "closing s \<noteq> Awaiting" by simp_all
  then show "active s' + idle s' \<le> active s + idle s" by (cases rule: server_step.cases) simp_all
next
  fix s' assume "closing s \<noteq> Awaiting \<and> server_step G s s'"
  then have "server_step G s s'" "closing s \<noteq> Awaiting" by simp_all
  then show "closing s' \<noteq> Awaiting" by (cases rule: server_step.cases) simp_all
qed

theorem RunServer_ends_witness:
  "\<exists>s'. server_run ref_errgroup (RunServer\<lparr>signalled := True\<rparr>) s' \<and> returned s' \<noteq> None"
proof -
  have "server_run ref_errgroup RunServer (RunServer\<lparr>signalled := True\<rparr>)"
    by (rule r_into_rtranclp) (rule server_step.signal)
  from RunServer_ends [OF ref_errgroup_ok this] show ?thesis by simp
qed

end
