(* ===== verification/Progress.thy ===== *)
theory Progress
  imports Interleaved
begin

text \<open>
  What must happen, rather than what may: when every endpoint answers, the first range is saved
  in every fair run, whatever the order in which the goroutines and the steps of their calls come.
  A measure of the work left goes down with every step that changes the state, and as long as
  the range is not saved some step changes it.
\<close>

section \<open>Fair runs\<close>

text \<open>A run is an infinite sequence of states. It may stand still, but not for ever while some
  step would change the state.\<close>

definition fair_run :: "('s \<Rightarrow> 's \<Rightarrow> bool) \<Rightarrow> (nat \<Rightarrow> 's) \<Rightarrow> bool" where
  "fair_run R f \<longleftrightarrow>
     (\<forall>n. f (Suc n) = f n \<or> R (f n) (f (Suc n))) \<and>
     (\<forall>n. (\<exists>S. R (f n) S \<and> S \<noteq> f n) \<longrightarrow> (\<exists>m \<ge> n. f (Suc m) \<noteq> f m))"

lemma fair_run_reaches:
  assumes "fair_run R f"
  shows "R\<^sup>*\<^sup>* (f 0) (f n)"
proof (induction n)
  case (Suc n)
  with assms show ?case by (metis fair_run_def rtranclp.rtrancl_into_rtrancl)
qed simp

text \<open>If every step that changes the state lowers a measure, a fair run comes to rest.\<close>

lemma fair_run_rests:
  fixes measure_of :: "'s \<Rightarrow> nat"
  assumes "fair_run R f"
    and "\<And>n. R (f n) (f (Suc n)) \<Longrightarrow> f (Suc n) = f n \<or> measure_of (f (Suc n)) < measure_of (f n)"
  shows "\<exists>n. \<forall>S. R (f n) S \<longrightarrow> S = f n"
proof -
  obtain n where n: "measure_of (f n) \<le> measure_of (f m)" for m
    using ex_has_least_nat [of "\<lambda>n. True" 0 "measure_of \<circ> f"] by auto
  have still: "f m = f n" if "n \<le> m" for m
    using that
  proof (induction m rule: dec_induct)
    case (step m)
    have "f (Suc m) = f m \<or> R (f m) (f (Suc m))" using assms(1) by (simp add: fair_run_def)
    then have "f (Suc m) = f m" using assms(2) [of m] n [of "Suc m"] step.IH by auto
    with step.IH show ?case by simp
  qed simp
  have "f (Suc m) = f m" if "n \<le> m" for m
    using still [of m] still [of "Suc m"] that by (simp only: le_SucI)
  with assms(1) show ?thesis unfolding fair_run_def by blast
qed

text \<open>Every state begins a fair run.\<close>

lemma fair_run_exists: "\<exists>f. f 0 = S \<and> fair_run R f"
proof -
  define g where "g S = (if \<exists>T. R S T \<and> T \<noteq> S then SOME T. R S T \<and> T \<noteq> S else S)" for S
  have g: "R S (g S) \<and> g S \<noteq> S" if "\<exists>T. R S T \<and> T \<noteq> S" for S
    using someI_ex [OF that] that by (simp add: g_def)
  have rest: "g S = S" if "\<not> (\<exists>T. R S T \<and> T \<noteq> S)" for S
    unfolding g_def by (rule if_not_P) (fact that)
  define f where "f n = (g ^^ n) S" for n
  have next_state: "f (Suc n) = g (f n)" for n by (simp add: f_def)
  have "f (Suc n) = f n \<or> R (f n) (f (Suc n))" for n
    using g [of "f n"] rest [of "f n"] unfolding next_state by blast
  moreover have "\<exists>m \<ge> n. f (Suc m) \<noteq> f m" if "\<exists>T. R (f n) T \<and> T \<noteq> f n" for n
    using g [OF that] unfolding next_state by blast
  ultimately have "fair_run R f" unfolding fair_run_def by blast
  moreover have "f 0 = S" by (simp add: f_def)
  ultimately show ?thesis by blast
qed

section \<open>Calls when every endpoint answers\<close>

text \<open>An answer is one that a client gives to this very request, and not an error that blocks the
  client.\<close>

definition prompt_answer :: "('c, 't, 'w) eth_api \<Rightarrow> genericInput \<Rightarrow> 't genericOutput outcome \<Rightarrow> bool" where
  "prompt_answer E input r \<longleftrightarrow>
     (\<exists>c w w'. doGenericReq E input c w = (r, w')) \<and>
     ((\<exists>out. r = Return out) \<or> (\<exists>err. r = Fail err \<and> handleRPCError err = ErrReqTooBig))"

text \<open>Every client answers every request in time, and none is blocked.\<close>

definition served_by_all :: "('c, 't, 'w) eth_api \<Rightarrow> config \<Rightarrow> 'c balancer \<Rightarrow> bool" where
  "served_by_all E cfg b \<longleftrightarrow>
     (\<forall>c \<in> set (clients b). blockedUntil c \<noteq> 0 \<and>
        (\<forall>w. blockedUntil c \<le> fst (Now E w) \<and> \<not> TimerFirst E (cfg_rpc_timeout cfg) (ethClient c) w \<and>
          (\<forall>input. asks input \<longrightarrow> prompt_answer E input (fst (doGenericReq E input (ethClient c) w)))))"

fun call_rank :: "('c, 't) call_point \<Rightarrow> nat" where
  "call_rank (Round rounds) = 7"
| "call_rank (Retry rounds retry) = 6"
| "call_rank (Attempt rounds retry index) = 5"
| "call_rank (Check rounds retry index c) = 4"
| "call_rank (Requesting rounds retry index c) = 3"
| "call_rank (Counting rounds retry index r) = 2"
| "call_rank (React rounds retry index r) = 1"
| "call_rank (Pause rounds) = 0"
| "call_rank (Done r) = 0"

text \<open>Then a call is in its first attempt until it is done.\<close>

fun point_prompt :: "('c, 't, 'w) eth_api \<Rightarrow> 'c balancer \<Rightarrow> genericInput \<Rightarrow> ('c, 't) call_point \<Rightarrow> bool" where
  "point_prompt E b input (Round rounds) \<longleftrightarrow> rounds = 0"
| "point_prompt E b input (Retry rounds retry) \<longleftrightarrow> retry = 0"
| "point_prompt E b input (Attempt rounds retry index) \<longleftrightarrow> 0 \<le> index \<and> index < lenClients b"
| "point_prompt E b input (Check rounds retry index c) \<longleftrightarrow>
     0 \<le> index \<and> index < lenClients b \<and> c = ethClient (clients b ! nat index)"
| "point_prompt E b input (Requesting rounds retry index c) \<longleftrightarrow>
     0 \<le> index \<and> index < lenClients b \<and> c = ethClient (clients b ! nat index)"
| "point_prompt E b input (Counting rounds retry index r) \<longleftrightarrow>
     0 \<le> index \<and> index < lenClients b \<and> prompt_answer E input r"
| "point_prompt E b input (React rounds retry index r) \<longleftrightarrow>
     0 \<le> index \<and> index < lenClients b \<and> prompt_answer E input r"
| "point_prompt E b input (Pause rounds) \<longleftrightarrow> False"
| "point_prompt E b input (Done r) \<longleftrightarrow>
     (\<exists>r'. prompt_answer E input r' \<and> r = (case r' of Fail err \<Rightarrow> Fail ErrReqTooBig | _ \<Rightarrow> r'))"

lemma after_retry_prompt:
  assumes "0 \<le> index" "index < lenClients b" "bal_ok b" "prompt_answer E input r"
  shows "after_retry E cfg index r (b, w) =
    (Return (Some (case r of Fail err \<Rightarrow> Fail ErrReqTooBig | _ \<Rightarrow> r)), (b, w))"
proof -
  have at: "client_at b index = Return (clients b ! nat index)"
    using assms(1-3) by (simp add: client_at_def bal_ok_def)
  obtain now w1 where now: "Now E w = (now, w1)" by fastforce
  have "handleRPCError ErrClientTimeout \<noteq> ErrReqTooBig" "handleRPCError ErrClientBlocked \<noteq> ErrReqTooBig"
    by code_simp+
  with assms(4) after_retry_Fail [OF at now, of cfg] show ?thesis
    by (auto simp: prompt_answer_def) (simp add: after_retry_def call_return_def)
qed

lemma call_step_prompt:
  assumes "bal_ok b" "served_by_all E cfg b" "asks input" "0 < cfg_max_rounds cfg"
    and "0 \<le> count b" "count b + int (call_rank p) \<le> max_int" "point_prompt E b input p"
  obtains p' b' w' where "call_step E cfg input (p, (b, w)) = (p', (b', w'))" "point_prompt E b input p'"
    "clients b' = clients b" "lenClients b' = lenClients b" "0 \<le> count b'"
    "count b' + int (call_rank p') \<le> count b + int (call_rank p)"
    "(\<forall>r. p \<noteq> Done r) \<Longrightarrow> call_rank p' < call_rank p"
proof -
  have len: "lenClients b = int (length (clients b))" "0 < lenClients b" using assms(1) by (auto simp: bal_ok_def)
  have client: "clients b ! nat index \<in> set (clients b)" "client_at b index = Return (clients b ! nat index)"
    if "0 \<le> index" "index < lenClients b" for index
    using that len by (simp_all add: client_at_def)
  show ?thesis
  proof (cases p)
    case (Round rounds)
    then show ?thesis using that [of "Retry rounds 0" b w] assms by simp
  next
    case (Retry rounds retry)
    then show ?thesis
      using that [of "Attempt rounds retry (client_index b)" b w] assms len client_index_ok [OF assms(1,5)] by simp
  next
    case (Attempt rounds retry index)
    then show ?thesis
      using that [of "Check rounds retry index (ethClient (clients b ! nat index))" b w] assms client [of index]
      by (simp add: getEthClient_def)
  next
    case (Check rounds retry index c)
    obtain now w1 where now: "Now E w = (now, w1)" by fastforce
    have "blockedUntil (clients b ! nat index) \<noteq> 0" "\<not> now < blockedUntil (clients b ! nat index)"
      using assms(2,7) client(1) [of index] now Check by (auto simp: served_by_all_def) (metis fst_conv not_less)
    then show ?thesis
      using that [of "Requesting rounds retry index c" b w1] assms client [of index] Check now
      by (simp add: isBlocked_def)
  next
    case (Requesting rounds retry index c)
    obtain r w1 where r: "doGenericReq E input c w = (r, w1)" by fastforce
    have "\<not> TimerFirst E (cfg_rpc_timeout cfg) c w" "prompt_answer E input r"
      using assms(2,3,7) client(1) [of index] r Requesting by (auto simp: served_by_all_def) (metis fst_conv)
    then show ?thesis
      using that [of "Counting rounds retry index r" b w1] assms Requesting r
      by (simp add: timed_request_def Let_def)
  next
    case (Counting rounds retry index r)
    then have "count (b\<lparr>counter := counter b + 1\<rparr>) = count b + 1" using assms(5,6) by (intro count_bump) simp_all
    then show ?thesis
      using that [of "React rounds retry index r" "b\<lparr>counter := counter b + 1\<rparr>" w] assms Counting
      by (simp add: bump_counter_def)
  next
    case (React rounds retry index r)
    then show ?thesis
      using that [of "Done (case r of Fail err \<Rightarrow> Fail ErrReqTooBig | _ \<Rightarrow> r)" b w] assms
        after_retry_prompt [of index b E input r cfg w] by auto
  next
    case (Done r)
    then show ?thesis using that [of p b w] assms by simp
  qed (use assms(7) in simp)
qed

lemma served_by_all_cong: "clients b' = clients b \<Longrightarrow> served_by_all E cfg b' = served_by_all E cfg b"
  by (simp add: served_by_all_def)

lemma point_prompt_cong:
  "clients b' = clients b \<Longrightarrow> lenClients b' = lenClients b \<Longrightarrow> point_prompt E b' input p = point_prompt E b input p"
  by (cases p) simp_all

lemma request_asks: "request_of cfg t = Some input \<Longrightarrow> asks input"
  by (auto simp: request_of_def asks_def split: task.splits)

text \<open>What the fetcher reads of the result of such a call.\<close>

lemma prompt_logs:
  assumes "reasonable_limits E" "request_of cfg (Fetching lo hi) = Some input" "point_prompt E b input (Done r)"
  shows "(\<exists>ls. logs_of r = Return ls) \<or> (logs_of r = Fail ErrReqTooBig \<and> lo < hi)"
proof -
  let ?req = "\<lparr>startBlock = lo, endBlock = hi, topic = cfg_topic cfg\<rparr>"
  from assms(3) obtain r' c w w' where d: "doGenericReq E input c w = (r', w')"
    and r: "r = (case r' of Fail err \<Rightarrow> Fail ErrReqTooBig | _ \<Rightarrow> r')"
    and ok: "(\<exists>out. r' = Return out) \<or> (\<exists>err. r' = Fail err \<and> handleRPCError err = ErrReqTooBig)"
    by (auto simp: prompt_answer_def)
  have g: "getLogs E ?req c w = (r', w')" using d assms(2) by (auto simp: request_of_def doGenericReq_def)
  from ok show ?thesis
  proof (elim disjE exE conjE)
    fix out
    assume "r' = Return out"
    with g r show ?thesis by (auto simp: getLogs_def logs_of_def split: sum.splits prod.splits)
  next
    fix err
    assume err: "r' = Fail err" "handleRPCError err = ErrReqTooBig"
    with g have "FilterLogs E c lo hi [[HexToHash E (cfg_topic cfg)]] w = (Inl err, w')"
      by (auto simp: getLogs_def split: sum.splits prod.splits)
    with assms(1) err(2) have "lo < hi" unfolding reasonable_limits_def by blast
    with r err show ?thesis by (simp add: logs_of_def)
  qed
qed

lemma prompt_batch:
  assumes "reasonable_limits E" "request_of cfg (Assembling lo hi ls) = Some input" "point_prompt E b input (Done r)"
  shows "(\<exists>answer. batch_of r = Return answer) \<or>
    (batch_of r = Fail ErrReqTooBig \<and> 1 < length (collect_bns ls Map.empty []))"
proof -
  let ?req = "\<lparr>blockNumbers = collect_bns ls Map.empty [], txHashes = map TxHash ls\<rparr>"
  from assms(3) obtain r' c w w' where d: "doGenericReq E input c w = (r', w')"
    and r: "r = (case r' of Fail err \<Rightarrow> Fail ErrReqTooBig | _ \<Rightarrow> r')"
    and ok: "(\<exists>out. r' = Return out) \<or> (\<exists>err. r' = Fail err \<and> handleRPCError err = ErrReqTooBig)"
    by (auto simp: prompt_answer_def)
  have g: "getBlocksAndTxs E ?req c w = (r', w')"
    using d assms(2) by (auto simp: request_of_def doGenericReq_def no_request_def)
  from ok show ?thesis
  proof (elim disjE exE conjE)
    fix out
    assume "r' = Return out"
    with g r getBlocksAndTxs_Return [of E ?req c w out w'] show ?thesis by (auto simp: batch_of_def)
  next
    fix err
    assume err: "r' = Fail err" "handleRPCError err = ErrReqTooBig"
    with assms(1) g have "1 < length (collect_bns ls Map.empty [])" unfolding reasonable_limits_def by blast
    with r err show ?thesis by (simp add: batch_of_def)
  qed
qed

section \<open>The work left\<close>

definition job_weight :: "task \<times> ('c, 't) call_point \<Rightarrow> nat" where
  "job_weight j = 16 * task_weight (fst j) + call_rank (snd j)"

definition jobs_weight :: "(task \<times> ('c, 't) call_point) multiset \<Rightarrow> nat" where
  "jobs_weight js = sum_mset (image_mset job_weight js)"

definition work :: "('c, 't, 'w, 'p) system \<Rightarrow> nat" where
  "work S =
     jobs_weight (jobs S) + length (datachan (sys_sync S)) + 2 * nat (sys_end S + 1 - next_block S) +
     (if starting_at S = None then 0 else 1) + (if committed S = None then 0 else 1)"

lemma jobs_weight_add [simp]:
  "jobs_weight {#} = 0" "jobs_weight (add_mset j js) = job_weight j + jobs_weight js"
  "jobs_weight (js + ks) = jobs_weight js + jobs_weight ks"
  by (simp_all add: jobs_weight_def)

lemma jobs_weight_new: "jobs_weight (new_jobs ts) = 16 * tasks_weight ts + 7 * size ts"
  by (induction ts) (simp_all add: new_jobs_def job_weight_def)

lemma jobs_weight_replace: "j \<in># js \<Longrightarrow> jobs_weight (js - {#j#} + ks) + job_weight j = jobs_weight js + jobs_weight ks"
  by (auto dest!: multi_member_split)

text \<open>The state of a program whose endpoints all answer, in its first range.\<close>

definition prompt :: "('c, 't, 'w) eth_api \<Rightarrow> config \<Rightarrow> 'c balancer \<Rightarrow> ('c, 't, 'w, 'p) system \<Rightarrow> bool" where
  "prompt E cfg b0 S \<longleftrightarrow>
     sys_alive S \<and> tag_call S = None \<and>
     clients (fst (shared S)) = clients b0 \<and> lenClients (fst (shared S)) = lenClients b0 \<and>
     0 \<le> count (fst (shared S)) \<and> count (fst (shared S)) + int (work S) \<le> max_int \<and>
     (\<forall>t p input. (t, p) \<in># jobs S \<longrightarrow> request_of cfg t = Some input \<longrightarrow> point_prompt E b0 input p)"

text \<open>A step that changes the state does some of the work, and only of it.\<close>

definition works :: "('c, 't, 'w) eth_api \<Rightarrow> config \<Rightarrow> 'c balancer \<Rightarrow>
    ('c, 't, 'w, 'p) system \<Rightarrow> ('c, 't, 'w, 'p) system \<Rightarrow> bool" where
  "works E cfg b0 S S' \<longleftrightarrow> prompt E cfg b0 S' \<and> work S' < work S \<and> sys_end S' = sys_end S"

lemma works_plain:
  assumes "prompt E cfg b0 S" "work S' < work S" "sys_alive S'" "tag_call S' = None" "shared S' = shared S"
    "jobs S' = jobs S" "sys_end S' = sys_end S"
  shows "works E cfg b0 S S'"
  using assms by (auto simp: works_def prompt_def)

lemma works_replace:
  assumes "prompt E cfg b0 S" "(t, p) \<in># jobs S" "new = Some ts" "tasks_weight ts < task_weight t" "size ts \<le> 2"
  shows "works E cfg b0 S (replace_job (t, p) new (S\<lparr>sem_held := k\<rparr>))"
proof -
  let ?S = "replace_job (t, p) new (S\<lparr>sem_held := k\<rparr>)"
  have new: "?S = S\<lparr>jobs := jobs S - {#(t, p)#} + new_jobs ts, sem_held := k\<rparr>" by (simp add: replace_job_def assms(3))
  have "jobs_weight (new_jobs ts :: (task \<times> ('a, 'b) call_point) multiset) < job_weight (t, p)"
    using assms(4,5) by (simp add: jobs_weight_new job_weight_def)
  then have less: "work ?S < work S"
    using jobs_weight_replace [OF assms(2), of "new_jobs ts"] by (simp add: work_def new next_block_def)
  moreover have "point_prompt E b0 input p'" if "(t', p') \<in># jobs ?S" "request_of cfg t' = Some input" for t' p' input
    using that assms(1) by (auto simp: new prompt_def new_jobs_def dest: in_diffD)
  ultimately show ?thesis using assms(1) by (auto simp: works_def prompt_def new)
qed

lemma works_send:
  assumes "prompt E cfg b0 S" "(Sending item, p) \<in># jobs S" "Add item (sys_sync S) = Some s'"
  shows "works E cfg b0 S (replace_job (Sending item, p) (Some {#}) (S\<lparr>sys_sync := s'\<rparr>))"
proof -
  let ?S = "S\<lparr>sys_sync := s'\<rparr>"
  have same: "next_block ?S = next_block S"
    using Add_curr_block [OF synced_Add [OF assms(3)]] by (simp add: next_block_def GetCurrBlock_def)
  have "length (datachan s') = Suc (length (datachan (sys_sync S)))" using assms(3) by (auto simp: Add_def split: if_splits)
  then have "work (replace_job (Sending item, p) (Some {#}) ?S) < work S"
    using same jobs_weight_replace [OF assms(2), of "{#}"]
    by (simp add: work_def replace_job_def new_jobs_def job_weight_def next_block_def)
  with assms(1) show ?thesis
    by (auto simp: works_def prompt_def replace_job_def new_jobs_def dest: in_diffD)
qed

lemma works_call:
  assumes "bal_ok b0" "served_by_all E cfg b0" "0 < cfg_max_rounds cfg"
    and "prompt E cfg b0 S" "(t, p) \<in># jobs S" "request_of cfg t = Some input"
    and "call_step E cfg input (p, shared S) = (p', s')" "\<forall>r. p \<noteq> Done r"
  shows "works E cfg b0 S (S\<lparr>jobs := jobs S - {#(t, p)#} + {#(t, p')#}, shared := s'\<rparr>)"
proof -
  let ?S = "S\<lparr>jobs := jobs S - {#(t, p)#} + {#(t, p')#}, shared := s'\<rparr>"
  obtain b w where s: "shared S = (b, w)" by fastforce
  have b: "clients b = clients b0" "lenClients b = lenClients b0" "0 \<le> count b" "count b + int (work S) \<le> max_int"
    using assms(4) s by (simp_all add: prompt_def)
  have "job_weight (t, p) \<le> work S"
    using jobs_weight_replace [OF assms(5), of "{#}"] by (simp add: work_def)
  then have room: "count b + int (call_rank p) \<le> max_int" using b(4) by (simp add: job_weight_def)
  have ok: "bal_ok b" "served_by_all E cfg b" "point_prompt E b input p"
    using assms(1,2,4-6) b by (simp_all add: bal_ok_def prompt_def served_by_all_cong [OF b(1)] point_prompt_cong [OF b(1,2)])
  obtain b' w' where s': "s' = (b', w')" and p': "point_prompt E b input p'"
    and b': "clients b' = clients b" "lenClients b' = lenClients b" "0 \<le> count b'"
      "count b' + int (call_rank p') \<le> count b + int (call_rank p)" "call_rank p' < call_rank p"
    by (rule call_step_prompt [where w = w, OF ok(1,2) request_asks [OF assms(6)] assms(3) b(3) room ok(3)])
      (use assms(7,8) s in auto)
  have less: "work ?S + call_rank p = work S + call_rank p'"
    using jobs_weight_replace [OF assms(5), of "{#(t, p')#}"] by (simp add: work_def next_block_def job_weight_def)
  moreover have "count b' + int (work ?S) \<le> max_int" using less b'(4) b(4) by linarith
  moreover have "point_prompt E b0 input' q" if "(t', q) \<in># jobs ?S" "request_of cfg t' = Some input'" for t' q input'
    using that assms(4,6) p' by (auto simp: prompt_def point_prompt_cong [OF b(1,2)] dest: in_diffD)
  ultimately show ?thesis using assms(4) b b' by (auto simp: works_def prompt_def s')
qed

lemma works_neq: "works E cfg b0 S S' \<Longrightarrow> S' \<noteq> S"
  by (auto simp: works_def)

lemma commit_None: "commit save_data s p = Some (Return (None, p')) \<Longrightarrow> p' = p"
  by (auto simp: commit_def Let_def split: option.splits outcome.splits) (metis outcome.exhaust)

lemma commit_Some: "commit save_data s p = Some (Return (Some x, p')) \<Longrightarrow> data_to_save s (GetCurrBlock s) \<noteq> None"
  by (auto simp: commit_def GetCurrBlock_def Let_def split: option.splits)

section \<open>Progress\<close>

locale prompt_program =
  fixes E :: "('c, 't, 'w) eth_api" and C :: "'t chain" and G :: "'t geth" and cfg :: config
    and B :: "'p bolt" and view :: "'p \<Rightarrow> content" and T :: gob_types and start H :: int and b0 :: "'c balancer"
  assumes store: "bolt_store B view" and world: "world_ok E C G cfg start H" and limits: "reasonable_limits E"
    and save_works: "SaveData B T rs n p \<noteq> Fail e" and concurrent: "0 < cfg_concurrency cfg"
    and rounds: "0 < cfg_max_rounds cfg" and has_clients: "bal_ok b0" and served: "served_by_all E cfg b0"
begin

abbreviation next_step :: "('c, 't, 'w, 'p) system \<Rightarrow> ('c, 't, 'w, 'p) system \<Rightarrow> bool" where
  "next_step \<equiv> system_step E G cfg (SaveData B T)"

abbreviation good :: "('c, 't, 'w, 'p) system \<Rightarrow> bool" where
  "good S \<equiv> prompt E cfg b0 S \<and> system_inv view T E C cfg G start H S \<and> next_block S \<le> sys_end S"

abbreviation does_work :: "('c, 't, 'w, 'p) system \<Rightarrow> ('c, 't, 'w, 'p) system \<Rightarrow> bool" where
  "does_work \<equiv> works E cfg b0"

lemma good_process:
  assumes "good S"
  shows "indexer.inv (holds_records view T) (last_block_saved view) C cfg G start H (seen [] S)"
    "0 \<le> start" "2 * sys_end S < max_int" "horizon_ok (chain_records G (cfg_address cfg) C) start (sys_end S)"
    "sync_inv (holds_records view T) (last_block_saved view) (chain_records G (cfg_address cfg) C) start (sys_end S)
      (synced S, sys_db S)"
    "t \<in># tasks_of S \<Longrightarrow> task_ok C (chain_records G (cfg_address cfg) C) start (sys_end S) t"
proof -
  note model = scripted_model [OF store world, of T]
  show inv: "indexer.inv (holds_records view T) (last_block_saved view) C cfg G start H (seen [] S)"
    using assms by (simp add: system_inv_def)
  show "0 \<le> start" "2 * sys_end S < max_int" "horizon_ok (chain_records G (cfg_address cfg) C) start (sys_end S)"
    using indexer.start_nonneg [OF model] indexer.inv_horizon [OF model inv] by (simp_all add: seen_def)
  show "sync_inv (holds_records view T) (last_block_saved view) (chain_records G (cfg_address cfg) C) start (sys_end S)
      (synced S, sys_db S)"
    "t \<in># tasks_of S \<Longrightarrow> task_ok C (chain_records G (cfg_address cfg) C) start (sys_end S) t"
    using inv by (simp_all add: indexer.inv_def [OF model] process_inv_def seen_def)
qed

lemma job_task: "(t, p) \<in># jobs S \<Longrightarrow> t \<in># tasks_of S"
  by (rule tasks_of_replace(2))

lemma works_logs:
  assumes "good S" "(Fetching lo hi, Done r) \<in># jobs S"
  shows "does_work S (replace_job (Fetching lo hi, Done r) (logs_answered lo hi (logs_of r)) (S\<lparr>sem_held := k\<rparr>))"
proof -
  obtain input where i: "request_of cfg (Fetching lo hi) = Some input" by (simp add: request_of_def)
  with assms have p: "point_prompt E b0 input (Done r)" unfolding prompt_def by blast
  have "range_ok start (sys_end S) lo hi" using good_process(6) [OF assms(1) job_task [OF assms(2)]] by simp
  from logs_answered_weight [OF this good_process(2,3) [OF assms(1)] prompt_logs [OF limits i p]]
  obtain ts where ts: "logs_answered lo hi (logs_of r) = Some ts" "tasks_weight ts < task_weight (Fetching lo hi)"
    by blast
  show ?thesis using assms by (intro works_replace [OF _ assms(2) ts logs_answered_size [OF ts(1)]]) simp
qed

lemma works_batch:
  assumes "good S" "(Assembling lo hi ls, Done r) \<in># jobs S"
  shows "does_work S
    (replace_job (Assembling lo hi ls, Done r) (batch_answered G (cfg_address cfg) lo hi ls (batch_of r)) (S\<lparr>sem_held := k\<rparr>))"
proof -
  obtain input where i: "request_of cfg (Assembling lo hi ls) = Some input" by (simp add: request_of_def)
  with assms have p: "point_prompt E b0 input (Done r)" and g: "given_at E input (Done r)"
    unfolding prompt_def system_inv_def system_ok_def by blast+
  have w: "honest_endpoints E C (cfg_topic cfg)" "chain_ok G C" "one_log_per_tx C" using world by (simp_all add: world_ok_def)
  have shown: "blocks = map (Some \<circ> chain_header C) (collect_bns ls Map.empty []) \<and>
      txs = map (Some \<circ> chain_tx C) (map TxHash ls)" if "batch_of r = Return (blocks, txs)" for blocks txs
  proof -
    have "batch_shown C (collect_bns ls Map.empty []) (map TxHash ls) (batch_of r)"
      by (rule given_batch [OF w(1) i]) (use g in simp)
    with that show ?thesis by (simp add: batch_shown_def del: map_map)
  qed
  have ok: "mset ls = mset (logs_between C lo hi)" "range_ok start (sys_end S) lo hi"
    using good_process(6) [OF assms(1) job_task [OF assms(2)]] by simp_all
  from batch_answered_weight [OF w(2,3) ok good_process(2,3) [OF assms(1)] prompt_batch [OF limits i p] shown,
      of "cfg_address cfg"]
  obtain ts where ts: "batch_answered G (cfg_address cfg) lo hi ls (batch_of r) = Some ts"
    "tasks_weight ts < task_weight (Assembling lo hi ls)"
    by blast
  show ?thesis
    using assms ended_size [of lo hi _ ts] ts(1) by (intro works_replace [OF _ assms(2) ts]) (simp_all add: batch_answered_def)
qed

lemma works_acquire:
  assumes "good S" "(Queued lo hi, p) \<in># jobs S"
  shows "does_work S (replace_job (Queued lo hi, p) (Some {#Fetching lo hi#}) (S\<lparr>sem_held := k\<rparr>))"
  using assms width_pos [of lo hi] by (intro works_replace [OF _ assms(2) refl]) simp_all

lemma recv_enabled:
  assumes "good S" "starting_at S = None" "committed S = None" "datachan (sys_sync S) \<noteq> []"
  shows "\<exists>s'. sync_recv (sys_sync S) = Some s' \<and> does_work S (S\<lparr>sys_sync := s'\<rparr>)"
proof -
  note plain = synced_plain [OF assms(2,3)]
  obtain s' where s': "sync_recv (sys_sync S) = Some s'" "datachan s' = tl (datachan (sys_sync S))"
    "curr_block s' = curr_block (sys_sync S)"
    using sync_recv_inv [OF good_process(5) [OF assms(1), unfolded plain] good_process(4) [OF assms(1)] assms(4)]
    by blast
  have "next_block (S\<lparr>sys_sync := s'\<rparr>) = next_block S"
    using assms(2,3) s'(3) by (simp add: next_block_def synced_def GetCurrBlock_def)
  then have "work (S\<lparr>sys_sync := s'\<rparr>) < work S" using assms(4) s'(2) by (simp add: work_def)
  then have "does_work S (S\<lparr>sys_sync := s'\<rparr>)" using assms(1) by (intro works_plain) (simp_all add: prompt_def)
  with s'(1) show ?thesis by blast
qed

lemma commit_works:
  assumes "good S" "starting_at S = None" "committed S = None"
  obtains a p' where "commit (SaveData B T) (sys_sync S) (sys_db S) = Some (Return (a, p'))"
    "a = None \<and> p' = sys_db S \<or> does_work S (S\<lparr>sys_db := p', committed := a\<rparr>)"
    "data_to_save (sys_sync S) (next_block S) \<noteq> None \<Longrightarrow> a \<noteq> None"
proof -
  note plain = synced_plain [OF assms(2,3)]
  note contract = bolt_store.saving_contract [OF store, of T]
  note sync = good_process(5) [OF assms(1), unfolded plain] good_process(4) [OF assms(1)]
  have nb: "next_block S = GetCurrBlock (sys_sync S)" by (simp add: next_block_def plain)
  obtain s' p' where t: "sync_tick (SaveData B T) (sys_sync S, sys_db S) = Some (Return (s', p'))"
    by (rule persistor_contract.sync_tick_inv [OF contract sync])
  then obtain a where a: "commit (SaveData B T) (sys_sync S) (sys_db S) = Some (Return (a, p'))"
    "s' = advanced a (sys_sync S)"
    by (auto simp: sync_tick_commit obind_eq_Return)
  have more: "next_block S < GetCurrBlock s'" if "data_to_save (sys_sync S) (next_block S) \<noteq> None"
    unfolding nb
    by (rule persistor_contract.sync_tick_progress [OF contract sync _ order_refl save_works t])
      (use that nb in \<open>auto dest: order_antisym\<close>)
  have does: "does_work S (S\<lparr>sys_db := p', committed := a\<rparr>)" if "a \<noteq> None"
  proof -
    have "next_block S < next_block (S\<lparr>sys_db := p', committed := a\<rparr>)"
      using more commit_Some [of _ "sys_sync S"] a that nb assms(2)
      by (force simp: next_block_def synced_def)
    then have "nat (sys_end S + 1 - next_block (S\<lparr>sys_db := p', committed := a\<rparr>)) < nat (sys_end S + 1 - next_block S)"
      using assms(1) by simp
    then have "work (S\<lparr>sys_db := p', committed := a\<rparr>) < work S"
      unfolding work_def using assms(3) that by (cases a) (simp_all del: nat_less_eq_zless zless_nat_conj)
    then show ?thesis using assms(1) by (intro works_plain) (simp_all add: prompt_def)
  qed
  have "p' = sys_db S" if "a = None" by (rule commit_None [OF a(1) [unfolded that]])
  with does have "a = None \<and> p' = sys_db S \<or> does_work S (S\<lparr>sys_db := p', committed := a\<rparr>)" by (cases a) simp_all
  moreover have "a \<noteq> None" if "data_to_save (sys_sync S) (next_block S) \<noteq> None"
    using more [OF that] a(2) nb by (cases a) auto
  ultimately show ?thesis by (rule that [OF a(1)])
qed

lemma step_works:
  assumes "next_step S S'" "good S"
  shows "S' = S \<or> does_work S S'"
  using assms
proof (induction rule: system_step.induct)
  case (acquire S lo hi p)
  then show ?case using works_acquire by blast
next
  case (call S t p input p' s')
  show ?case
  proof (cases "\<exists>r. p = Done r")
    case True
    with call(4) have "p' = p" "s' = shared S" by auto
    with call(2) show ?thesis by simp
  next
    case False
    then show ?thesis using works_call [OF has_clients served rounds _ call(2-4)] call(5) by blast
  qed
next
  case (logs S lo hi r)
  then show ?case using works_logs by blast
next
  case (batch S lo hi ls r)
  then show ?case using works_batch by blast
next
  case (send S item p s')
  then show ?case using works_send by blast
next
  case (start S b)
  then have "work (S\<lparr>sys_sync := start_sync b (sys_sync S), starting_at := None\<rparr>) < work S"
    by (simp add: work_def next_block_def synced_def) (simp add: start_sync_def)
  with start have "does_work S (S\<lparr>sys_sync := start_sync b (sys_sync S), starting_at := None\<rparr>)"
    by (intro works_plain) (simp_all add: prompt_def)
  then show ?case ..
next
  case (recv S s')
  with recv_enabled [OF recv(5,2,3)] sync_recv_nonempty [OF recv(4)] show ?case by auto
next
  case (tick S a p')
  obtain a' q where "commit (SaveData B T) (sys_sync S) (sys_db S) = Some (Return (a', q))"
    "a' = None \<and> q = sys_db S \<or> does_work S (S\<lparr>sys_db := q, committed := a'\<rparr>)"
    by (rule commit_works [OF tick(5,2,3)])
  with tick(3,4) show ?case by (cases S) auto
next
  case (tick_panic S m)
  obtain a' q where "commit (SaveData B T) (sys_sync S) (sys_db S) = Some (Return (a', q))"
    by (rule commit_works [OF tick_panic(5,2,3)])
  with tick_panic(4) show ?case by simp
next
  case (advance S a)
  then have none: "starting_at S = None" by (auto simp: system_inv_def system_ok_def)
  then have "synced (S\<lparr>sys_sync := advance a (sys_sync S), committed := None\<rparr>) = synced S"
    using advance(2) by (simp add: synced_def)
  moreover from this have "datachan (advance a (sys_sync S)) = datachan (sys_sync S)"
    by (simp add: advance_def split: prod.split)
  ultimately have "work (S\<lparr>sys_sync := advance a (sys_sync S), committed := None\<rparr>) < work S"
    using advance(2) by (simp add: work_def next_block_def)
  with advance(3) have "does_work S (S\<lparr>sys_sync := advance a (sys_sync S), committed := None\<rparr>)"
    by (intro works_plain) (simp_all add: prompt_def)
  then show ?case ..
next
  case (ask S)
  then have "GetCurrBlock (sys_sync S) \<le> next_block S" by (simp add: system_inv_def system_ok_def next_block_def)
  with ask(4,5) show ?case by simp
qed (simp_all add: prompt_def)

text \<open>As long as the range is not saved, some step works. The four lemmas take the cases in
  which there is a fetch that holds the semaphore, one that has to hand over its item, only fetches
  that wait, and none.\<close>

lemma call_enabled:
  assumes "good S" "(t, p) \<in># jobs S" "request_of cfg t = Some input" "\<forall>r. p \<noteq> Done r"
  shows "\<exists>S'. next_step S S' \<and> does_work S S'"
proof -
  obtain p' s' where st: "call_step E cfg input (p, shared S) = (p', s')" by (rule prod.exhaust)
  have "sys_alive S" "prompt E cfg b0 S" using assms(1) by (simp_all add: prompt_def)
  with system_step.call [OF _ assms(2,3) st] works_call [OF has_clients served rounds _ assms(2,3) st assms(4)]
  show ?thesis by blast
qed

lemma fetch_enabled:
  assumes "good S" "(t, p) \<in># jobs S" "holds_semaphore t"
  shows "\<exists>S'. next_step S S' \<and> does_work S S'"
proof -
  have alive: "sys_alive S" using assms(1) by (simp add: prompt_def)
  show ?thesis
  proof (cases "\<exists>r. p = Done r")
    case False
    moreover obtain input where "request_of cfg t = Some input" using assms(3) by (cases t) (simp_all add: request_of_def)
    ultimately show ?thesis using call_enabled [OF assms(1,2)] by blast
  next
    case True
    then obtain r where p: "p = Done r" by blast
    show ?thesis
    proof (cases t)
      case (Fetching lo hi)
      with assms(2) p have "(Fetching lo hi, Done r) \<in># jobs S" by simp
      then show ?thesis using system_step.logs [OF alive] works_logs [OF assms(1)] by blast
    next
      case (Assembling lo hi ls)
      with assms(2) p have "(Assembling lo hi ls, Done r) \<in># jobs S" by simp
      then show ?thesis using system_step.batch [OF alive] works_batch [OF assms(1)] by blast
    qed (use assms(3) in simp_all)
  qed
qed

lemma send_enabled:
  assumes "good S" "(Sending item, p) \<in># jobs S" "datachan (sys_sync S) = []"
  shows "\<exists>S'. next_step S S' \<and> does_work S S'"
proof -
  obtain s' where s': "Add item (sys_sync S) = Some s'" using assms(3) by (simp add: Add_def datachan_capacity_def)
  have "sys_alive S" "prompt E cfg b0 S" using assms(1) by (simp_all add: prompt_def)
  with system_step.send [OF _ assms(2) s'] works_send [OF _ assms(2) s'] show ?thesis by blast
qed

lemma acquire_enabled:
  assumes "good S" "(Queued lo hi, p) \<in># jobs S" "\<forall>t p. (t, p) \<in># jobs S \<longrightarrow> \<not> holds_semaphore t"
  shows "\<exists>S'. next_step S S' \<and> does_work S S'"
proof -
  have "filter_mset holds_semaphore (tasks_of S) = {#}"
    using assms(3) by (auto simp: tasks_of_def filter_mset_eq_conv)
  then have "running (tasks_of S) = 0" unfolding running_def by (simp only: size_empty)
  moreover have alive: "sys_alive S" using assms(1) by (simp add: prompt_def)
  ultimately have run: "sem_held S < cfg_concurrency cfg"
    using concurrent assms(1) by (simp add: system_inv_def system_ok_def)
  from system_step.acquire [OF alive assms(2) run] works_acquire [OF assms(1,2)] show ?thesis by blast
qed

lemma sync_enabled:
  assumes "good S" "jobs S = {#}" "starting_at S = None" "committed S = None" "datachan (sys_sync S) = []"
  shows "\<exists>S'. next_step S S' \<and> does_work S S'"
proof -
  note model = scripted_model [OF store world, of T]
  have "on_its_way (seen [] S) (next_block S)"
    using good_process(1) [OF assms(1)] assms(1)
    by (simp add: indexer.inv_def [OF model] process_inv_def next_block_seen) (simp add: seen_def)
  then have "data_to_save (sys_sync S) (next_block S) \<noteq> None"
    using assms(2,5) by (auto simp: on_its_way_def seen_def tasks_of_def dest: synced_sub)
  then obtain a p' where "commit (SaveData B T) (sys_sync S) (sys_db S) = Some (Return (a, p'))"
    "does_work S (S\<lparr>sys_db := p', committed := a\<rparr>)"
    using commit_works [OF assms(1,3,4)] by blast
  then show ?thesis using system_step.tick [OF _ assms(3,4)] assms(1) unfolding prompt_def by blast
qed

lemma some_step_works:
  assumes "good S"
  shows "\<exists>S'. next_step S S' \<and> does_work S S'"
proof -
  have alive: "sys_alive S" using assms by (simp add: prompt_def)
  consider b where "starting_at S = Some b" | a where "committed S = Some a"
    | "starting_at S = None" "committed S = None" "datachan (sys_sync S) \<noteq> []"
    | "starting_at S = None" "committed S = None" "datachan (sys_sync S) = []"
    by fastforce
  then show ?thesis
  proof cases
    case 1
    note st = system_step.start [OF alive 1, of E G cfg "SaveData B T"]
    have "S\<lparr>sys_sync := start_sync b (sys_sync S), starting_at := None\<rparr> \<noteq> S" using 1 by (cases S) auto
    with step_works [OF st assms] st show ?thesis by blast
  next
    case 2
    note st = system_step.advance [OF alive 2, of E G cfg "SaveData B T"]
    have "S\<lparr>sys_sync := advance a (sys_sync S), committed := None\<rparr> \<noteq> S" using 2 by (cases S) auto
    with step_works [OF st assms] st show ?thesis by blast
  next
    case 3
    with recv_enabled [OF assms] system_step.recv [OF alive] show ?thesis by blast
  next
    case 4
    show ?thesis
    proof (cases "\<exists>t p. (t, p) \<in># jobs S \<and> (\<forall>lo hi. t \<noteq> Queued lo hi)")
      case True
      then obtain t p where t: "(t, p) \<in># jobs S" "\<forall>lo hi. t \<noteq> Queued lo hi" by blast
      with fetch_enabled [OF assms t(1)] send_enabled [OF assms _ 4(3)] show ?thesis by (cases t) auto
    next
      case False
      show ?thesis
      proof (cases "jobs S = {#}")
        case True
        then show ?thesis by (rule sync_enabled [OF assms _ 4])
      next
        case non_empty: False
        then obtain t p where "(t, p) \<in># jobs S" by (metis multiset_nonemptyE prod.exhaust)
        with False obtain lo hi where "(Queued lo hi, p) \<in># jobs S" by blast
        then show ?thesis using acquire_enabled [OF assms] False by (metis holds_semaphore.simps(3))
      qed
    qed
  qed
qed

text \<open>So a fair run saves the range it begins with.\<close>

lemma fair_run_completes:
  fixes f :: "nat \<Rightarrow> ('c, 't, 'w, 'p) system"
  assumes "fair_run next_step f" "prompt E cfg b0 (f 0)" "system_inv view T E C cfg G start H (f 0)"
  shows "\<exists>n. prompt E cfg b0 (f n) \<and> sys_end (f n) = sys_end (f 0) \<and> sys_end (f 0) < next_block (f n)"
proof (rule ccontr)
  assume "\<not> ?thesis"
  then have open_range: "next_block (f n) \<le> sys_end (f n)" if "prompt E cfg b0 (f n)" "sys_end (f n) = sys_end (f 0)" for n
    using that by force
  have inv: "system_inv view T E C cfg G start H (f n)" for n
  proof (induction n)
    case (Suc n)
    have "f (Suc n) = f n \<or> next_step (f n) (f (Suc n))" using assms(1) by (simp add: fair_run_def)
    with Suc show ?case
      using system_step_inv(1) [OF store world Suc] system_step_ok [OF store world Suc] by (auto simp: system_inv_def)
  qed (rule assms(3))
  have same: "prompt E cfg b0 (f n) \<and> sys_end (f n) = sys_end (f 0)" for n
  proof (induction n)
    case (Suc n)
    have "f (Suc n) = f n \<or> next_step (f n) (f (Suc n))" using assms(1) by (simp add: fair_run_def)
    with Suc show ?case
      using step_works [of "f n" "f (Suc n)"] open_range [of n] inv [of n] by (auto simp: works_def)
  qed (use assms(2) in simp)
  have good: "good (f n)" for n using same [of n] open_range [of n] inv [of n] by simp
  have "f (Suc n) = f n \<or> work (f (Suc n)) < work (f n)" if "next_step (f n) (f (Suc n))" for n
    using step_works [OF that good] by (auto simp: works_def)
  from fair_run_rests [OF assms(1) this] obtain n where "\<forall>S. next_step (f n) S \<longrightarrow> S = f n" by blast
  with some_step_works [OF good [of n]] works_neq show False by blast
qed

end

section \<open>The program\<close>

lemma prompt_started:
  fixes S :: "('c, 't, 'w, 'p) system"
  assumes "starts_at st start e" "0 \<le> start" "2 * e < max_int" "S = started_system st db s"
    and "0 \<le> count (fst s)" "count (fst s) + 130 * (e - start + 2) \<le> max_int"
  shows "prompt E cfg (fst s) S \<and> sys_end S = e"
proof -
  have st: "sync_from st = start" "requested st = (start, e)" "sys_end S = e" "0 \<le> e" "start \<le> e + 1"
    using assms(1,4) by (auto simp: starts_at_def started_system_def)
  have "GetCurrBlock (start_sync start NewSynchronizer) = start"
    using assms(2,3) st(4,5) by (simp add: start_sync_def NewSynchronizer_def GetCurrBlock_def go_arith min_int_def)
  then have "next_block S = start" using st(1) assms(4) by (simp add: next_block_def synced_def started_system_def)
  moreover have "jobs_weight (jobs S) = 16 * (8 * width start e - 3) + 7"
    using st(2) assms(4) by (simp add: started_system_def jobs_weight_new)
  ultimately have "int (work S) \<le> 130 * (e - start + 2)"
    using st assms(4) by (simp add: work_def started_system_def NewSynchronizer_def width_def max_def)
  then have "count (fst s) + int (work S) \<le> max_int" using assms(6) by linarith
  with st(2,3) assms(4,5) show ?thesis
    by (simp add: prompt_def started_system_def new_jobs_def request_of_def)
qed

lemma served_by_all_ref: "served_by_all (chain_eth C head) cfg (ref_balancer (- 1) (- 1))"
proof -
  have "healthy (chain_eth C head) cfg input c" if "c \<in> set (clients (ref_balancer (- 1) (- 1)))" "asks input" for c input
    using that by (intro served_healthy) (auto simp: ref_balancer_def ref_client_def)
  then have "prompt_answer (chain_eth C head) input (fst (doGenericReq (chain_eth C head) input (ethClient c) w))"
    if "c \<in> set (clients (ref_balancer (- 1) (- 1)))" "asks input" for c input w
    using that unfolding healthy_def prompt_answer_def by (metis fst_conv)
  moreover have "- 1 \<le> fst (Now (chain_eth C head) w)" "\<not> TimerFirst (chain_eth C head) t cl w" for w t cl
    by (simp_all add: chain_eth_def)
  moreover have "blockedUntil c = - 1" if "c \<in> set (clients (ref_balancer (- 1) (- 1)))" for c
    using that by (auto simp: ref_balancer_def ref_client_def)
  ultimately show ?thesis unfolding served_by_all_def by simp
qed

interpretation prompt_ref: prompt_program "chain_eth ref_served 9" ref_served ref_geth ref_config ref_bolt ref_view
    ref_types 0 9 "ref_balancer (- 1) (- 1)"
  by (intro prompt_program.intro ref.bolt_store_axioms ref_world_ok served_reasonable ref_save_works served_by_all_ref)
    (simp_all add: ref_config_def ref_balancer_def bal_ok_def)

section \<open>Property\<close>

text \<open>C4: the program does finish. If every client answers each request in time, with an answer
  or by saying that more than one block is too much, and the database accepts what it is given, then
  every fair run, in range mode and in full mode, reaches a state in which the whole requested range
  is saved, and no goroutine panics before: however the fetches, their calls of the balancer, the
  synchronizer and the orchestrator are interleaved, as long as the run does not stop for ever
  where a step could change the state. The counter of attempts must not overflow; 130 per block is
  more than enough.\<close>

theorem fair_runs_complete:
  assumes "bolt_store B view" and "world_ok E C G cfg start H" and "reasonable_limits E"
    and "\<forall>rs n p err. SaveData B T rs n p \<noteq> Fail err" and "0 < cfg_concurrency cfg" and "0 < cfg_max_rounds cfg"
    and "bal_ok (fst s)" and "served_by_all E cfg (fst s)"
    and "0 \<le> count (fst s)" and "count (fst s) + 130 * (e - start + 2) \<le> max_int"
    and "starts_at st start e" and "e \<le> H" and "holds_records view T db []"
    and "fair_run (system_step E G cfg (SaveData B T)) f" and "f 0 = started_system st db s"
  shows "\<exists>n. sys_alive (f n) \<and> next_block (f n) = e + 1 \<and>
    holds_records view T (sys_db (f n)) (records_between (chain_records G (cfg_address cfg) C) start (e + 1))"
proof -
  have program: "prompt_program E C G cfg B view T start H (fst s)"
    by (intro prompt_program.intro assms(1-3,5-8)) (use assms(4) in blast)
  have "0 \<le> start" "2 * e < max_int" using assms(2,12) by (simp_all add: world_ok_def horizon_ok_def)
  then have init: "prompt E cfg (fst s) (f 0) \<and> sys_end (f 0) = e"
    by (rule prompt_started [OF assms(11) _ _ assms(15,9,10)])
  have inv: "system_inv view T E C cfg G start H (f n)" for n
    using system_run_inv [OF assms(1,2,11-13)] fair_run_reaches [OF assms(14), of n] assms(15) by simp
  obtain n where n: "prompt E cfg (fst s) (f n)" "sys_end (f n) = e" "e < next_block (f n)"
    using prompt_program.fair_run_completes [OF program assms(14) _ inv [of 0]] init by auto
  note saved = system_saved [OF assms(1,2) inv [of n]]
  have "next_block (f n) = e + 1" using n(2,3) saved(2) by simp
  with saved(3) n(1) show ?thesis by (auto simp: prompt_def)
qed

theorem fair_runs_complete_witness:
  "\<exists>f n. f 0 = started_system ref_started ref_empty (ref_balancer (- 1) (- 1), 5) \<and>
    fair_run (system_step (chain_eth ref_served 9) ref_geth ref_config (SaveData ref_bolt ref_types)) f \<and>
    next_block (f n) = 5"
proof -
  let ?next = "system_step (chain_eth ref_served 9) ref_geth ref_config (SaveData ref_bolt ref_types)"
  obtain f where f: "f 0 = started_system ref_started ref_empty (ref_balancer (- 1) (- 1), 5)" "fair_run ?next f"
    using fair_run_exists [of "started_system ref_started ref_empty (ref_balancer (- 1) (- 1), 5)" ?next]
    by (elim exE conjE)
  have save: "\<forall>rs n p e. SaveData ref_bolt ref_types rs n p \<noteq> Fail e" using ref_save_works by blast
  have "0 < cfg_concurrency ref_config" "0 < cfg_max_rounds ref_config"
    "bal_ok (fst (ref_balancer (- 1) (- 1), 5 :: int))"
    "served_by_all (chain_eth ref_served 9) ref_config (fst (ref_balancer (- 1) (- 1), 5 :: int))"
    "0 \<le> count (fst (ref_balancer (- 1) (- 1), 5 :: int))"
    "count (fst (ref_balancer (- 1) (- 1), 5 :: int)) + 130 * (4 - 0 + 2) \<le> max_int"
    using served_by_all_ref by (simp_all add: ref_config_def ref_balancer_def bal_ok_def int_of_uint64_def max_int_def)
  from fair_runs_complete [OF ref.bolt_store_axioms ref_world_ok served_reasonable save this starts_at_ref
      holds_records_ref_empty f(2,1)] f
  show ?thesis by auto
qed

end
