(* ===== verification/Error_Texts.thy ===== *)
theory Error_Texts
  imports Error_Code Json_Encode
begin

text \<open>
  The classification of \<^verbatim>\<open>balancer/error_code.go\<close> on the errors that go-ethereum's rpc client
  returns. Their forms are written out here: a JSON-RPC error marshals to an object with its
  code, message and data; the error of an HTTP response has the status and the body as its
  text; the body of a refused batch is the JSON array of its responses. The texts are produced
  by the encoder of the theory \<open>Json_Encode\<close> and read by the decoder of \<open>Json_Decode\<close>.
\<close>

section \<open>The forms of the errors\<close>

text \<open>A response of a batch: a result, or an error with its code, message and optional data.\<close>

datatype batch_reply = Result json | Refused int string "json option"

definition rpc_error :: "int \<Rightarrow> string \<Rightarrow> json option \<Rightarrow> json" where
  "rpc_error c m d =
     JObj ([(''code'', JNum (Itoa c)), (''message'', JStr m)] @
       (case d of None \<Rightarrow> [] | Some v \<Rightarrow> [(''data'', v)]))"

definition rpc_response :: "int \<times> batch_reply \<Rightarrow> json" where
  "rpc_response r =
     JObj [(''jsonrpc'', JStr ''2.0''), (''id'', JNum (Itoa (fst r))),
       (case snd r of
          Result v \<Rightarrow> (''result'', v)
        | Refused c m d \<Rightarrow> (''error'', rpc_error c m d))]"

definition reply_code :: "batch_reply \<Rightarrow> int" where
  "reply_code r = (case r of Result v \<Rightarrow> 0 | Refused c m d \<Rightarrow> c)"

definition http_error_json :: "int \<Rightarrow> string \<Rightarrow> string \<Rightarrow> json" where
  "http_error_json code status body =
     JObj [(''StatusCode'', JNum (Itoa code)), (''Status'', JStr status), (''Body'', JStr body)]"

text \<open>The values that a Go program can hold and a JSON text can carry.\<close>

definition data_ok :: "json \<Rightarrow> bool" where
  "data_ok v \<longleftrightarrow> wf_json v \<and> nesting v + 3 \<le> max_nesting"

definition error_ok :: "int \<Rightarrow> string \<Rightarrow> json option \<Rightarrow> bool" where
  "error_ok c m d \<longleftrightarrow> is_int64 c \<and> valid_utf8 m \<and> (\<forall>v. d = Some v \<longrightarrow> data_ok v)"

definition response_ok :: "int \<times> batch_reply \<Rightarrow> bool" where
  "response_ok r \<longleftrightarrow> is_int64 (fst r) \<and>
     (case snd r of Result v \<Rightarrow> data_ok v | Refused c m d \<Rightarrow> error_ok c m d)"

text \<open>What a code means for the request.\<close>

definition meaning :: "go_error \<Rightarrow> int \<Rightarrow> go_error" where
  "meaning err c =
     (if c = - 32602 \<or> c = - 32600 then ErrReqTooBig else if c = 429 then ErrRateLimit else err)"

section \<open>Reading the forms back\<close>

lemma keys_valid [simp]:
  "valid_utf8 ''code''" "valid_utf8 ''message''" "valid_utf8 ''data''" "valid_utf8 ''jsonrpc''" "valid_utf8 ''2.0''"
  "valid_utf8 ''id''" "valid_utf8 ''result''" "valid_utf8 ''error''" "valid_utf8 ''StatusCode''"
  "valid_utf8 ''Status''" "valid_utf8 ''Body''"
  by (simp_all add: ascii_def ascii_valid)

lemma keys_folded [simp]:
  "fold_name ''code'' = ''code''" "fold_name ''message'' = ''message''" "fold_name ''data'' = ''data''"
  "fold_name ''jsonrpc'' = ''jsonrpc''" "fold_name ''id'' = ''id''" "fold_name ''result'' = ''result''"
  "fold_name ''error'' = ''error''" "fold_name ''StatusCode'' = ''statuscode''" "fold_name ''Status'' = ''status''"
  "fold_name ''Body'' = ''body''"
  by code_simp+

lemma parse_printed: "wf_json v \<Longrightarrow> nesting v \<le> max_nesting \<Longrightarrow> json_parse (json_print v) = Some v"
  using json_value_print [of v 0 "[]"] by (simp add: json_parse_def skip_space_def)

lemma wf_Itoa [simp]: "wf_number (Itoa n)"
  by (auto simp: wf_number_def)

lemma wf_rpc_error:
  assumes "error_ok c m d"
  shows "wf_json (rpc_error c m d)" "nesting (rpc_error c m d) + 2 \<le> max_nesting"
  using assms by (auto simp: rpc_error_def error_ok_def data_ok_def max_nesting_def split: option.splits)

lemma decode_rpc_error:
  "is_int64 c \<Longrightarrow> \<exists>e. decode_JsonError (rpc_error c m d) r = Some e \<and> je_code e = c"
  by (cases d) (simp_all add: rpc_error_def decode_JsonError_def error_field_def decode_int_def decode_string_def
      ParseInt_Itoa del: fold_name.simps)

lemma wf_rpc_response:
  assumes "response_ok r"
  shows "wf_json (rpc_response r)" "nesting (rpc_response r) + 1 \<le> max_nesting"
  using assms wf_rpc_error
  by (auto simp: rpc_response_def response_ok_def data_ok_def max_nesting_def split: batch_reply.splits)

lemma decode_rpc_response:
  assumes "response_ok r"
  shows "\<exists>x. decode_JsonResponse (rpc_response r) zero_JsonResponse = Some x \<and> je_code (jr_error x) = reply_code (snd r)"
proof -
  have id: "is_int64 (fst r)" using assms by (simp add: response_ok_def)
  show ?thesis
  proof (cases "snd r")
    case (Result v)
    then show ?thesis
      by (simp add: id rpc_response_def decode_JsonResponse_def response_field_def decode_int_def decode_string_def
          ParseInt_Itoa reply_code_def zero_JsonResponse_def zero_JsonError_def del: fold_name.simps)
  next
    case (Refused c m d)
    with assms have "is_int64 c" by (simp add: response_ok_def error_ok_def)
    from decode_rpc_error [OF this, of m d zero_JsonError] Refused show ?thesis
      by (auto simp add: id rpc_response_def decode_JsonResponse_def response_field_def decode_int_def decode_string_def
          ParseInt_Itoa reply_code_def zero_JsonResponse_def simp del: fold_name.simps)
  qed
qed

lemma decode_rpc_responses:
  "\<forall>r \<in> set rs. response_ok r \<Longrightarrow> \<exists>xs. decode_responses (map rpc_response rs) = Some xs \<and>
     response_codes xs = map (\<lambda>r. reply_code (snd r)) rs"
proof (induction rs)
  case (Cons r rs)
  then obtain xs x where "decode_responses (map rpc_response rs) = Some xs"
    "response_codes xs = map (\<lambda>r. reply_code (snd r)) rs"
    "decode_JsonResponse (rpc_response r) zero_JsonResponse = Some x" "je_code (jr_error x) = reply_code (snd r)"
    using decode_rpc_response [of r] by auto
  then show ?case by (simp add: response_codes_def)
qed (simp add: response_codes_def)

lemma unmarshal_printed_responses:
  assumes "\<forall>r \<in> set rs. response_ok r"
  shows "\<exists>xs. unmarshal_JsonResponses (json_print (JArr (map rpc_response rs))) = Some xs \<and>
    response_codes xs = map (\<lambda>r. reply_code (snd r)) rs"
proof -
  let ?v = "JArr (map rpc_response rs)"
  have "foldr max (map nesting (map rpc_response rs)) 0 + 1 \<le> max_nesting"
    using assms wf_rpc_response(2) by (induction rs) (auto simp: max_nesting_def)
  then have "json_parse (json_print ?v) = Some ?v"
    using assms wf_rpc_response(1) by (intro parse_printed) auto
  with decode_rpc_responses [OF assms] show ?thesis
    by (auto simp: unmarshal_JsonResponses_def simp del: json_print.simps)
qed

lemma unmarshal_printed_error:
  assumes "error_ok c m d"
  shows "\<exists>e. unmarshal_JsonError (json_print (rpc_error c m d)) = Some e \<and> je_code e = c"
proof -
  have "json_parse (json_print (rpc_error c m d)) = Some (rpc_error c m d)"
    using wf_rpc_error [OF assms] by (intro parse_printed) auto
  with decode_rpc_error [of c m d zero_JsonError] assms show ?thesis
    by (simp add: unmarshal_JsonError_def error_ok_def)
qed

lemma unmarshal_printed_http:
  assumes "valid_utf8 status" "valid_utf8 body"
  shows "unmarshal_JsonError (json_print (http_error_json code status body)) = Some zero_JsonError"
proof -
  have "json_parse (json_print (http_error_json code status body)) = Some (http_error_json code status body)"
    using assms by (intro parse_printed) (simp_all add: http_error_json_def max_nesting_def)
  then show ?thesis
    by (simp add: unmarshal_JsonError_def http_error_json_def decode_JsonError_def error_field_def del: fold_name.simps)
qed

lemma batch_text:
  "\<not> HasPrefix (''400 Bad Request: '' @ json_print (JArr vs)) ''429''"
  "HasPrefix (''400 Bad Request: '' @ json_print (JArr vs)) prefixSliceBadReqError"
  "HasSuffix (''400 Bad Request: '' @ json_print (JArr vs)) '']''"
  "drop indexPrefixSliceError (''400 Bad Request: '' @ json_print (JArr vs)) = json_print (JArr vs)"
  by (simp_all add: HasPrefix_def HasSuffix_def prefixSliceBadReqError_def indexPrefixSliceError_def)

section \<open>The property\<close>

lemma handleRPCError_meaning:
  "getErrCode err = Inr c \<Longrightarrow> handleRPCError err = meaning err c"
  by (simp add: handleRPCError_def meaning_def tooBigErrorCodes_def rateLimitErrorCode_def)

lemma handle_rate_limit:
  assumes "HasPrefix text ''429''"
  shows "handleRPCError (Foreign text js) = ErrRateLimit"
proof -
  have "getErrCode (Foreign text js) = Inr 429"
    using assms by (simp add: getErrCode_def error_text_def rateLimitErrorCode_def)
  from handleRPCError_meaning [OF this] show ?thesis by (simp add: meaning_def)
qed

lemma handle_single:
  assumes "\<not> HasPrefix text ''429''" "\<not> (HasPrefix text ''400 Bad Request: '' \<and> HasSuffix text '']'')"
    and "unmarshal_JsonError x = Some e"
  shows "handleRPCError (Foreign text (Some x)) = meaning (Foreign text (Some x)) (je_code e)"
proof (rule handleRPCError_meaning)
  show "getErrCode (Foreign text (Some x)) = Inr (je_code e)"
    using assms by (auto simp: getErrCode_def error_text_def prefixSliceBadReqError_def getErrCodeSingle_def error_json_def)
qed

lemma handle_batch:
  assumes "\<forall>r \<in> set rs. response_ok r"
    and "err = Foreign (''400 Bad Request: '' @ json_print (JArr (map rpc_response rs))) js"
  shows "handleRPCError err =
    (case dropWhile (\<lambda>c. c = 0) (map (\<lambda>r. reply_code (snd r)) rs) of
       [] \<Rightarrow> err
     | c # cs \<Rightarrow> if \<forall>c' \<in> set cs. c' = c then meaning err c else err)"
proof -
  obtain xs where xs: "unmarshal_JsonResponses (json_print (JArr (map rpc_response rs))) = Some xs"
    "response_codes xs = map (\<lambda>r. reply_code (snd r)) rs"
    using unmarshal_printed_responses [OF assms(1)] by blast
  define cs where "cs = dropWhile (\<lambda>c. c = 0) (map (\<lambda>r. reply_code (snd r)) rs)"
  have message: "error_text err = ''400 Bad Request: '' @ json_print (JArr (map rpc_response rs))"
    by (simp add: assms(2) error_text_def)
  have "common_code 0 xs = (case cs of [] \<Rightarrow> Some 0 | c # cs \<Rightarrow> if \<forall>c' \<in> set cs. c' = c then Some c else None)"
    by (simp only: cs_def common_code_zero xs(2))
  then have "getErrCode err = (case cs of [] \<Rightarrow> Inr 0
      | c # cs \<Rightarrow> if \<forall>c' \<in> set cs. c' = c then Inr c else Inl err)"
    using batch_text [of "map rpc_response rs", folded message] xs(1)
    by (simp add: getErrCode_def getErrCodeSliceBadReq_def Let_def del: json_print.simps split: list.split)
  then show ?thesis
    unfolding cs_def [symmetric]
    by (cases cs) (auto simp: handleRPCError_meaning handleRPCError_def meaning_def tooBigErrorCodes_def
        rateLimitErrorCode_def)
qed

text \<open>C35: how the balancer reads the errors of go-ethereum. A text that starts with 429 is a
  rate limit, whatever follows. A JSON-RPC error is read by its code: -32602 and -32600 mean
  that the request was too big, 429 is a rate limit, and any other error stays as it is, as
  does any other HTTP error. The text \<^verbatim>\<open>400 Bad Request:\<close> with the responses of a batch is read by
  the codes of the responses: results and codes 0 at its head are skipped, and the first
  other code counts if all that follow have the same, otherwise the error stays as it is.\<close>

theorem handleRPCError_classifies:
  assumes "error_ok c m d" and "\<forall>r \<in> set rs. response_ok r" and "valid_utf8 status" and "valid_utf8 body"
    and "\<not> HasPrefix text ''429''" and "\<not> (HasPrefix text ''400 Bad Request: '' \<and> HasSuffix text '']'')"
    and "single = Foreign text (Some (json_print (rpc_error c m d)))"
    and "other = Foreign text (Some (json_print (http_error_json n status body)))"
    and "batch = Foreign (''400 Bad Request: '' @ json_print (JArr (map rpc_response rs))) js"
  shows "handleRPCError (Foreign (''429'' @ rest) js) = ErrRateLimit \<and>
    handleRPCError single =
      (if c = - 32602 \<or> c = - 32600 then ErrReqTooBig else if c = 429 then ErrRateLimit else single) \<and>
    handleRPCError other = other \<and>
    handleRPCError batch =
      (case dropWhile (\<lambda>c. c = 0) (map (\<lambda>r. reply_code (snd r)) rs) of
         [] \<Rightarrow> batch
       | c # cs \<Rightarrow>
           if \<exists>c' \<in> set cs. c' \<noteq> c then batch
           else if c = - 32602 \<or> c = - 32600 then ErrReqTooBig
           else if c = 429 then ErrRateLimit else batch)"
proof (intro conjI)
  show "handleRPCError (Foreign (''429'' @ rest) js) = ErrRateLimit"
    by (rule handle_rate_limit) (simp add: HasPrefix_def)
  obtain e where "unmarshal_JsonError (json_print (rpc_error c m d)) = Some e" "je_code e = c"
    using unmarshal_printed_error [OF assms(1)] by blast
  with handle_single [OF assms(5,6), of "json_print (rpc_error c m d)" e]
  show "handleRPCError single =
      (if c = - 32602 \<or> c = - 32600 then ErrReqTooBig else if c = 429 then ErrRateLimit else single)"
    by (simp add: meaning_def assms(7))
  show "handleRPCError other = other"
    using handle_single [OF assms(5,6) unmarshal_printed_http [OF assms(3,4), of n]]
    by (simp add: assms(8) zero_JsonError_def meaning_def)
  show "handleRPCError batch =
      (case dropWhile (\<lambda>c. c = 0) (map (\<lambda>r. reply_code (snd r)) rs) of
         [] \<Rightarrow> batch
       | c # cs \<Rightarrow>
           if \<exists>c' \<in> set cs. c' \<noteq> c then batch
           else if c = - 32602 \<or> c = - 32600 then ErrReqTooBig
           else if c = 429 then ErrRateLimit else batch)"
    unfolding handle_batch [OF assms(2,9)] meaning_def
    by (rule list.case_cong [OF refl refl]) auto
qed

theorem handleRPCError_classifies_witness:
  "handleRPCError (Foreign ''query exceeds limit''
      (Some (json_print (rpc_error (- 32602) ''query exceeds limit'' None)))) = ErrReqTooBig \<and>
   handleRPCError (Foreign (''400 Bad Request: '' @
       json_print (JArr (map rpc_response [(1, Result JNull), (2, Refused 429 ''slow down'' None)]))) None) = ErrRateLimit"
proof -
  have texts: "error_ok (- 32602) ''query exceeds limit'' None"
    "\<forall>r \<in> set [(1, Result JNull), (2, Refused 429 ''slow down'' None)]. response_ok r" "valid_utf8 []"
    "\<not> HasPrefix ''query exceeds limit'' ''429''"
    "\<not> (HasPrefix ''query exceeds limit'' ''400 Bad Request: '' \<and> HasSuffix ''query exceeds limit'' '']'')"
    by (simp_all add: error_ok_def response_ok_def data_ok_def HasPrefix_def ascii_def ascii_valid min_int_def max_int_def
        max_nesting_def valid_utf8.simps)
  from handleRPCError_classifies [OF texts(1,2,3,3,4,5) refl refl refl, where js = None and n = 0 and rest = "[]"]
  show ?thesis by (simp add: reply_code_def del: json_print.simps)
qed

end
