(* ===== verification/Spec2Isabelle.thy ===== *)
theory Spec2Isabelle
  imports Restart Server Progress Error_Texts
begin

text \<open>
  \<^bold>\<open>EOA topic indexer\<close>

  The program indexes the events of one topic that belong to transactions from or to one
  Ethereum address, and serves them page by page over HTTP. It is one process:

  \<^item> \<^verbatim>\<open>main\<close> opens the database, dials the endpoints and starts the orchestrator.
  \<^item> The \<^emph>\<open>orchestrator\<close> decides which blocks are wanted. In range mode it requests one range; in
    full mode it requests everything from the block after the last saved one to a tag, and
    again whenever the tag has moved on.
  \<^item> The \<^emph>\<open>fetcher\<close> runs one goroutine per requested range, at most \<^verbatim>\<open>CONCURRENCY\<close> of them at a
    time. It asks the balancer for the logs, then for the headers and transactions of these
    logs, and builds the records of every block. A range that is too big is split in two.
  \<^item> The \<^emph>\<open>balancer\<close> sends each request to one of several endpoints in turn, blocks the ones that
    fail, and retries.
  \<^item> The \<^emph>\<open>synchronizer\<close> receives the ranges in any order through a channel, keeps them by block,
    and with every tick saves the run of blocks that follows the last saved one, numbering the
    records consecutively.
  \<^item> The \<^emph>\<open>persistor\<close> keeps records and last block in a bbolt database, and reads pages.
  \<^item> The \<^emph>\<open>router\<close> answers \<^verbatim>\<open>/health\<close>, \<^verbatim>\<open>/data\<close> and \<^verbatim>\<open>/last-block-indexed\<close>.

  \<^bold>\<open>Theories and code\<close> (paths under \<^verbatim>\<open>src\<close>)

  \<^item> \<^theory_text>\<open>Go_Prelude\<close>: 64-bit integers with wrap-around, errors and panics as values (\<open>outcome\<close>),
    stateful calls (\<open>call\<close>), loops over lists that may fail.
  \<^item> \<^theory_text>\<open>Chain_Types\<close> and \<^theory_text>\<open>Gob_Codec\<close>: \<^verbatim>\<open>types/types.go\<close>, the data types, the keys, and the gob
    stream in which a record is stored, read field by field as \<^verbatim>\<open>encoding/gob\<close> does.
  \<^item> \<^theory_text>\<open>Go_Strings\<close> and \<^theory_text>\<open>Environment\<close>: \<^verbatim>\<open>strconv\<close> and \<^verbatim>\<open>strings\<close> as far as they are used, and
    \<^verbatim>\<open>environment/environment.go\<close> with the package-level variables of all components as one
    record \<open>config\<close>.
  \<^item> \<^theory_text>\<open>Bolt_Store\<close> and \<^theory_text>\<open>Persistor\<close>: the database as a parameter with its documented laws (locale
    \<open>bolt_store\<close>), and \<^verbatim>\<open>persistor/persistor.go\<close>. What the synchronizer relies on is the locale
    \<open>persistor_contract\<close>, a consequence of \<open>bolt_store\<close>.
  \<^item> \<^theory_text>\<open>Synchronizer\<close>: \<^verbatim>\<open>synchronizer/synchronizer.go\<close>, with its two steps, receive and tick.
    A tick that saves is split into the transaction (\<open>commit\<close>) and the counters (\<open>advance\<close>).
  \<^item> \<^theory_text>\<open>Json_Decode\<close> and \<^theory_text>\<open>Error_Code\<close>: \<^verbatim>\<open>encoding/json\<close> for the two structures that are decoded,
    and \<^verbatim>\<open>balancer/error_code.go\<close>. \<^theory_text>\<open>Error_Texts\<close>: the forms of the errors of go-ethereum's rpc client,
    written with the encoder of \<^theory_text>\<open>Json_Encode\<close>, and how they are classified.
  \<^item> \<^theory_text>\<open>Rpc\<close> and \<^theory_text>\<open>Balancer\<close>: \<^verbatim>\<open>balancer/rpc.go\<close> over a record of the operations of the Ethereum
    client, the clock and the timer (\<open>eth_api\<close>), and \<^verbatim>\<open>balancer/balancer.go\<close>.
  \<^item> \<^theory_text>\<open>Interfaces\<close> and \<^theory_text>\<open>Balancer_Service\<close>: the interface \<^verbatim>\<open>types.Balancer\<close> as a record of
    operations; its contracts as locales (it returns with announced errors; its answers show
    one chain; it keeps answering) and the balancer as their instance.
  \<^item> \<^theory_text>\<open>Balancer_Calls\<close>: the same \<^verbatim>\<open>balancer/balancer.go\<close> with calls that overlap. A call is a
    point in \<^verbatim>\<open>handleRounds\<close>, and a step one access to the shared clients and counter.
  \<^item> \<^theory_text>\<open>Fetcher\<close>: \<^verbatim>\<open>fetcher/fetcher.go\<close> over any balancer and any ABI decoder.
  \<^item> \<^theory_text>\<open>Orchestrator\<close>: \<^verbatim>\<open>orchestrator/orchestrator.go\<close>.
  \<^item> \<^theory_text>\<open>Indexer\<close> and \<^theory_text>\<open>Completion\<close>: \<^verbatim>\<open>main.go\<close> and the process in large steps (\<open>step\<close>). A state
    holds the fetches under way as a multiset of tasks, the synchronizer, the database, the
    balancer and the end block of the orchestrator; a call of the balancer is one step.
  \<^item> \<^theory_text>\<open>Interleaved\<close>: the running process (\<open>system_step\<close>), in which the calls of the balancer
    made by the goroutines overlap, the semaphore of the fetcher is a counter that each fetch takes and
    gives back (\<open>sem_held\<close>), and the counters of the synchronizer may be behind the
    database. It is simulated by the process in large steps over a balancer
    that answers from a script (\<open>system_step_seen\<close>), so what holds there holds here.
  \<^item> \<^theory_text>\<open>Progress\<close>: what must happen. Infinite runs of \<open>system_step\<close> that stand still only when
    nothing is left to do (\<open>fair_run\<close>), and a measure of the work left (\<open>work\<close>).
  \<^item> \<^theory_text>\<open>Json_Encode\<close>: the writer of \<^verbatim>\<open>encoding/json\<close> for a page, with its escapes, and the client
    that reads the text with \<open>Json_Decode\<close>.
  \<^item> \<^theory_text>\<open>Router\<close> and \<^theory_text>\<open>Server\<close>: \<^verbatim>\<open>router/router.go\<close>. The handlers, with the query decoder of
    \<^verbatim>\<open>net/url\<close>, and the table of routes over gorilla/mux; and \<^verbatim>\<open>RunServer\<close> as the steps of its two
    goroutines and of the connections.
  \<^item> \<^theory_text>\<open>Serving\<close> and \<^theory_text>\<open>Restart\<close>: what spans the components. Clients that follow the links of pages
    while the program runs; and a process that is stopped and started again.

  \<^bold>\<open>What the theorems show\<close>

  \<^item> The whole program: the database always holds the records of exactly the blocks before the
    next one to save, in chain order (\<open>process_saves_chain\<close>); every step appends to that log or
    leaves it (\<open>program_refines_log\<close>); no block is lost on its way (\<open>no_block_is_lost\<close>); as
    long as a healthy client has room, every running state can go on to the end of the wanted
    blocks (\<open>program_completes\<close>), and when all clients answer every fair run gets there
    (\<open>fair_runs_complete\<close>); clients that follow the links while the program runs read a
    gapless beginning of these records, and all of them when they reach a page without a link
    (\<open>clients_read_the_chain\<close>); and what \<^verbatim>\<open>main\<close> starts is where these theorems start
    (\<open>main_starts_program\<close>).
  \<^item> Fetching: the records of a fetch are those of the chain; splits cover their range; at most
    \<^verbatim>\<open>CONCURRENCY\<close> fetches are in their requests (\<open>semaphore_bounds_fetches\<close>); what
    happens to two events of one transaction, to a transaction without a recipient, and with
    an upper-case letter in the address.
  \<^item> Balancing: every call ends with an answer or an announced error; with a working client, in its
    first round (\<open>healthy_client_is_used\<close>);
    which error blocks which client; how the errors of go-ethereum are read
    (\<open>handleRPCError_classifies\<close>).
  \<^item> Overlapping calls: a call alone is \<^verbatim>\<open>handleRounds\<close>; under every interleaving no call panics,
    each answers from its own request or ends with an announced error, and each returns within
    a bounded number of its own steps. Two things that hold of a call alone do not survive: enough
    other calls can make a call miss every healthy client, whatever the number of clients and
    rounds (\<open>healthy_client_missed\<close>), and a block for good can be undone
    (\<open>indefinite_block_undone\<close>).
  \<^item> Saving: the batches of the synchronizer, the modes of the database, the last block, pages,
    and the round trip of a record through its stored form.
  \<^item> Serving: the body of a page decodes to the page (\<open>data_body_decodes\<close>), which rests on the
    round trip of every JSON value through its text (\<open>json_value_print\<close>); \<^verbatim>\<open>RunServer\<close> returns only
    when no connection is open (\<open>RunServer_drains\<close>), and can return once it is signalled
    (\<open>RunServer_ends\<close>).
  \<^item> Starting: what both modes request, the configuration with its defaults, and what goes wrong
    when a full-mode process is restarted: it overwrites its records
    (\<open>restart_overwrites_records\<close>), and when it is in sync its first fetch asks for a range that
    ends before it begins, and panics or is split into itself (\<open>synced_restart_fails\<close>).

  \<^bold>\<open>Bounds and fuel\<close>

  Loops that the code writes without an evident end are \<open>partial_function\<close>s, and their returning
  is proved where they are used. The theorems on the running process assume a horizon: a last
  block \<open>H\<close> such that the blocks and the records up to it can be numbered with 64-bit integers
  (\<open>horizon_ok\<close>, part of \<open>world_ok\<close>). The balancer needs room in its 64-bit counter for the
  attempts of the calls it makes (\<open>room\<close>), because a counter above \<open>2 ^ 63\<close> would give a negative
  index. A call whose client answers counts one
  attempt, and a range of \<open>n\<close> blocks is split into fewer than \<open>2 * n\<close> fetches of two calls, so
  that \<open>130\<close> per block, the bound of \<open>fair_runs_complete\<close>, is generous: it is the measure that
  the proof uses. A client makes one request to each server of a list; \<open>links_enumerate_records\<close> gives it
  one server per record and one more, which is enough because every page but the last has at
  least one record.

  \<^bold>\<open>What is not modelled\<close>

  \<^item> Third-party code is a parameter: bbolt (its laws are the locale \<open>bolt_store\<close>, with a
    reference instance), the Ethereum client and the clock (\<open>eth_api\<close>), the decoding of
    transactions and events by go-ethereum (\<open>geth\<close>), gorilla/mux (\<open>gorilla_mux\<close>) and errgroup
    (\<open>errgroup_ok\<close>). The weighted semaphore of \<^verbatim>\<open>golang.org/x/sync\<close> is used with weight 1 only, and is
    modelled by its documented behaviour: \<^verbatim>\<open>Acquire\<close> takes 1 once less than the capacity is taken, in any
    order of those that wait, and \<^verbatim>\<open>Release\<close> gives 1 back. The one theorem that needs time to pass
    (\<open>NewBalancer_ready\<close>) has a clock that does not go backwards as a hypothesis (\<open>clock_ok\<close>). The ABI package of go-ethereum is a
    parameter as well (\<open>abi_api\<close>), and with it the text of the ABI in \<^verbatim>\<open>fetcher/abi.go\<close>.
  \<^item> The bytes of HTTP itself, the delivery of signals, the closing of the database, reading the
    \<^verbatim>\<open>.env\<close> file, and all printing, with \<^verbatim>\<open>getURL\<close>, which only printing uses. A handler runs at
    one moment of the running process; each of them reads the shared state once.
  \<^item> In the running process, a transaction of the database is one step, and so is the update of the
    two counters and the map of the synchronizer that follows later: no other goroutine reads
    more than the first counter. The request to an endpoint is one step of its call. Time passes only as the clock that the
    balancer reads; tickers may fire at any moment.
\<close>

end
